(* ===== verification/Prelude.thy ===== *)
theory Prelude
  imports Main "HOL-Library.Word" "HOL-Library.AList" "HOL-Library.Multiset"
    "HOL-Library.Signed_Division" "HOL-Library.Monad_Syntax"
begin

text \<open>
  What the components share: the Go types the program uses (fixed-width integers, instants
  and durations, maps), the Go loop idioms it repeats, and the lemmas about them.

  \<^item> An instant (\<open>time.Time\<close>) is the \<open>int\<close> of nanoseconds since the Unix epoch; a
    \<open>time.Duration\<close> is an \<open>int\<close> of nanoseconds. \<open>time_sub\<close> is \<open>Time.Sub\<close>, which
    saturates at the bounds of \<open>int64\<close>; \<open>unix_nano\<close> is \<open>Time.UnixNano\<close>, which wraps.
  \<^item> A Go map is an association list with distinct keys (\<open>gm_ok\<close>). Its order stands for
    the order in which \<open>range\<close> visits the entries, which Go leaves unspecified: lemmas hold
    for every order of the list, and the step relations of the components may reorder it.
  \<^item> A Go panic is \<open>None\<close>; code that may panic returns an option.
\<close>

unbundle bit_operations_syntax

named_theorems gomap_simps "rewriting for Go maps as association lists"
named_theorems gotime_simps "rewriting for instants and durations"

type_synonym u32 = "32 word"
type_synonym u64 = "64 word"
type_synonym time = int
type_synonym duration = int
type_synonym ('k, 'v) gomap = "('k \<times> 'v) list"

section \<open>Instants and durations\<close>

abbreviation max_duration :: duration where "max_duration \<equiv> 9223372036854775807"
abbreviation min_duration :: duration where "min_duration \<equiv> - 9223372036854775808"
abbreviation second_ns :: duration where "second_ns \<equiv> 1000000000"
abbreviation minute_ns :: duration where "minute_ns \<equiv> 60 * second_ns"
abbreviation hour_ns :: duration where "hour_ns \<equiv> 3600 * second_ns"

definition time_sub :: "time \<Rightarrow> time \<Rightarrow> duration" where
  "time_sub t u = max min_duration (min max_duration (t - u))"

text \<open>The zero \<open>time.Time\<close> is midnight UTC on 1 January of the year 1.\<close>

definition zero_time :: time where
  "zero_time = - 62135596800 * second_ns"

definition unix_nano :: "time \<Rightarrow> int" where
  "unix_nano t = sint (word_of_int t :: u64)"

lemma time_sub_mono: "t \<le> t' \<Longrightarrow> time_sub t u \<le> time_sub t' u"
  by (auto simp: time_sub_def)

lemma time_sub_antimono: "u \<le> u' \<Longrightarrow> time_sub t u' \<le> time_sub t u"
  by (auto simp: time_sub_def)

lemma time_sub_self [gotime_simps]: "time_sub t t = 0"
  by (simp add: time_sub_def)

lemma time_sub_exact [gotime_simps]:
  "min_duration \<le> t - u \<Longrightarrow> t - u \<le> max_duration \<Longrightarrow> time_sub t u = t - u"
  by (simp add: time_sub_def)

lemma time_sub_less_iff:
  "min_duration < d \<Longrightarrow> d \<le> max_duration \<Longrightarrow> time_sub t u < d \<longleftrightarrow> t - u < d"
  by (auto simp: time_sub_def)

lemma unix_nano_exact [gotime_simps]:
  assumes "0 \<le> t" and "t \<le> max_duration"
  shows "unix_nano t = t"
proof -
  have "signed_take_bit 63 t = t"
    using assms by (simp add: signed_take_bit_int_eq_self_iff)
  then show ?thesis
    by (simp add: unix_nano_def signed_of_int)
qed

section \<open>Go maps\<close>

abbreviation gm_len :: "('k, 'v) gomap \<Rightarrow> int" where "gm_len m \<equiv> int (length m)"

definition gm_ok :: "('k, 'v) gomap \<Rightarrow> bool" where
  "gm_ok m \<longleftrightarrow> distinct (map fst m)"

lemma gm_ok_Nil [simp]: "gm_ok []"
  by (simp add: gm_ok_def)

lemma gm_ok_update [simp]: "gm_ok m \<Longrightarrow> gm_ok (AList.update k v m)"
  by (simp add: gm_ok_def distinct_update)

lemma gm_ok_delete [simp]: "gm_ok m \<Longrightarrow> gm_ok (AList.delete k m)"
  by (simp add: gm_ok_def distinct_delete)

lemma gm_ok_filter [simp]: "gm_ok m \<Longrightarrow> gm_ok (filter P m)"
  by (simp add: gm_ok_def distinct_map_filter)

lemma gm_ok_reorder: "mset m' = mset m \<Longrightarrow> gm_ok m' \<longleftrightarrow> gm_ok m"
  unfolding gm_ok_def by (metis mset_map mset_eq_imp_distinct_iff)

lemma map_of_reorder: "mset m' = mset m \<Longrightarrow> gm_ok m \<Longrightarrow> map_of m' = map_of m"
  by (metis gm_ok_def gm_ok_reorder map_of_inject_set mset_eq_setD)

lemma gm_get_iff: "gm_ok m \<Longrightarrow> map_of m k = Some v \<longleftrightarrow> (k, v) \<in> set m"
  by (simp add: gm_ok_def)

lemma length_gm_update [gomap_simps]:
  "length (AList.update k v m) = (if k \<in> dom (map_of m) then length m else Suc (length m))"
  by (induction m) (auto simp: dom_def)

lemma gm_delete_filter: "AList.delete k m = filter (\<lambda>e. fst e \<noteq> k) m"
  unfolding AList.delete_eq by (rule filter_cong) auto

lemma gm_delete_absent [gomap_simps]: "k \<notin> dom (map_of m) \<Longrightarrow> AList.delete k m = m"
  by (simp add: dom_map_of_conv_image_fst)

lemma gm_update_absent [gomap_simps]:
  "k \<notin> dom (map_of m) \<Longrightarrow> AList.update k v m = m @ [(k, v)]"
  by (induction m) (auto simp: dom_map_of_conv_image_fst)

lemma gm_update_mset:
  "gm_ok m \<Longrightarrow> mset (AList.update k v m) = add_mset (k, v) (mset (AList.delete k m))"
proof (induction m)
  case Nil
  then show ?case by simp
next
  case (Cons e m)
  obtain k' v' where e: "e = (k', v')" by (cases e)
  from Cons.prems have m: "gm_ok m" and new: "k' \<notin> dom (map_of m)"
    by (auto simp: gm_ok_def e dom_map_of_conv_image_fst)
  have "AList.delete k' m = m"
    using new by (rule gm_delete_absent)
  with Cons.IH [OF m] show ?case
    by (cases "k = k'") (simp_all add: e)
qed

lemma gm_delete_mset:
  "gm_ok m \<Longrightarrow> map_of m k = Some v \<Longrightarrow> mset m = add_mset (k, v) (mset (AList.delete k m))"
proof (induction m)
  case Nil
  then show ?case by simp
next
  case (Cons e m)
  obtain k' v' where e: "e = (k', v')" by (cases e)
  from Cons.prems have m: "gm_ok m" and new: "k' \<notin> dom (map_of m)"
    by (auto simp: gm_ok_def e dom_map_of_conv_image_fst)
  have "AList.delete k' m = m"
    using new by (rule gm_delete_absent)
  with Cons.IH [OF m] Cons.prems show ?case
    by (auto simp: e split: if_splits)
qed

lemma length_gm_delete:
  "gm_ok m \<Longrightarrow> map_of m k = Some v \<Longrightarrow> length m = Suc (length (AList.delete k m))"
  by (metis gm_delete_mset size_add_mset size_mset)

lemma gm_delete_less: "map_of m k = Some v \<Longrightarrow> length (AList.delete k m) < length m"
  by (induction m) (auto simp: le_imp_less_Suc length_delete_le split: if_splits)

section \<open>Loops over a map that delete as they go\<close>

text \<open>
  The loop \<open>for k, v := range m { if p(k, v) { done = append(done, ...); delete(m, k) } }\<close>,
  which \<open>Sessions.Sweep\<close>, \<open>Guard.Decay\<close> and \<open>Limiter.Sweep\<close> share: the entries visited
  that satisfy \<open>p\<close>, in the order of the visit, and the map that is left.
\<close>

definition range_delete ::
  "('k \<Rightarrow> 'v \<Rightarrow> bool) \<Rightarrow> ('k, 'v) gomap \<Rightarrow> ('k \<times> 'v) list \<times> ('k, 'v) gomap" where
  "range_delete p m =
     fold (\<lambda>(k, v) (gone, left). if p k v then (gone @ [(k, v)], AList.delete k left) else (gone, left))
       m ([], m)"

lemma range_delete_loop:
  assumes "gm_ok (pre @ todo)" and "\<forall>(k, v) \<in> set pre. \<not> p k v"
  shows "fold (\<lambda>(k, v) (gone, left).
            if p k v then (gone @ [(k, v)], AList.delete k left) else (gone, left))
          todo (acc, pre @ todo) =
         (acc @ filter (\<lambda>(k, v). p k v) todo, pre @ filter (\<lambda>(k, v). \<not> p k v) todo)"
  using assms
proof (induction todo arbitrary: pre acc)
  case Nil
  then show ?case by simp
next
  case (Cons e todo)
  obtain k v where e: "e = (k, v)" by (cases e)
  have k: "k \<notin> fst ` set pre" "k \<notin> fst ` set todo"
    using Cons.prems(1) by (auto simp: gm_ok_def e)
  show ?case
  proof (cases "p k v")
    case True
    have "AList.delete k (pre @ e # todo) = pre @ todo"
      using k by (auto simp: e gm_delete_filter image_iff intro!: arg_cong2 [where f = append] filter_True)
    moreover have "gm_ok (pre @ todo)"
      using Cons.prems(1) by (auto simp: gm_ok_def)
    ultimately show ?thesis
      using Cons.IH [of pre "acc @ [(k, v)]"] Cons.prems(2) True by (simp add: e)
  next
    case False
    then show ?thesis
      using Cons.IH [of "pre @ [e]" acc] Cons.prems by (simp add: e)
  qed
qed

lemma range_delete_filter:
  "gm_ok m \<Longrightarrow>
   range_delete p m = (filter (\<lambda>(k, v). p k v) m, filter (\<lambda>(k, v). \<not> p k v) m)"
  using range_delete_loop [of "[]" m p "[]"] by (simp add: range_delete_def)

lemma map_of_filter_entries:
  "gm_ok m \<Longrightarrow>
   map_of (filter (\<lambda>(k, v). P k v) m) k = (case map_of m k of None \<Rightarrow> None
     | Some v \<Rightarrow> if P k v then Some v else None)"
proof (induction m)
  case Nil
  then show ?case by simp
next
  case (Cons e m)
  obtain k' v' where e: "e = (k', v')" by (cases e)
  from Cons.prems have m: "gm_ok m" and new: "map_of m k' = None"
    by (auto simp: gm_ok_def e map_of_eq_None_iff)
  from Cons.IH [OF m] new show ?case
    by (cases "k = k'") (simp_all add: e)
qed

lemma range_delete_mset:
  "gm_ok m \<Longrightarrow> range_delete p m = (gone, left) \<Longrightarrow> mset m = mset gone + mset left"
  by (auto simp: range_delete_filter case_prod_unfold multiset_partition [symmetric])

lemma range_delete_length:
  "gm_ok m \<Longrightarrow> range_delete p m = (gone, left) \<Longrightarrow> length m = length gone + length left"
  by (drule (1) range_delete_mset, drule arg_cong [where f = size]) simp

section \<open>Results that may be errors\<close>

lemma result_iff:
  assumes "c \<Longrightarrow> r = Inr y" and "\<not> c \<Longrightarrow> isl r"
  shows "r = Inr x \<longleftrightarrow> c \<and> x = y"
  using assms by (cases c) auto

section \<open>Loops that may panic\<close>

text \<open>A \<open>for\<close> loop over a list whose body updates the state or panics.\<close>

fun loop_opt :: "('a \<Rightarrow> 's \<Rightarrow> 's option) \<Rightarrow> 'a list \<Rightarrow> 's \<Rightarrow> 's option" where
  "loop_opt f [] s = Some s"
| "loop_opt f (x # xs) s = do { s' \<leftarrow> f x s; loop_opt f xs s' }"

lemma loop_opt_append:
  "loop_opt f (xs @ ys) s = do { s' \<leftarrow> loop_opt f xs s; loop_opt f ys s' }"
  by (induction xs arbitrary: s) (auto split: bind_splits)

lemma loop_opt_invariant:
  assumes "loop_opt f xs s = Some s'" and "I s"
    and "\<And>x t t'. x \<in> set xs \<Longrightarrow> I t \<Longrightarrow> f x t = Some t' \<Longrightarrow> I t'"
  shows "I s'"
  using assms
proof (induction xs arbitrary: s)
  case Nil
  then show ?case by simp
next
  case (Cons x xs)
  then obtain t where "f x s = Some t" "loop_opt f xs t = Some s'"
    by (auto split: bind_splits)
  then show ?case
    using Cons.IH [of t] Cons.prems by auto
qed

lemma loop_opt_total:
  assumes "I s" and "\<And>x t. x \<in> set xs \<Longrightarrow> I t \<Longrightarrow> \<exists>t'. f x t = Some t' \<and> I t'"
  shows "\<exists>s'. loop_opt f xs s = Some s' \<and> I s'"
  using assms
proof (induction xs arbitrary: s)
  case Nil
  then show ?case by simp
next
  case (Cons x xs)
  from Cons.prems(2) [of x s] Cons.prems(1) obtain t where "f x s = Some t" "I t"
    by auto
  then show ?case using Cons.IH [of t] Cons.prems(2) by auto
qed

end
