(* ===== verification/Counter.thy ===== *)
theory Counter
  imports Prelude
begin

text \<open>
  The admission counter of \<open>internal/aggregate/guard.go\<close>: a Count-Min sketch over label
  values with conservative update and periodic halving. The hash function
  (\<open>xxhash.Sum64String\<close>, a third-party package) is the parameter \<open>xx\<close>.

  \<^item> \<open>counter\<close>, \<open>newCounter\<close>, \<open>halve\<close>, \<open>counter_add\<close>, \<open>counter_reset\<close>: the code.
  \<^item> \<open>counter_ok\<close>: the well-formedness every operation keeps; under it \<open>counter_add\<close> does
    not panic (\<open>counter_add_hash_eq\<close>, which also replaces its two loops by one pass).
  \<^item> \<open>tally\<close>: the abstract specification, an aged frequency per value; \<open>dominates\<close> is the
    simulation relation, \<open>isolated_exact\<close> says when the estimate is exact, and
    \<open>plain_add\<close> is the textbook Count-Min sketch the conservative update is compared with.
\<close>

section \<open>The code\<close>

record counter =
  cm_depth :: int
  cm_width :: u64
  cm_cells :: "u32 list"
  cm_adds :: u64
  cm_epoch :: u64

abbreviation max_u32 :: u32 where "max_u32 \<equiv> 4294967295"

definition newCounter :: "int \<Rightarrow> u64 \<Rightarrow> counter" where
  "newCounter depth width =
     \<lparr>cm_depth = depth, cm_width = width,
      cm_cells = replicate (unat (word_of_int depth * width)) 0,
      cm_adds = 0, cm_epoch = width\<rparr>"

definition halve :: "counter \<Rightarrow> counter" where
  "halve c = c\<lparr>cm_cells := map (drop_bit 1) (cm_cells c), cm_adds := 0\<rparr>"

definition counter_reset :: "counter \<Rightarrow> counter" where
  "counter_reset c = c\<lparr>cm_cells := map (\<lambda>_. 0) (cm_cells c)\<rparr>"

text \<open>\<open>h1, h2 := h, h>>32|h<<32\<close> and the index of row \<open>i\<close>.\<close>

definition rot32 :: "u64 \<Rightarrow> u64" where
  "rot32 h = drop_bit 32 h OR push_bit 32 h"

definition cell_index :: "u64 \<Rightarrow> u64 \<Rightarrow> nat \<Rightarrow> u64" where
  "cell_index width h i =
     word_of_nat i * width + (h + word_of_nat i * rot32 h) mod width"

text \<open>The number of rows the two loops visit: the index array has eight slots.\<close>

definition rows :: "counter \<Rightarrow> nat" where
  "rows c = nat (if cm_depth c > 8 then 8 else cm_depth c)"

definition cell_at :: "u32 list \<Rightarrow> u64 \<Rightarrow> u32 option" where
  "cell_at cs j = (if unat j < length cs then Some (cs ! unat j) else None)"

text \<open>
  The two loops of \<open>add\<close>. Both panic on an index outside the cells, and the first on a zero
  width (integer division by zero).
\<close>

definition scan_row :: "counter \<Rightarrow> u64 \<Rightarrow> nat \<Rightarrow> u64 list \<times> u32 \<Rightarrow> (u64 list \<times> u32) option" where
  "scan_row c h i acc =
     (if cm_width c = 0 then None
      else do {
        let j = cell_index (cm_width c) h i;
        v \<leftarrow> cell_at (cm_cells c) j;
        Some (fst acc @ [j], if v < snd acc then v else snd acc)
      })"

definition bump_cell :: "u32 \<Rightarrow> u64 \<Rightarrow> u32 list \<Rightarrow> u32 list option" where
  "bump_cell m j cs =
     do {
       v \<leftarrow> cell_at cs j;
       Some (if v = m then cs[unat j := m + 1] else cs)
     }"

definition tick :: "counter \<Rightarrow> counter" where
  "tick c =
     (let c1 = c\<lparr>cm_adds := cm_adds c + 1\<rparr>
      in if cm_adds c1 \<ge> cm_epoch c1 then halve c1 else c1)"

definition counter_add_hash :: "u64 \<Rightarrow> counter \<Rightarrow> (u32 \<times> counter) option" where
  "counter_add_hash h c =
     (let c1 = tick c in
      do {
        (idx, m) \<leftarrow> loop_opt (scan_row c1 h) [0..<rows c1] ([], max_u32);
        if m = max_u32 then Some (m, c1)
        else do {
          cs \<leftarrow> loop_opt (bump_cell m) idx (cm_cells c1);
          Some (m + 1, c1\<lparr>cm_cells := cs\<rparr>)
        }
      })"

definition counter_add :: "(string \<Rightarrow> u64) \<Rightarrow> string \<Rightarrow> counter \<Rightarrow> (u32 \<times> counter) option" where
  "counter_add xx v c = counter_add_hash (xx v) c"

section \<open>Well-formedness and the cells a hash selects\<close>

definition counter_ok :: "counter \<Rightarrow> bool" where
  "counter_ok c \<longleftrightarrow>
     0 < cm_depth c \<and> 0 < cm_width c \<and>
     length (cm_cells c) = nat (cm_depth c) * unat (cm_width c) \<and>
     nat (cm_depth c) * unat (cm_width c) < 2 ^ 64 \<and>
     cm_adds c < cm_epoch c"

definition pos :: "counter \<Rightarrow> u64 \<Rightarrow> nat \<Rightarrow> nat" where
  "pos c h i = i * unat (cm_width c) + unat ((h + word_of_nat i * rot32 h) mod cm_width c)"

definition slots :: "counter \<Rightarrow> u64 \<Rightarrow> nat set" where
  "slots c h = pos c h ` {..<rows c}"

text \<open>The estimate the sketch holds for a hash: the least of its cells.\<close>

definition estimate :: "counter \<Rightarrow> u64 \<Rightarrow> u32" where
  "estimate c h = Min ((\<lambda>j. cm_cells c ! j) ` slots c h)"

definition raise :: "nat set \<Rightarrow> u32 \<Rightarrow> u32 list \<Rightarrow> u32 list" where
  "raise J m cs = map (\<lambda>j. if j \<in> J \<and> cs ! j = m then m + 1 else cs ! j) [0..<length cs]"

lemma le_max_u32: "x \<le> max_u32"
proof -
  have "unat x < 2 ^ LENGTH(32)" by (rule unsigned_less)
  then show ?thesis by (simp add: word_le_nat_alt)
qed

lemma if_less_min: "(if a < b then a else b) = min a (b :: 'a :: linorder)"
  by (auto simp: min_def)

lemma length_raise [simp]: "length (raise J m cs) = length cs"
  by (simp add: raise_def)

lemma nth_raise [simp]:
  "j < length cs \<Longrightarrow> raise J m cs ! j = (if j \<in> J \<and> cs ! j = m then m + 1 else cs ! j)"
  by (simp add: raise_def)

lemma raise_empty [simp]: "raise {} m cs = cs"
  by (rule nth_equalityI) auto

lemma rows_pos: "counter_ok c \<Longrightarrow> 0 < rows c"
  by (simp add: counter_ok_def rows_def)

lemma pos_col: "counter_ok c \<Longrightarrow> pos c h i < Suc i * unat (cm_width c)"
proof -
  assume "counter_ok c"
  then have "0 < unat (cm_width c)"
    by (simp add: counter_ok_def unat_gt_0 word_gt_0)
  then show ?thesis
    by (simp add: pos_def unat_mod)
qed

lemma pos_less:
  assumes ok: "counter_ok c" and i: "i < rows c"
  shows "pos c h i < length (cm_cells c)"
proof -
  have "Suc i \<le> nat (cm_depth c)"
    using i by (auto simp: rows_def split: if_splits)
  then have "Suc i * unat (cm_width c) \<le> length (cm_cells c)"
    using ok by (simp add: counter_ok_def mult_le_mono1 del: mult_Suc)
  with pos_col [OF ok, of h i] show ?thesis by simp
qed

lemma unat_cell_index:
  assumes ok: "counter_ok c" and i: "i < rows c"
  shows "unat (cell_index (cm_width c) h i) = pos c h i"
proof -
  have lt: "pos c h i < 2 ^ 64"
    using pos_less [OF ok i, of h] ok by (simp add: counter_ok_def)
  let ?r = "unat ((h + word_of_nat i * rot32 h) mod cm_width c)"
  have i8: "i < 2 ^ 64"
    using i by (auto simp: rows_def split: if_splits)
  then have "unat (word_of_nat i * cm_width c) = i * unat (cm_width c)"
    using lt by (simp add: unat_word_ariths pos_def unat_of_nat take_bit_nat_eq_self)
  with lt show ?thesis
    by (simp add: cell_index_def pos_def unat_word_ariths)
qed

lemma pos_inj:
  assumes ok: "counter_ok c" and eq: "pos c h i = pos c h' k"
  shows "i = k"
proof -
  have w: "0 < unat (cm_width c)"
    using ok by (simp add: counter_ok_def unat_gt_0 word_gt_0)
  have "pos c h i div unat (cm_width c) = i" "pos c h' k div unat (cm_width c) = k"
    using w by (simp_all add: pos_def unat_mod)
  with eq show ?thesis by simp
qed

lemma slots_less: "counter_ok c \<Longrightarrow> j \<in> slots c h \<Longrightarrow> j < length (cm_cells c)"
  by (auto simp: slots_def pos_less)

lemma slots_ne: "counter_ok c \<Longrightarrow> slots c h \<noteq> {}"
  using rows_pos [of c] by (auto simp: slots_def)

lemma finite_slots [simp]: "finite (slots c h)"
  by (simp add: slots_def)

lemma estimate_le: "j \<in> slots c h \<Longrightarrow> estimate c h \<le> cm_cells c ! j"
  by (simp add: estimate_def)

lemma estimate_in: "counter_ok c \<Longrightarrow> \<exists>j \<in> slots c h. estimate c h = cm_cells c ! j"
proof -
  assume "counter_ok c"
  then have "(\<lambda>j. cm_cells c ! j) ` slots c h \<noteq> {}"
    using slots_ne by blast
  then have "estimate c h \<in> (\<lambda>j. cm_cells c ! j) ` slots c h"
    unfolding estimate_def by (rule Min_in [rotated]) simp
  then show ?thesis by auto
qed

lemma estimate_geI: "counter_ok c \<Longrightarrow> \<forall>j \<in> slots c h. m \<le> cm_cells c ! j \<Longrightarrow> m \<le> estimate c h"
  using estimate_in [of c h] by auto

section \<open>The loops of \<open>add\<close> in one pass\<close>

lemma scan_loop:
  assumes ok: "counter_ok c" and n: "n \<le> rows c"
  shows "loop_opt (scan_row c h) [0..<n] ([], max_u32) =
    Some (map (cell_index (cm_width c) h) [0..<n],
          Min (insert max_u32 ((\<lambda>i. cm_cells c ! pos c h i) ` {..<n})))"
  using n
proof (induction n)
  case 0
  then show ?case by simp
next
  case (Suc n)
  then have n: "n < rows c" by simp
  have w: "cm_width c \<noteq> 0"
    using ok by (auto simp: counter_ok_def)
  have at: "cell_at (cm_cells c) (cell_index (cm_width c) h n) = Some (cm_cells c ! pos c h n)"
    using pos_less [OF ok n] by (simp add: cell_at_def unat_cell_index [OF ok n])
  let ?S = "insert max_u32 ((\<lambda>i. cm_cells c ! pos c h i) ` {..<n})"
  let ?a = "cm_cells c ! pos c h n"
  have "(if ?a < Min ?S then ?a else Min ?S) = min ?a (Min ?S)"
    by (rule if_less_min)
  also have "\<dots> = Min (insert ?a ?S)"
    by (rule Min_insert [symmetric]) auto
  also have "insert ?a ?S = insert max_u32 ((\<lambda>i. cm_cells c ! pos c h i) ` {..<Suc n})"
    by (auto simp: lessThan_Suc)
  finally have m: "(if ?a < Min ?S then ?a else Min ?S) =
      Min (insert max_u32 ((\<lambda>i. cm_cells c ! pos c h i) ` {..<Suc n}))" .
  have step: "scan_row c h n (js, M) =
      Some (js @ [cell_index (cm_width c) h n], if ?a < M then ?a else M)" for js M
    by (simp add: scan_row_def w at Let_def)
  show ?case
    using Suc.IH n m by (simp add: loop_opt_append step del: Min_gr_iff)
qed

lemma bump_loop:
  assumes "\<forall>j \<in> set js. unat j < length cs" and "m \<noteq> max_u32"
  shows "loop_opt (bump_cell m) js cs = Some (raise (unat ` set js) m cs)"
  using assms
proof (induction js arbitrary: cs)
  case Nil
  then show ?case by simp
next
  case (Cons j js)
  have ne: "m + 1 \<noteq> m" by simp
  let ?cs = "if cs ! unat j = m then cs[unat j := m + 1] else cs"
  have "raise (unat ` set js) m ?cs = raise (unat ` set (j # js)) m cs"
  proof (rule nth_equalityI)
    fix i
    assume "i < length (raise (unat ` set js) m ?cs)"
    then have i: "i < length cs" by (simp split: if_splits)
    then have "?cs ! i = (if i = unat j \<and> cs ! i = m then m + 1 else cs ! i)"
      by (auto simp: nth_list_update)
    with i show "raise (unat ` set js) m ?cs ! i = raise (unat ` set (j # js)) m cs ! i"
      by (subst nth_raise) auto
  qed simp
  moreover have "loop_opt (bump_cell m) js ?cs = Some (raise (unat ` set js) m ?cs)"
    by (rule Cons.IH) (use Cons.prems in auto)
  moreover have "bump_cell m j cs = Some ?cs"
    using Cons.prems(1) by (simp add: bump_cell_def cell_at_def)
  ultimately show ?case by simp
qed

lemma tick_shape [simp]:
  "cm_depth (tick c) = cm_depth c" "cm_width (tick c) = cm_width c"
  "cm_epoch (tick c) = cm_epoch c" "length (cm_cells (tick c)) = length (cm_cells c)"
  by (simp_all add: tick_def halve_def Let_def)

lemma tick_ok [simp]: "counter_ok c \<Longrightarrow> counter_ok (tick c)"
  by (auto simp: counter_ok_def tick_def halve_def Let_def not_le word_gt_0)

lemma same_slots:
  "cm_depth c' = cm_depth c \<Longrightarrow> cm_width c' = cm_width c \<Longrightarrow> slots c' h = slots c h"
  by (simp add: slots_def pos_def rows_def)

lemma slots_simps [simp]:
  "slots (tick c) h = slots c h" "slots (c\<lparr>cm_cells := cs\<rparr>) h = slots c h"
  "slots (counter_reset c) h = slots c h" "slots (halve c) h = slots c h"
  by (rule same_slots; simp add: counter_reset_def halve_def)+

text \<open>
  On a well-formed counter \<open>add\<close> never panics, and its result is the estimate, raised in
  every cell that held it.
\<close>

lemma counter_add_hash_eq:
  assumes ok: "counter_ok c"
  shows "counter_add_hash h c =
    (let c1 = tick c; m = estimate c1 h
     in if m = max_u32 then Some (m, c1)
        else Some (m + 1, c1\<lparr>cm_cells := raise (slots c h) m (cm_cells c1)\<rparr>))"
proof -
  let ?c = "tick c"
  have ok1: "counter_ok ?c" using ok by simp
  have S: "(\<lambda>i. cm_cells ?c ! pos ?c h i) ` {..<rows ?c} = (\<lambda>j. cm_cells ?c ! j) ` slots ?c h"
    by (simp add: slots_def image_image)
  have ne: "(\<lambda>j. cm_cells ?c ! j) ` slots ?c h \<noteq> {}"
    using slots_ne [OF ok1] by blast
  have "Min (insert max_u32 ((\<lambda>j. cm_cells ?c ! j) ` slots ?c h)) = estimate ?c h"
    using Min_insert [OF _ ne, of max_u32] by (simp add: estimate_def min_absorb2 le_max_u32)
  then have scan: "loop_opt (scan_row ?c h) [0..<rows ?c] ([], max_u32) =
      Some (map (cell_index (cm_width ?c) h) [0..<rows ?c], estimate ?c h)"
    using scan_loop [OF ok1 order.refl, of h] by (simp add: S)
  have idx: "unat ` set (map (cell_index (cm_width ?c) h) [0..<rows ?c]) = slots c h"
    using unat_cell_index [OF ok1] same_slots [of ?c c h]
    by (auto simp: slots_def image_image atLeast0LessThan)
  have bump: "loop_opt (bump_cell m) (map (cell_index (cm_width ?c) h) [0..<rows ?c]) (cm_cells ?c) =
      Some (raise (slots c h) m (cm_cells ?c))" if "m \<noteq> max_u32" for m
    using bump_loop [OF _ that, of "map (cell_index (cm_width ?c) h) [0..<rows ?c]" "cm_cells ?c"]
      pos_less [OF ok1] unat_cell_index [OF ok1] idx by auto
  show ?thesis
    using bump by (simp add: counter_add_hash_def scan Let_def)
qed


lemma counter_add_ok:
  assumes "counter_ok c" and "counter_add xx v c = Some (e, c')"
  shows "counter_ok c'" and "cm_depth c' = cm_depth c" and "cm_width c' = cm_width c"
    and "cm_epoch c' = cm_epoch c" and "cm_adds c' = cm_adds (tick c)"
  using assms tick_ok [OF assms(1)]
  by (auto simp: counter_add_def counter_add_hash_eq Let_def counter_ok_def split: if_splits)

lemma counter_add_total: "counter_ok c \<Longrightarrow> \<exists>e c'. counter_add xx v c = Some (e, c')"
  by (simp add: counter_add_def counter_add_hash_eq Let_def)

lemma counter_reset_ok [simp]: "counter_ok (counter_reset c) = counter_ok c"
  by (simp add: counter_ok_def counter_reset_def)

lemma unat_max_plus:
  assumes "m \<noteq> max_u32"
  shows "unat (m + 1) = Suc (unat m)"
proof -
  have "unat m \<noteq> unat max_u32" using assms by (simp only: word_unat_eq_iff) simp
  moreover have "unat m \<le> unat max_u32" using le_max_u32 [of m] by (simp only: word_le_nat_alt)
  ultimately have "unat m + 1 < 2 ^ 32" by simp
  then show ?thesis by (simp add: unat_word_ariths)
qed

lemma counter_reset_shape [simp]:
  "cm_depth (counter_reset c) = cm_depth c" "cm_width (counter_reset c) = cm_width c"
  "cm_epoch (counter_reset c) = cm_epoch c" "cm_adds (counter_reset c) = cm_adds c"
  by (simp_all add: counter_reset_def)

lemma counter_reset_cells:
  "j < length (cm_cells c) \<Longrightarrow> cm_cells (counter_reset c) ! j = 0"
  by (simp add: counter_reset_def)

lemma newCounter_ok:
  assumes "0 < d" and "0 < w" and "nat d * unat w < 2 ^ 64"
  shows "counter_ok (newCounter d w)"
proof -
  have w: "0 < unat w" using assms(2) by (simp add: unat_gt_0 word_gt_0)
  have "nat d * 1 \<le> nat d * unat w" using w by (intro mult_le_mono2) simp
  also note assms(3)
  finally have d: "nat d < 2 ^ 64" by simp
  have "unat (word_of_int d :: u64) = nat d"
    using assms(1) d by (simp add: unsigned_of_int take_bit_int_eq_self nat_less_iff)
  then have "unat (word_of_int d * w) = nat d * unat w"
    using assms(3) by (simp add: unat_word_ariths)
  then show ?thesis
    using assms by (simp add: counter_ok_def newCounter_def)
qed

section \<open>The abstract specification: aged frequencies\<close>

text \<open>
  What the sketch estimates: how often each value was added, halved whenever an epoch ends
  and never beyond the largest cell value.
\<close>

record tally =
  ty_adds :: nat
  ty_freq :: "string \<Rightarrow> nat"

definition tally_init :: tally where
  "tally_init = \<lparr>ty_adds = 0, ty_freq = (\<lambda>_. 0)\<rparr>"

definition tally_tick :: "nat \<Rightarrow> tally \<Rightarrow> tally" where
  "tally_tick e t =
     (if ty_adds t + 1 \<ge> e then \<lparr>ty_adds = 0, ty_freq = (\<lambda>u. ty_freq t u div 2)\<rparr>
      else t\<lparr>ty_adds := ty_adds t + 1\<rparr>)"

definition tally_add :: "nat \<Rightarrow> string \<Rightarrow> tally \<Rightarrow> tally" where
  "tally_add e v t =
     (let t1 = tally_tick e t
      in t1\<lparr>ty_freq := (ty_freq t1)(v := min (2 ^ 32 - 1) (ty_freq t1 v + 1))\<rparr>)"

definition tally_reset :: "tally \<Rightarrow> tally" where
  "tally_reset t = t\<lparr>ty_freq := (\<lambda>_. 0)\<rparr>"

datatype counter_op = CAdd string | CReset

fun counter_step :: "(string \<Rightarrow> u64) \<Rightarrow> counter_op \<Rightarrow> counter \<Rightarrow> counter option" where
  "counter_step xx (CAdd v) c = map_option snd (counter_add xx v c)"
| "counter_step xx CReset c = Some (counter_reset c)"

fun tally_step :: "nat \<Rightarrow> counter_op \<Rightarrow> tally \<Rightarrow> tally" where
  "tally_step e (CAdd v) t = tally_add e v t"
| "tally_step e CReset t = tally_reset t"

definition dominates :: "(string \<Rightarrow> u64) \<Rightarrow> counter \<Rightarrow> tally \<Rightarrow> bool" where
  "dominates xx c t \<longleftrightarrow>
     unat (cm_adds c) = ty_adds t \<and>
     (\<forall>v. \<forall>j \<in> slots c (xx v). ty_freq t v \<le> unat (cm_cells c ! j))"

lemma raise_ge: "j < length cs \<Longrightarrow> m \<noteq> max_u32 \<Longrightarrow> unat (cs ! j) \<le> unat (raise J m cs ! j)"
  by (auto simp: unat_max_plus)

lemma raise_above:
  "j < length cs \<Longrightarrow> j \<in> J \<Longrightarrow> m \<noteq> max_u32 \<Longrightarrow> m \<le> cs ! j \<Longrightarrow>
   Suc (unat m) \<le> unat (raise J m cs ! j)"
  by (auto simp: unat_max_plus word_le_nat_alt order_le_less word_unat_eq_iff)

lemma tick_adds:
  "counter_ok c \<Longrightarrow>
   unat (cm_adds (tick c)) =
     (if unat (cm_adds c) + 1 \<ge> unat (cm_epoch c) then 0 else unat (cm_adds c) + 1)"
proof -
  assume ok: "counter_ok c"
  then have lt: "unat (cm_adds c) < unat (cm_epoch c)"
    by (simp add: counter_ok_def word_less_nat_alt)
  have "unat (cm_epoch c) < 2 ^ LENGTH(64)" by (rule unsigned_less)
  with lt have "unat (cm_adds c + 1) = unat (cm_adds c) + 1"
    by (simp add: unat_word_ariths)
  then show ?thesis
    by (simp add: tick_def halve_def Let_def word_le_nat_alt)
qed

lemma tick_cells:
  "counter_ok c \<Longrightarrow> j < length (cm_cells c) \<Longrightarrow>
   unat (cm_cells (tick c) ! j) =
     (if unat (cm_adds c) + 1 \<ge> unat (cm_epoch c) then unat (cm_cells c ! j) div 2
      else unat (cm_cells c ! j))"
proof -
  assume ok: "counter_ok c" and j: "j < length (cm_cells c)"
  then have lt: "unat (cm_adds c) < unat (cm_epoch c)"
    by (simp add: counter_ok_def word_less_nat_alt)
  have "unat (cm_epoch c) < 2 ^ LENGTH(64)" by (rule unsigned_less)
  with lt have "unat (cm_adds c + 1) = unat (cm_adds c) + 1"
    by (simp add: unat_word_ariths)
  then show ?thesis
    using j by (simp add: tick_def halve_def Let_def word_le_nat_alt drop_bit_Suc unat_div)
qed

lemma dominates_tick:
  assumes ok: "counter_ok c" and dom: "dominates xx c t"
  shows "dominates xx (tick c) (tally_tick (unat (cm_epoch c)) t)"
  using dom slots_less [OF ok] unfolding dominates_def
  by (auto simp: tick_adds [OF ok] tick_cells [OF ok] tally_tick_def intro!: div_le_mono)

text \<open>One \<open>add\<close> keeps the simulation, and its result is at least the aged frequency.\<close>

lemma dominates_add:
  assumes ok: "counter_ok c" and dom: "dominates xx c t" and add: "counter_add xx v c = Some (e, c')"
  shows "dominates xx c' (tally_add (unat (cm_epoch c)) v t) \<and>
    ty_freq (tally_add (unat (cm_epoch c)) v t) v \<le> unat e"
proof -
  let ?c = "tick c" and ?t = "tally_tick (unat (cm_epoch c)) t"
  let ?m = "estimate ?c (xx v)"
  have ok1: "counter_ok ?c" using ok by simp
  have dom1: "dominates xx ?c ?t" by (rule dominates_tick [OF ok dom])
  obtain k where k: "k \<in> slots ?c (xx v)" "?m = cm_cells ?c ! k"
    using estimate_in [OF ok1] by blast
  have fm: "ty_freq ?t v \<le> unat ?m"
    using dom1 k by (simp add: dominates_def)
  have top: "unat x \<le> 2 ^ 32 - 1" for x :: u32
    using le_max_u32 [of x] by (simp add: word_le_nat_alt)
  show ?thesis
  proof (cases "?m = max_u32")
    case True
    then have eq: "e = max_u32" "c' = ?c"
      using add by (simp_all add: counter_add_def counter_add_hash_eq [OF ok] Let_def)
    have "unat (cm_cells ?c ! j) = 2 ^ 32 - 1" if "j \<in> slots ?c (xx v)" for j
    proof -
      have "max_u32 \<le> cm_cells ?c ! j" using estimate_le [OF that] True by simp
      then have "cm_cells ?c ! j = max_u32" using le_max_u32 order.antisym by blast
      then show ?thesis by simp
    qed
    then show ?thesis
      using dom1 by (auto simp: eq dominates_def tally_add_def Let_def)
  next
    case False
    then have eq: "e = ?m + 1" "c' = ?c\<lparr>cm_cells := raise (slots c (xx v)) ?m (cm_cells ?c)\<rparr>"
      using add by (simp_all add: counter_add_def counter_add_hash_eq [OF ok] Let_def)
    have cell: "ty_freq (tally_add (unat (cm_epoch c)) v t) u \<le> unat (cm_cells c' ! j)"
      if j: "j \<in> slots c (xx u)" for u j
    proof -
      have jl: "j < length (cm_cells ?c)" using slots_less [OF ok j] by simp
      show ?thesis
      proof (cases "u = v")
        case True
        have "?m \<le> cm_cells ?c ! j" using j True by (intro estimate_le) simp
        then have "Suc (unat ?m) \<le> unat (cm_cells c' ! j)"
          using raise_above [OF jl _ False] j True by (simp add: eq)
        with fm True show ?thesis by (simp add: tally_add_def Let_def)
      next
        case False
        have "ty_freq ?t u \<le> unat (cm_cells ?c ! j)"
          using dom1 j by (simp add: dominates_def)
        with raise_ge [OF jl \<open>?m \<noteq> max_u32\<close>, of "slots c (xx v)"] False show ?thesis
          by (simp add: tally_add_def Let_def eq)
      qed
    qed
    have "unat (cm_adds c') = ty_adds (tally_add (unat (cm_epoch c)) v t)"
      using dom1 by (simp add: eq dominates_def tally_add_def Let_def)
    moreover have "ty_freq (tally_add (unat (cm_epoch c)) v t) v \<le> unat e"
      using fm unat_max_plus [OF False] by (simp add: tally_add_def Let_def eq)
    ultimately show ?thesis
      using cell by (auto simp: dominates_def eq)
  qed
qed

lemma dominates_reset: "dominates xx c t \<Longrightarrow> dominates xx (counter_reset c) (tally_reset t)"
  by (simp add: dominates_def counter_reset_def tally_reset_def)

lemma dominates_init: "dominates xx (newCounter d w) tally_init"
  by (simp add: dominates_def newCounter_def tally_init_def)


section \<open>Runs of the counter\<close>

lemma counter_run_sim:
  assumes "counter_ok c" and "dominates xx c t"
  shows "\<exists>c'. loop_opt (counter_step xx) ops c = Some c' \<and> counter_ok c' \<and>
    cm_epoch c' = cm_epoch c \<and> cm_depth c' = cm_depth c \<and> cm_width c' = cm_width c \<and>
    dominates xx c' (fold (tally_step (unat (cm_epoch c))) ops t)"
  using assms
proof (induction ops arbitrary: c t)
  case Nil
  then show ?case by simp
next
  case (Cons op ops)
  obtain c1 where c1: "counter_step xx op c = Some c1" "counter_ok c1"
      "cm_epoch c1 = cm_epoch c" "cm_depth c1 = cm_depth c" "cm_width c1 = cm_width c"
      "dominates xx c1 (tally_step (unat (cm_epoch c)) op t)"
  proof (cases op)
    case (CAdd v)
    obtain e c1 where a: "counter_add xx v c = Some (e, c1)"
      using counter_add_total [OF Cons.prems(1)] by blast
    show ?thesis
      by (rule that [of c1])
        (use a CAdd counter_add_ok [OF Cons.prems(1) a] dominates_add [OF Cons.prems a] in simp_all)
  next
    case CReset
    show ?thesis
      by (rule that [of "counter_reset c"])
        (use CReset Cons.prems dominates_reset [OF Cons.prems(2)] in simp_all)
  qed
  from Cons.IH [OF c1(2) c1(6) [folded c1(3)]] c1 show ?case by auto
qed

section \<open>When the estimate is exact\<close>

text \<open>
  A cell that no other value shares holds exactly the aged frequency; then so does the
  estimate, since it is the least cell and never below the frequency.
\<close>

definition exact_at :: "(string \<Rightarrow> u64) \<Rightarrow> string \<Rightarrow> nat \<Rightarrow> counter \<Rightarrow> tally \<Rightarrow> bool" where
  "exact_at xx v j c t \<longleftrightarrow> j \<in> slots c (xx v) \<and> unat (cm_cells c ! j) = ty_freq t v"

fun touches :: "(string \<Rightarrow> u64) \<Rightarrow> counter \<Rightarrow> nat \<Rightarrow> counter_op \<Rightarrow> bool" where
  "touches xx c j (CAdd u) = (j \<in> slots c (xx u))"
| "touches xx c j CReset = False"

lemma exact_estimate:
  assumes ok: "counter_ok c" and "dominates xx c t" and ex: "exact_at xx v j c t"
  shows "unat (estimate c (xx v)) = ty_freq t v"
proof (rule antisym)
  show "unat (estimate c (xx v)) \<le> ty_freq t v"
    using ex estimate_le [of j c "xx v"] by (simp add: exact_at_def word_le_nat_alt)
  obtain k where "k \<in> slots c (xx v)" "estimate c (xx v) = cm_cells c ! k"
    using estimate_in [OF ok] by blast
  then show "ty_freq t v \<le> unat (estimate c (xx v))"
    using assms(2) by (simp add: dominates_def)
qed

lemma exact_tick:
  assumes ok: "counter_ok c" and dom: "dominates xx c t" and ex: "exact_at xx v j c t"
  shows "exact_at xx v j (tick c) (tally_tick (unat (cm_epoch c)) t)"
  using ex dom slots_less [OF ok]
  by (auto simp: exact_at_def tick_cells [OF ok] tally_tick_def dominates_def)

lemma exact_add_other:
  assumes ok: "counter_ok c" and dom: "dominates xx c t" and ex: "exact_at xx v j c t"
    and add: "counter_add xx u c = Some (e, c')" and uv: "u \<noteq> v" and iso: "j \<notin> slots c (xx u)"
  shows "exact_at xx v j c' (tally_add (unat (cm_epoch c)) u t)"
proof -
  have j: "j < length (cm_cells c)" using ex by (auto simp: exact_at_def intro: slots_less [OF ok])
  show ?thesis
    using exact_tick [OF ok dom ex] add uv iso j
    by (auto simp: exact_at_def counter_add_def counter_add_hash_eq [OF ok] Let_def tally_add_def
      split: if_splits)
qed

lemma exact_add_same:
  assumes ok: "counter_ok c" and dom: "dominates xx c t" and ex: "exact_at xx v j c t"
    and add: "counter_add xx v c = Some (e, c')"
  shows "exact_at xx v j c' (tally_add (unat (cm_epoch c)) v t) \<and>
    unat e = ty_freq (tally_add (unat (cm_epoch c)) v t) v"
proof -
  let ?c = "tick c" and ?t = "tally_tick (unat (cm_epoch c)) t"
  let ?m = "estimate ?c (xx v)"
  have ok1: "counter_ok ?c" using ok by simp
  have ex1: "exact_at xx v j ?c ?t" by (rule exact_tick [OF ok dom ex])
  have m: "unat ?m = ty_freq ?t v"
    by (rule exact_estimate [OF ok1 dominates_tick [OF ok dom] ex1])
  with ex1 have cell: "cm_cells ?c ! j = ?m" by (simp add: exact_at_def word_unat_eq_iff)
  have j: "j < length (cm_cells c)" using ex by (auto simp: exact_at_def intro: slots_less [OF ok])
  show ?thesis
  proof (cases "?m = max_u32")
    case True
    then show ?thesis
      using ex1 add m by (auto simp: exact_at_def counter_add_def counter_add_hash_eq [OF ok]
        tally_add_def Let_def)
  next
    case False
    have "unat ?m < 2 ^ 32 - 1"
      using unat_max_plus [OF False] le_max_u32 [of "?m + 1"] by (simp add: word_le_nat_alt)
    with False show ?thesis
      using ex1 add m cell j unat_max_plus [OF False]
      by (auto simp: exact_at_def counter_add_def counter_add_hash_eq [OF ok] tally_add_def Let_def)
  qed
qed

lemma counter_run_exact:
  assumes "counter_ok c" and "dominates xx c t" and "exact_at xx v j c t"
    and "\<forall>op \<in> set ops. touches xx c j op \<longrightarrow> op = CAdd v"
  shows "\<exists>c'. loop_opt (counter_step xx) ops c = Some c' \<and>
    unat (estimate c' (xx v)) = ty_freq (fold (tally_step (unat (cm_epoch c))) ops t) v"
  using assms
proof (induction ops arbitrary: c t)
  case Nil
  then show ?case by (simp add: exact_estimate)
next
  case (Cons op ops)
  let ?e = "unat (cm_epoch c)"
  obtain c1 where c1: "counter_step xx op c = Some c1" "counter_ok c1"
      "cm_epoch c1 = cm_epoch c" "\<And>h. slots c1 h = slots c h"
      "dominates xx c1 (tally_step ?e op t)" "exact_at xx v j c1 (tally_step ?e op t)"
  proof (cases op)
    case (CAdd u)
    obtain e c1 where a: "counter_add xx u c = Some (e, c1)"
      using counter_add_total [OF Cons.prems(1)] by blast
    have "exact_at xx v j c1 (tally_add ?e u t)"
    proof (cases "u = v")
      case True
      with exact_add_same [OF Cons.prems(1,2,3)] a show ?thesis by simp
    next
      case False
      with Cons.prems(4) CAdd have "j \<notin> slots c (xx u)" by auto
      with exact_add_other [OF Cons.prems(1,2,3) a False] show ?thesis by simp
    qed
    then show ?thesis
      by (intro that [of c1])
        (use a CAdd counter_add_ok [OF Cons.prems(1) a] dominates_add [OF Cons.prems(1,2) a]
           same_slots [of c1 c] in simp_all)
  next
    case CReset
    have "j < length (cm_cells c)"
      using Cons.prems(1,3) by (auto simp: exact_at_def intro: slots_less)
    with Cons.prems(3) have "exact_at xx v j (counter_reset c) (tally_reset t)"
      by (simp add: exact_at_def tally_reset_def counter_reset_cells)
    then show ?thesis
      by (intro that [of "counter_reset c"])
        (use CReset Cons.prems(1) dominates_reset [OF Cons.prems(2)] in simp_all)
  qed
  have "touches xx c1 j op' = touches xx c j op'" for op'
    by (cases op') (simp_all add: c1(4))
  with Cons.IH [OF c1(2) c1(5,6)] Cons.prems(4) show ?case
    by (simp add: c1)
qed

section \<open>Comparison with a plain Count-Min sketch\<close>

text \<open>
  The textbook sketch raises every cell of the value on every \<open>add\<close>. The comment on \<open>add\<close>
  says conservative update never over-counts more than it.
\<close>

definition sat_inc :: "u32 \<Rightarrow> u32" where
  "sat_inc x = (if x = max_u32 then x else x + 1)"

definition plain_add :: "(string \<Rightarrow> u64) \<Rightarrow> string \<Rightarrow> counter \<Rightarrow> counter" where
  "plain_add xx v c =
     (let c1 = tick c
      in c1\<lparr>cm_cells := map (\<lambda>j. if j \<in> slots c1 (xx v) then sat_inc (cm_cells c1 ! j)
                                   else cm_cells c1 ! j) [0..<length (cm_cells c1)]\<rparr>)"

fun plain_step :: "(string \<Rightarrow> u64) \<Rightarrow> counter_op \<Rightarrow> counter \<Rightarrow> counter" where
  "plain_step xx (CAdd v) c = plain_add xx v c"
| "plain_step xx CReset c = counter_reset c"

definition below :: "counter \<Rightarrow> counter \<Rightarrow> bool" where
  "below c p \<longleftrightarrow>
     cm_depth c = cm_depth p \<and> cm_width c = cm_width p \<and> cm_epoch c = cm_epoch p \<and>
     cm_adds c = cm_adds p \<and> length (cm_cells c) = length (cm_cells p) \<and>
     (\<forall>j < length (cm_cells c). cm_cells c ! j \<le> cm_cells p ! j)"

lemma below_ok: "below c p \<Longrightarrow> counter_ok p \<longleftrightarrow> counter_ok c"
  by (auto simp: below_def counter_ok_def)

lemma below_slots: "below c p \<Longrightarrow> slots p h = slots c h"
  by (rule same_slots) (simp_all add: below_def)

lemma below_estimate:
  assumes ok: "counter_ok c" and le: "below c p"
  shows "estimate c h \<le> estimate p h"
proof -
  have okp: "counter_ok p" using ok le by (simp add: below_ok)
  obtain k where k: "k \<in> slots p h" "estimate p h = cm_cells p ! k"
    using estimate_in [OF okp] by blast
  then have "k \<in> slots c h" by (simp add: below_slots [OF le])
  then have "estimate c h \<le> cm_cells c ! k" "cm_cells c ! k \<le> cm_cells p ! k"
    using estimate_le slots_less [OF ok] le by (auto simp: below_def)
  with k show ?thesis by simp
qed

lemma below_tick: "counter_ok c \<Longrightarrow> below c p \<Longrightarrow> below (tick c) (tick p)"
  using tick_cells [of c] tick_cells [of p] below_ok [of c p]
  by (auto simp: below_def word_le_nat_alt tick_def halve_def Let_def
      unat_div drop_bit_Suc intro!: div_le_mono)

lemma sat_inc_ge: "x \<le> y \<Longrightarrow> x \<le> sat_inc y"
  using le_max_u32 [of x] unat_max_plus [of y] by (auto simp: sat_inc_def word_le_nat_alt)

lemma sat_inc_step: "x \<le> y \<Longrightarrow> x \<noteq> max_u32 \<Longrightarrow> x + 1 \<le> sat_inc y"
  using le_max_u32 [of "x + 1"] unat_max_plus [of y] unat_max_plus [of x]
  by (auto simp: sat_inc_def word_le_nat_alt)

lemma below_add:
  assumes ok: "counter_ok c" and le: "below c p" and add: "counter_add xx v c = Some (e, c')"
  shows "below c' (plain_add xx v p)"
proof -
  let ?c = "tick c" and ?p = "tick p"
  let ?m = "estimate ?c (xx v)"
  have t: "below ?c ?p" by (rule below_tick [OF ok le])
  have sl: "slots p (xx v) = slots c (xx v)" by (rule below_slots [OF le])
  have le': "cm_cells ?c ! j \<le> cm_cells ?p ! j" if "j < length (cm_cells c)" for j
    using t that by (simp add: below_def)
  have len: "length (cm_cells p) = length (cm_cells c)" using le by (simp add: below_def)
  show ?thesis
  proof (cases "?m = max_u32")
    case True
    then show ?thesis
      using t le' add len by (auto simp: below_def plain_add_def Let_def counter_add_def sl
        counter_add_hash_eq [OF ok] sat_inc_ge)
  next
    case False
    have "raise (slots c (xx v)) ?m (cm_cells ?c) ! j \<le> sat_inc (cm_cells ?p ! j)"
      if j: "j < length (cm_cells c)" "j \<in> slots c (xx v)" for j
      using le' [OF j(1)] False j by (auto intro: sat_inc_ge sat_inc_step)
    moreover have "raise (slots c (xx v)) ?m (cm_cells ?c) ! j \<le> cm_cells ?p ! j"
      if j: "j < length (cm_cells c)" "j \<notin> slots c (xx v)" for j
      using le' [OF j(1)] j by simp
    ultimately show ?thesis
      using t add len False by (auto simp: below_def plain_add_def Let_def counter_add_def sl
        counter_add_hash_eq [OF ok] simp del: nth_raise)
  qed
qed

lemma below_run:
  assumes "counter_ok c" and "below c p"
  shows "\<exists>c'. loop_opt (counter_step xx) ops c = Some c' \<and> counter_ok c' \<and>
    below c' (fold (plain_step xx) ops p)"
  using assms
proof (induction ops arbitrary: c p)
  case Nil
  then show ?case by simp
next
  case (Cons op ops)
  obtain c1 where "counter_step xx op c = Some c1" "counter_ok c1" "below c1 (plain_step xx op p)"
  proof (cases op)
    case (CAdd v)
    obtain e c1 where a: "counter_add xx v c = Some (e, c1)"
      using counter_add_total [OF Cons.prems(1)] by blast
    then show ?thesis
      using that [of c1] CAdd counter_add_ok(1) [OF Cons.prems(1) a] below_add [OF Cons.prems a]
      by simp
  next
    case CReset
    have "below (counter_reset c) (counter_reset p)"
      using Cons.prems(2) by (simp add: below_def counter_reset_def)
    then show ?thesis
      using that [of "counter_reset c"] CReset Cons.prems(1) by simp
  qed
  with Cons.IH [of c1 "plain_step xx op p"] show ?case by simp
qed

section \<open>Properties\<close>

text \<open>
  C23: \<open>add\<close> errs on one side only. Run any sequence of additions and resets from a new
  counter: no operation panics, and afterwards the estimate of every value is at least its
  aged frequency, so a genuinely frequent value is never suppressed.
\<close>

theorem estimate_never_below_frequency:
  assumes "0 < d" and "0 < w" and "nat d * unat w < 2 ^ 64"
  shows "\<exists>c. loop_opt (counter_step xx) ops (newCounter d w) = Some c \<and>
    (\<forall>v. ty_freq (fold (tally_step (unat w)) ops tally_init) v \<le> unat (estimate c (xx v)))"
proof -
  have e: "cm_epoch (newCounter d w) = w" by (simp add: newCounter_def)
  obtain c where c: "loop_opt (counter_step xx) ops (newCounter d w) = Some c" "counter_ok c"
      "dominates xx c (fold (tally_step (unat w)) ops tally_init)"
    using counter_run_sim [OF newCounter_ok [OF assms] dominates_init, of xx ops] e by auto
  have "ty_freq (fold (tally_step (unat w)) ops tally_init) v \<le> unat (estimate c (xx v))" for v
    using estimate_in [OF c(2), of "xx v"] c(3) by (auto simp: dominates_def)
  with c(1) show ?thesis by blast
qed

theorem estimate_never_below_frequency_witness:
  "\<exists>c. loop_opt (counter_step (\<lambda>_. 7)) [CAdd ''/a'', CAdd ''/b'', CAdd ''/a''] (newCounter 4 4096) = Some c \<and>
    2 \<le> unat (estimate c 7)"
proof -
  have f: "ty_freq (fold (tally_step (unat (4096 :: u64))) [CAdd ''/a'', CAdd ''/b'', CAdd ''/a''] tally_init) ''/a'' = 2"
    by (simp add: tally_add_def tally_tick_def tally_init_def Let_def)
  obtain c where "loop_opt (counter_step (\<lambda>_. 7)) [CAdd ''/a'', CAdd ''/b'', CAdd ''/a''] (newCounter 4 4096) = Some c"
      "\<forall>v. ty_freq (fold (tally_step (unat (4096 :: u64))) [CAdd ''/a'', CAdd ''/b'', CAdd ''/a''] tally_init) v
        \<le> unat (estimate c 7)"
    using estimate_never_below_frequency [of 4 4096 "\<lambda>_. 7" "[CAdd ''/a'', CAdd ''/b'', CAdd ''/a'']"] by auto
  with f show ?thesis by metis
qed

text \<open>
  When some row gives a value a cell that no other added value uses, its estimate is not
  merely an upper bound but exactly its aged frequency.
\<close>

theorem isolated_value_estimate_exact:
  assumes "0 < d" and "0 < w" and "nat d * unat w < 2 ^ 64"
    and "j \<in> slots (newCounter d w) (xx v)"
    and "\<forall>u. CAdd u \<in> set ops \<longrightarrow> u = v \<or> j \<notin> slots (newCounter d w) (xx u)"
  shows "\<exists>c. loop_opt (counter_step xx) ops (newCounter d w) = Some c \<and>
    unat (estimate c (xx v)) = ty_freq (fold (tally_step (unat w)) ops tally_init) v"
proof -
  have ok: "counter_ok (newCounter d w)" by (rule newCounter_ok [OF assms(1-3)])
  have len: "j < length (cm_cells (newCounter d w))" using slots_less [OF ok assms(4)] .
  have ex: "exact_at xx v j (newCounter d w) tally_init"
    using assms(4) len by (simp add: exact_at_def tally_init_def) (simp add: newCounter_def)
  have t: "\<forall>op \<in> set ops. touches xx (newCounter d w) j op \<longrightarrow> op = CAdd v"
  proof
    fix op assume "op \<in> set ops"
    with assms(5) show "touches xx (newCounter d w) j op \<longrightarrow> op = CAdd v"
      by (cases op) auto
  qed
  have e: "cm_epoch (newCounter d w) = w" by (simp add: newCounter_def)
  show ?thesis
    using counter_run_exact [OF ok dominates_init ex t] e by simp
qed

theorem isolated_value_estimate_exact_witness:
  "\<exists>c. loop_opt (counter_step (\<lambda>s. if s = ''/a'' then 0 else 1)) [CAdd ''/a'', CAdd ''/b'', CAdd ''/b'']
      (newCounter 4 4096) = Some c \<and> unat (estimate c 1) = 2"
proof -
  let ?xx = "\<lambda>s. if s = ''/a'' then 0 else (1 :: u64)"
  let ?ops = "[CAdd ''/a'', CAdd ''/b'', CAdd ''/b'']"
  have j: "1 \<in> slots (newCounter 4 4096) (?xx ''/b'')"
    by (auto simp: slots_def rows_def newCounter_def pos_def intro!: image_eqI [where x = 0])
  have n: "1 \<notin> slots (newCounter 4 4096) (?xx ''/a'')"
    by (auto simp: slots_def rows_def newCounter_def pos_def rot32_def)
  have h: "\<forall>u. CAdd u \<in> set ?ops \<longrightarrow> u = ''/b'' \<or> 1 \<notin> slots (newCounter 4 4096) (?xx u)"
    using n by auto
  have f: "ty_freq (fold (tally_step (unat (4096 :: u64))) ?ops tally_init) ''/b'' = 2"
    by (simp add: tally_add_def tally_tick_def tally_init_def Let_def)
  show ?thesis
    using isolated_value_estimate_exact [OF _ _ _ j h] f by simp
qed

text \<open>
  Conservative update never over-counts more than a plain Count-Min sketch: after any
  sequence of operations every estimate is at most the plain sketch's.
\<close>

theorem conservative_update_at_most_plain:
  assumes "0 < d" and "0 < w" and "nat d * unat w < 2 ^ 64"
  shows "\<exists>c. loop_opt (counter_step xx) ops (newCounter d w) = Some c \<and>
    estimate c h \<le> estimate (fold (plain_step xx) ops (newCounter d w)) h"
proof -
  have ok: "counter_ok (newCounter d w)" by (rule newCounter_ok [OF assms])
  have "below (newCounter d w) (newCounter d w)" by (simp add: below_def)
  from below_run [OF ok this] show ?thesis using below_estimate by blast
qed

theorem conservative_update_at_most_plain_witness:
  "\<exists>c. loop_opt (counter_step (\<lambda>_. 7)) [CAdd ''/a'', CReset, CAdd ''/b''] (newCounter 4 4096) = Some c \<and>
    estimate c 9 \<le> estimate (fold (plain_step (\<lambda>_. 7)) [CAdd ''/a'', CReset, CAdd ''/b''] (newCounter 4 4096)) 9"
  by (rule conservative_update_at_most_plain) simp_all

text \<open>
  C24: The scanning loop, the update loop, the saturation guard and the lazy halving of \<open>add\<close>
  together are one pass: on a well-formed counter it does not panic, returns the estimate plus
  one (or the saturated maximum unchanged) and raises exactly the value's least cells.
\<close>

theorem add_is_conservative_update:
  assumes "counter_ok c"
  shows "counter_add xx v c =
    (let c1 = tick c; m = estimate c1 (xx v)
     in if m = max_u32 then Some (m, c1)
        else Some (m + 1, c1\<lparr>cm_cells := raise (slots c (xx v)) m (cm_cells c1)\<rparr>))"
  unfolding counter_add_def by (rule counter_add_hash_eq [OF assms])

theorem add_is_conservative_update_witness:
  "counter_add (\<lambda>_. 5) ''/a'' (newCounter 4 4096) =
    (let c1 = tick (newCounter 4 4096); m = estimate c1 5
     in if m = max_u32 then Some (m, c1)
        else Some (m + 1, c1\<lparr>cm_cells := raise (slots (newCounter 4 4096) 5) m (cm_cells c1)\<rparr>))"
  by (rule add_is_conservative_update) (rule newCounter_ok; simp)

end
