(* ===== verification/Aging.thy ===== *)
theory Aging
  imports Prelude
begin

text \<open>
  The contract of a store whose entries expire: three components of the program keep a map of
  time-stamped entries and a sweep that drops the entries whose age passes a limit
  (\<open>Sessions.Sweep\<close>, \<open>Guard.Decay\<close>, \<open>Limiter.Sweep\<close>), and the housekeeping loop relies on
  the same facts about each. \<open>stamps\<close> is the abstraction of the store (when each key was
  last used), \<open>late\<close> the age test of its sweep. Each component interprets the locale.
\<close>

locale aging_store =
  fixes stamps :: "'s \<Rightarrow> 'k \<Rightarrow> time option"
    and sweep :: "time \<Rightarrow> 's \<Rightarrow> 's"
    and late :: "'s \<Rightarrow> duration \<Rightarrow> bool"
    and ok :: "'s \<Rightarrow> bool"
  assumes sweep_stamps: "ok s \<Longrightarrow> stamps (sweep now s) k =
      (case stamps s k of None \<Rightarrow> None | Some t \<Rightarrow> if late s (time_sub now t) then None else Some t)"
    and sweep_ok: "ok s \<Longrightarrow> ok (sweep now s)"
    and sweep_late: "ok s \<Longrightarrow> late (sweep now s) = late s"
    and late_mono: "ok s \<Longrightarrow> late s d \<Longrightarrow> d \<le> d' \<Longrightarrow> late s d'"
begin

lemma sweep_keeps_iff:
  "ok s \<Longrightarrow> stamps (sweep now s) k = Some t \<longleftrightarrow>
     stamps s k = Some t \<and> \<not> late s (time_sub now t)"
  by (auto simp: sweep_stamps split: option.splits)

lemma sweep_only_removes: "ok s \<Longrightarrow> stamps (sweep now s) \<subseteq>\<^sub>m stamps s"
  by (auto simp: map_le_def sweep_keeps_iff dom_def)

lemma sweep_idem: "ok s \<Longrightarrow> stamps (sweep now (sweep now s)) = stamps (sweep now s)"
  by (rule ext) (simp add: sweep_stamps sweep_ok sweep_late split: option.split)

text \<open>
  Sweeping early loses nothing a later sweep would have kept, so the sweeps of a run may be
  skipped or repeated: only the last one matters.
\<close>

lemma sweep_later_absorbs:
  assumes "ok s" and "now \<le> now'"
  shows "stamps (sweep now' (sweep now s)) = stamps (sweep now' s)"
proof (rule ext)
  fix k
  show "stamps (sweep now' (sweep now s)) k = stamps (sweep now' s) k"
    using assms late_mono [OF assms(1) _ time_sub_mono [OF assms(2)]]
    by (auto simp: sweep_stamps sweep_ok sweep_late split: option.split)
qed

lemma sweeps_absorbed:
  assumes "ok s" and "\<forall>t \<in> set ts. t \<le> now"
  shows "stamps (sweep now (fold sweep ts s)) = stamps (sweep now s)"
  using assms
proof (induction ts arbitrary: s)
  case Nil
  then show ?case by simp
next
  case (Cons t ts)
  then have "stamps (sweep now (fold sweep ts (sweep t s))) = stamps (sweep now (sweep t s))"
    by (simp add: sweep_ok)
  with Cons.prems show ?case by (simp add: sweep_later_absorbs)
qed

end

end
