(* ===== verification/Guard.thy ===== *)
theory Guard
  imports Counter Aging
begin

text \<open>
  The cardinality guard of \<open>internal/aggregate/guard.go\<close>: which raw label values earn a
  series of their own. A guard holds a pointer to its counter, and the two path guards of a
  site share one; the model therefore keeps the counter beside the guard and every operation
  that touches it takes and returns the pair.

  \<^item> \<open>guard\<close>, \<open>NewGuard\<close>, \<open>NewGuardWith\<close>, \<open>Admit\<close>, \<open>Peek\<close>, \<open>Decay\<close>: the code.
    \<open>admit_locked\<close> is the critical section of \<open>Admit\<close>, which runs after the counter's own.
  \<^item> \<open>guard_ok\<close>: the invariant; \<open>guard_step\<close> the interleaved steps of concurrent callers.
  \<^item> \<open>admission\<close>: the interface the registry relies on, interpreted on the guard.
\<close>

section \<open>The code\<close>

definition OtherLabel :: string where "OtherLabel = ''__other__''"
definition AllLabel :: string where "AllLabel = ''__all__''"
definition NoneLabel :: string where "NoneLabel = ''__none__''"

record guard =
  g_cap :: int
  g_min :: u32
  g_admitted :: "(string, time) gomap"
  g_capped :: u64

definition NewGuardWith :: "int \<Rightarrow> u32 \<Rightarrow> guard" where
  "NewGuardWith capacity minCount =
     \<lparr>g_cap = (if capacity < 1 then 1 else capacity),
      g_min = (if minCount < 1 then 1 else minCount),
      g_admitted = [], g_capped = 0\<rparr>"

definition NewGuard :: "int \<Rightarrow> u32 \<Rightarrow> guard \<times> counter" where
  "NewGuard capacity minCount = (NewGuardWith capacity minCount, newCounter 4 4096)"

definition admit_locked :: "u32 \<Rightarrow> string \<Rightarrow> time \<Rightarrow> guard \<Rightarrow> string \<times> guard" where
  "admit_locked est v now g =
     (if map_of (g_admitted g) v \<noteq> None
      then (v, g\<lparr>g_admitted := AList.update v now (g_admitted g)\<rparr>)
      else if g_min g \<le> est \<and> gm_len (g_admitted g) < g_cap g
      then (v, g\<lparr>g_admitted := AList.update v now (g_admitted g)\<rparr>)
      else (OtherLabel, g\<lparr>g_capped := g_capped g + 1\<rparr>))"

definition Admit ::
  "(string \<Rightarrow> u64) \<Rightarrow> string \<Rightarrow> time \<Rightarrow> guard \<times> counter \<Rightarrow> (string \<times> guard \<times> counter) option" where
  "Admit xx v now gc =
     (if v = '''' then Some (NoneLabel, gc)
      else do {
        (est, c) \<leftarrow> counter_add xx v (snd gc);
        let (label, g) = admit_locked est v now (fst gc);
        Some (label, g, c)
      })"

definition Peek :: "guard \<Rightarrow> string \<Rightarrow> string \<times> bool" where
  "Peek g v =
     (if v = '''' then (NoneLabel, False)
      else if map_of (g_admitted g) v \<noteq> None then (v, True)
      else (OtherLabel, False))"

definition decay_locked :: "time \<Rightarrow> duration \<Rightarrow> guard \<Rightarrow> string list \<times> guard" where
  "decay_locked now after g =
     (let (gone, left) = range_delete (\<lambda>_ seen. time_sub now seen > after) (g_admitted g)
      in (map fst gone, g\<lparr>g_admitted := left\<rparr>))"

definition Decay ::
  "time \<Rightarrow> duration \<Rightarrow> guard \<times> counter \<Rightarrow> string list \<times> guard \<times> counter" where
  "Decay now after gc =
     (let (dropped, g) = decay_locked now after (fst gc)
      in (dropped, g, if dropped \<noteq> [] then counter_reset (snd gc) else snd gc))"

definition guard_Len :: "guard \<Rightarrow> int" where
  "guard_Len g = gm_len (g_admitted g)"

definition guard_Capped :: "guard \<Rightarrow> u64" where
  "guard_Capped g = g_capped g"

section \<open>The invariant\<close>

definition guard_ok :: "guard \<Rightarrow> bool" where
  "guard_ok g \<longleftrightarrow>
     1 \<le> g_cap g \<and> 1 \<le> g_min g \<and> gm_ok (g_admitted g) \<and>
     gm_len (g_admitted g) \<le> g_cap g \<and> map_of (g_admitted g) '''' = None"

definition admitted :: "guard \<Rightarrow> string set" where
  "admitted g = dom (map_of (g_admitted g))"

lemma sentinels_distinct:
  "OtherLabel \<noteq> NoneLabel" "OtherLabel \<noteq> AllLabel" "NoneLabel \<noteq> AllLabel"
  "OtherLabel \<noteq> ''''" "NoneLabel \<noteq> ''''" "AllLabel \<noteq> ''''"
  by (simp_all add: OtherLabel_def NoneLabel_def AllLabel_def)

lemma one_le_word: "1 \<le> m \<longleftrightarrow> m \<noteq> (0 :: u32)"
proof -
  have "unat m = 0 \<longleftrightarrow> m = 0" by (rule unat_eq_zero)
  then show ?thesis by (auto simp: word_le_nat_alt Suc_le_eq)
qed

lemma NewGuardWith_ok: "guard_ok (NewGuardWith cap m)"
  by (simp add: guard_ok_def NewGuardWith_def one_le_word)

lemma admit_locked_cases:
  obtains (known) "v \<in> admitted g" "admit_locked est v now g =
      (v, g\<lparr>g_admitted := AList.update v now (g_admitted g)\<rparr>)"
  | (promoted) "v \<notin> admitted g" "g_min g \<le> est" "gm_len (g_admitted g) < g_cap g"
      "admit_locked est v now g = (v, g\<lparr>g_admitted := g_admitted g @ [(v, now)]\<rparr>)"
  | (folded) "v \<notin> admitted g" "est < g_min g \<or> g_cap g \<le> gm_len (g_admitted g)"
      "admit_locked est v now g = (OtherLabel, g\<lparr>g_capped := g_capped g + 1\<rparr>)"
proof (cases "v \<in> admitted g")
  case True
  then show ?thesis
    by (intro known) (auto simp: admit_locked_def admitted_def)
next
  case False
  then have none: "map_of (g_admitted g) v = None" by (auto simp: admitted_def)
  show ?thesis
  proof (cases "g_min g \<le> est \<and> gm_len (g_admitted g) < g_cap g")
    case True
    with False none show ?thesis
      by (intro promoted) (auto simp: admit_locked_def gm_update_absent admitted_def)
  next
    case nolonger: False
    with False none show ?thesis
      by (intro folded) (auto simp: admit_locked_def not_le)
  qed
qed

lemma guard_ok_touch:
  assumes "guard_ok g" and "v \<in> admitted g"
  shows "guard_ok (g\<lparr>g_admitted := AList.update v now (g_admitted g)\<rparr>)"
    and "admitted (g\<lparr>g_admitted := AList.update v now (g_admitted g)\<rparr>) = admitted g"
proof -
  have "length (AList.update v now (g_admitted g)) = length (g_admitted g)"
    using assms(2) by (simp add: length_gm_update admitted_def)
  then show "guard_ok (g\<lparr>g_admitted := AList.update v now (g_admitted g)\<rparr>)"
    using assms by (auto simp: guard_ok_def update_conv' admitted_def)
  show "admitted (g\<lparr>g_admitted := AList.update v now (g_admitted g)\<rparr>) = admitted g"
    using assms(2) by (auto simp: admitted_def update_conv')
qed

lemma guard_ok_promote:
  assumes "guard_ok g" and "v \<notin> admitted g" and "v \<noteq> ''''" and "gm_len (g_admitted g) < g_cap g"
  shows "guard_ok (g\<lparr>g_admitted := g_admitted g @ [(v, now)]\<rparr>)"
    and "admitted (g\<lparr>g_admitted := g_admitted g @ [(v, now)]\<rparr>) = insert v (admitted g)"
proof -
  have upd: "g_admitted g @ [(v, now)] = AList.update v now (g_admitted g)"
    using assms(2) by (simp add: gm_update_absent admitted_def)
  have "gm_ok (g_admitted g @ [(v, now)])"
    using assms(1) unfolding upd by (simp add: guard_ok_def)
  then show "guard_ok (g\<lparr>g_admitted := g_admitted g @ [(v, now)]\<rparr>)"
    using assms by (simp add: guard_ok_def map_add_def)
  show "admitted (g\<lparr>g_admitted := g_admitted g @ [(v, now)]\<rparr>) = insert v (admitted g)"
    by (simp add: upd) (simp add: admitted_def update_conv')
qed

lemma guard_ok_capped [simp]:
  "guard_ok (g\<lparr>g_capped := n\<rparr>) = guard_ok g" "admitted (g\<lparr>g_capped := n\<rparr>) = admitted g"
  by (simp_all add: guard_ok_def admitted_def)

text \<open>
  The critical section keeps the invariant whatever estimate it is given, so it does not matter
  how the counter operations of concurrent callers interleave.
\<close>

lemma admit_locked_ok:
  assumes ok: "guard_ok g" and v: "v \<noteq> ''''" and eq: "admit_locked est v now g = (r, g')"
  shows "guard_ok g' \<and> g_cap g' = g_cap g \<and> g_min g' = g_min g \<and> admitted g \<subseteq> admitted g' \<and>
    (r = v \<and> v \<in> admitted g' \<or> r = OtherLabel \<and> admitted g' = admitted g)"
proof (cases rule: admit_locked_cases [of v g est now])
  case known
  with guard_ok_touch [OF ok known(1), of now] eq show ?thesis by auto
next
  case promoted
  with guard_ok_promote [OF ok promoted(1) v promoted(3), of now] eq show ?thesis by auto
next
  case folded
  with ok eq show ?thesis by auto
qed

lemma decay_locked_eq:
  assumes "guard_ok g"
  shows "decay_locked now after g =
    (map fst (filter (\<lambda>(v, seen). time_sub now seen > after) (g_admitted g)),
     g\<lparr>g_admitted := filter (\<lambda>(v, seen). \<not> time_sub now seen > after) (g_admitted g)\<rparr>)"
  using assms by (simp add: decay_locked_def range_delete_filter guard_ok_def)

lemma decay_locked_ok:
  assumes "guard_ok g" and "decay_locked now after g = (gone, g')"
  shows "guard_ok g'" and "g_cap g' = g_cap g" and "g_min g' = g_min g"
    and "admitted g' \<subseteq> admitted g" and "set gone = admitted g - admitted g'"
proof -
  have m: "gm_ok (g_admitted g)" using assms(1) by (simp add: guard_ok_def)
  have eq: "g' = g\<lparr>g_admitted := filter (\<lambda>(v, seen). \<not> time_sub now seen > after) (g_admitted g)\<rparr>"
      "gone = map fst (filter (\<lambda>(v, seen). time_sub now seen > after) (g_admitted g))"
    using assms(2) by (simp_all add: decay_locked_eq [OF assms(1)])
  show "g_cap g' = g_cap g" "g_min g' = g_min g" by (simp_all add: eq)
  have len: "gm_len (filter P (g_admitted g)) \<le> gm_len (g_admitted g)" for P
    by simp
  show "guard_ok g'"
    using assms(1) order_trans [OF len]
    by (simp add: guard_ok_def eq map_of_filter_entries [OF m, where P = "\<lambda>_ seen. \<not> time_sub now seen > after"])
  show "admitted g' \<subseteq> admitted g"
    by (auto simp: admitted_def eq dom_map_of_conv_image_fst)
  have "v \<in> set gone \<longleftrightarrow> (\<exists>seen. map_of (g_admitted g) v = Some seen \<and> time_sub now seen > after)" for v
    by (auto simp: eq gm_get_iff [OF m] intro!: image_eqI [where x = "(v, _)"])
  moreover have "v \<in> admitted g' \<longleftrightarrow>
      (\<exists>seen. map_of (g_admitted g) v = Some seen \<and> \<not> time_sub now seen > after)" for v
    by (auto simp: admitted_def eq domIff split: option.splits if_splits
      simp: map_of_filter_entries [OF m, where P = "\<lambda>_ seen. \<not> time_sub now seen > after"])
  moreover have "v \<in> admitted g \<longleftrightarrow> (\<exists>seen. map_of (g_admitted g) v = Some seen)" for v
    by (auto simp: admitted_def)
  ultimately have "v \<in> set gone \<longleftrightarrow> v \<in> admitted g - admitted g'" for v by auto

  then show "set gone = admitted g - admitted g'" by blast
qed

lemma admitted_card: "guard_ok g \<Longrightarrow> int (card (admitted g)) \<le> g_cap g"
proof -
  assume ok: "guard_ok g"
  have "card (admitted g) \<le> length (g_admitted g)"
    unfolding admitted_def dom_map_of_conv_image_fst by (metis card_length length_map set_map)
  with ok show ?thesis by (simp add: guard_ok_def)
qed

lemma finite_admitted [simp]: "finite (admitted g)"
  by (simp add: admitted_def finite_dom_map_of)

section \<open>\<open>Admit\<close> and \<open>Decay\<close> on the pair of guard and counter\<close>

definition pair_ok :: "guard \<times> counter \<Rightarrow> bool" where
  "pair_ok gc \<longleftrightarrow> guard_ok (fst gc) \<and> counter_ok (snd gc)"

lemma newCounter_4096_ok [simp]: "counter_ok (newCounter 4 4096)"
  by (rule newCounter_ok) simp_all

lemma NewGuard_ok [simp]: "pair_ok (NewGuard cap m)"
  by (simp add: pair_ok_def NewGuard_def NewGuardWith_ok)

lemma Admit_Some [consumes 1, case_names absent counted]:
  assumes "pair_ok gc"
  obtains (absent) "v = ''''" "Admit xx v now gc = Some (NoneLabel, gc)"
  | (counted) est c r g where "v \<noteq> ''''" "counter_add xx v (snd gc) = Some (est, c)"
      "admit_locked est v now (fst gc) = (r, g)" "Admit xx v now gc = Some (r, g, c)"
proof (cases "v = ''''")
  case True
  then show ?thesis by (intro absent) (simp_all add: Admit_def)
next
  case False
  obtain est c where a: "counter_add xx v (snd gc) = Some (est, c)"
    using counter_add_total [of "snd gc" xx v] assms by (auto simp: pair_ok_def)
  obtain r g where l: "admit_locked est v now (fst gc) = (r, g)"
    by (cases "admit_locked est v now (fst gc)")
  show ?thesis
    by (rule counted [OF False a l]) (use False a l in \<open>simp add: Admit_def\<close>)
qed

lemma Admit_keeps:
  assumes ok: "pair_ok gc" and eq: "Admit xx v now gc = Some (r, gc')"
  shows "pair_ok gc' \<and> g_cap (fst gc') = g_cap (fst gc) \<and> g_min (fst gc') = g_min (fst gc) \<and>
    admitted (fst gc) \<subseteq> admitted (fst gc') \<and>
    r \<in> insert OtherLabel (insert NoneLabel (admitted (fst gc'))) \<and>
    (r = v \<or> r = OtherLabel \<or> r = NoneLabel)"
  using ok
proof (cases rule: Admit_Some [of gc v xx now])
  case absent
  with eq ok show ?thesis by auto
next
  case (counted est c r' g)
  then have gc': "gc' = (g, c)" "r = r'" using eq by auto
  have "counter_ok c"
    using counter_add_ok(1) [OF _ counted(2)] ok by (simp add: pair_ok_def)
  with admit_locked_ok [OF _ counted(1,3)] ok show ?thesis
    by (auto simp: gc' pair_ok_def)
qed

lemma Decay_keeps:
  assumes ok: "pair_ok gc" and eq: "Decay now after gc = (gone, gc')"
  shows "pair_ok gc' \<and> g_cap (fst gc') = g_cap (fst gc) \<and> g_min (fst gc') = g_min (fst gc) \<and>
    admitted (fst gc') \<subseteq> admitted (fst gc) \<and>
    set gone = admitted (fst gc) - admitted (fst gc')"
proof -
  obtain d g where d: "decay_locked now after (fst gc) = (d, g)"
    by (cases "decay_locked now after (fst gc)")
  with eq have "gone = d" "gc' = (g, if d \<noteq> [] then counter_reset (snd gc) else snd gc)"
    by (auto simp: Decay_def)
  with decay_locked_ok [OF _ d] ok show ?thesis
    by (simp add: pair_ok_def)
qed

section \<open>The admission interface\<close>

text \<open>
  What the registry relies on when it labels series through a guard and deletes the series of
  the values a decay reports: a label is an admitted value or a sentinel, decay reports exactly
  the values it removed, and there are never more than \<open>limit\<close> admitted values. The client
  lemmas keep the set \<open>L\<close> of the label values that have a live series.
\<close>

datatype label_op = LAdmit string time | LDecay time duration

fun label_step ::
  "(string \<Rightarrow> time \<Rightarrow> 's \<Rightarrow> (string \<times> 's) option) \<Rightarrow>
   (time \<Rightarrow> duration \<Rightarrow> 's \<Rightarrow> string list \<times> 's) \<Rightarrow>
   label_op \<Rightarrow> 's \<times> string set \<Rightarrow> ('s \<times> string set) option" where
  "label_step admit decay (LAdmit v now) (s, L) =
     do { (r, s') \<leftarrow> admit v now s; Some (s', insert r L) }"
| "label_step admit decay (LDecay now after) (s, L) =
     (let (gone, s') = decay now after s in Some (s', L - set gone))"

locale admission =
  fixes admit :: "string \<Rightarrow> time \<Rightarrow> 's \<Rightarrow> (string \<times> 's) option"
    and decay :: "time \<Rightarrow> duration \<Rightarrow> 's \<Rightarrow> string list \<times> 's"
    and labels :: "'s \<Rightarrow> string set"
    and limit :: "'s \<Rightarrow> int"
    and ok :: "'s \<Rightarrow> bool"
  assumes admit_total: "ok s \<Longrightarrow> \<exists>r s'. admit v now s = Some (r, s')"
    and admit_ok: "ok s \<Longrightarrow> admit v now s = Some (r, s') \<Longrightarrow> ok s' \<and> limit s' = limit s"
    and admit_label: "ok s \<Longrightarrow> admit v now s = Some (r, s') \<Longrightarrow>
      labels s \<subseteq> labels s' \<and> r \<in> labels s' \<union> {OtherLabel, NoneLabel}"
    and decay_ok: "ok s \<Longrightarrow> decay now after s = (gone, s') \<Longrightarrow> ok s' \<and> limit s' = limit s"
    and decay_gone: "ok s \<Longrightarrow> decay now after s = (gone, s') \<Longrightarrow>
      labels s' \<subseteq> labels s \<and> set gone = labels s - labels s'"
    and labels_bounded: "ok s \<Longrightarrow> finite (labels s) \<and> int (card (labels s)) \<le> limit s"
begin

lemma live_admit:
  "ok s \<Longrightarrow> L \<subseteq> labels s \<union> {OtherLabel, NoneLabel} \<Longrightarrow> admit v now s = Some (r, s') \<Longrightarrow>
   insert r L \<subseteq> labels s' \<union> {OtherLabel, NoneLabel}"
  using admit_label by blast

lemma live_decay:
  "ok s \<Longrightarrow> L \<subseteq> labels s \<union> {OtherLabel, NoneLabel} \<Longrightarrow> decay now after s = (gone, s') \<Longrightarrow>
   L - set gone \<subseteq> labels s' \<union> {OtherLabel, NoneLabel}"
  using decay_gone by blast

lemma live_bound:
  assumes "ok s" and "L \<subseteq> labels s \<union> {OtherLabel, NoneLabel}"
  shows "finite L \<and> int (card L) \<le> limit s + 2"
proof -
  have fin: "finite (labels s \<union> {OtherLabel, NoneLabel})"
    using labels_bounded [OF assms(1)] by simp
  have "card L \<le> card (labels s \<union> {OtherLabel, NoneLabel})"
    using assms(2) by (rule card_mono [OF fin])
  also have "\<dots> \<le> card (labels s) + card {OtherLabel, NoneLabel}"
    by (rule card_Un_le)
  also have "card {OtherLabel, NoneLabel} \<le> 2"
    by (simp add: card_insert_if)
  finally have "int (card L) \<le> int (card (labels s)) + 2" by simp
  with labels_bounded [OF assms(1)] finite_subset [OF assms(2) fin] show ?thesis by simp
qed

lemma live_run:
  assumes "loop_opt (label_step admit decay) ops (s, L) = Some (s', L')"
    and "ok s" and "L \<subseteq> labels s \<union> {OtherLabel, NoneLabel}"
  shows "ok s' \<and> limit s' = limit s \<and> L' \<subseteq> labels s' \<union> {OtherLabel, NoneLabel}"
  using assms
proof (induction ops arbitrary: s L)
  case Nil
  then show ?case by simp
next
  case (Cons op ops)
  then obtain s1 L1 where step: "label_step admit decay op (s, L) = Some (s1, L1)"
      "loop_opt (label_step admit decay) ops (s1, L1) = Some (s', L')"
    by (auto split: bind_splits)
  have "ok s1 \<and> limit s1 = limit s \<and> L1 \<subseteq> labels s1 \<union> {OtherLabel, NoneLabel}"
  proof (cases op)
    case (LAdmit v now)
    with step(1) obtain r where r: "admit v now s = Some (r, s1)" "L1 = insert r L"
      by (auto split: bind_splits)
    with admit_ok [OF Cons.prems(2) r(1)] live_admit [OF Cons.prems(2,3) r(1)] show ?thesis by simp
  next
    case (LDecay now after)
    with step(1) obtain gone where d: "decay now after s = (gone, s1)" "L1 = L - set gone"
      by (auto split: prod.splits)
    with decay_ok [OF Cons.prems(2) d(1)] live_decay [OF Cons.prems(2,3) d(1)] show ?thesis by simp
  qed
  with Cons.IH [OF step(2)] show ?case by simp
qed

lemma live_run_total:
  assumes "ok s"
  shows "\<exists>s' L'. loop_opt (label_step admit decay) ops (s, L) = Some (s', L')"
proof -
  have "\<exists>t'. label_step admit decay op t = Some t' \<and> ok (fst t')" if "ok (fst t)" for op t
  proof (cases t)
    case (Pair s L)
    then have s: "ok s" using that by simp
    show ?thesis
    proof (cases op)
      case (LAdmit v now)
      obtain r s' where "admit v now s = Some (r, s')" using admit_total [OF s] by blast
      with admit_ok [OF s] show ?thesis by (simp add: Pair LAdmit)
    next
      case (LDecay now after)
      obtain gone s' where "decay now after s = (gone, s')" by (cases "decay now after s")
      with decay_ok [OF s] show ?thesis by (simp add: Pair LDecay)
    qed
  qed
  then have "\<exists>t'. loop_opt (label_step admit decay) ops (s, L) = Some t' \<and> ok (fst t')"
    using assms by (intro loop_opt_total [where I = "\<lambda>t. ok (fst t)"]) auto
  then show ?thesis by auto
qed

end

interpretation ga: admission "Admit xx" Decay "\<lambda>gc. admitted (fst gc)" "\<lambda>gc. g_cap (fst gc)" pair_ok
  for xx :: "string \<Rightarrow> u64"
proof unfold_locales
  fix gc :: "guard \<times> counter" and v now
  assume "pair_ok gc"
  then show "\<exists>r gc'. Admit xx v now gc = Some (r, gc')"
    by (cases rule: Admit_Some [of gc v xx now]) auto
next
  fix gc :: "guard \<times> counter"
  assume "pair_ok gc"
  then show "finite (admitted (fst gc)) \<and> int (card (admitted (fst gc))) \<le> g_cap (fst gc)"
    by (simp add: pair_ok_def admitted_card)
next
  fix gc gc' :: "guard \<times> counter" and v now r
  assume "pair_ok gc" "Admit xx v now gc = Some (r, gc')"
  from Admit_keeps [OF this]
  show "pair_ok gc' \<and> g_cap (fst gc') = g_cap (fst gc)"
    and "admitted (fst gc) \<subseteq> admitted (fst gc') \<and> r \<in> admitted (fst gc') \<union> {OtherLabel, NoneLabel}"
    by auto
next
  fix gc gc' :: "guard \<times> counter" and now after gone
  assume "pair_ok gc" "Decay now after gc = (gone, gc')"
  from Decay_keeps [OF this]
  show "pair_ok gc' \<and> g_cap (fst gc') = g_cap (fst gc)"
    and "admitted (fst gc') \<subseteq> admitted (fst gc) \<and> set gone = admitted (fst gc) - admitted (fst gc')"
    by auto
qed

interpretation gd: aging_store "\<lambda>g. map_of (g_admitted g)" "\<lambda>now g. snd (decay_locked now after g)"
    "\<lambda>_ d. d > after" guard_ok
  for after :: duration
proof unfold_locales
  fix g now k
  assume ok: "guard_ok g"
  then have m: "gm_ok (g_admitted g)" by (simp add: guard_ok_def)
  show "map_of (g_admitted (snd (decay_locked now after g))) k =
      (case map_of (g_admitted g) k of None \<Rightarrow> None
       | Some t \<Rightarrow> if after < time_sub now t then None else Some t)"
    by (simp add: decay_locked_eq [OF ok] split: option.split
      add: map_of_filter_entries [OF m, where P = "\<lambda>_ seen. \<not> time_sub now seen > after"])
  show "guard_ok (snd (decay_locked now after g))"
    using decay_locked_ok(1) [OF ok] by (metis prod.collapse)
qed simp_all

section \<open>Runs of a guard, with the frequencies beside it\<close>

datatype guard_op = GAdmit string time | GDecay time duration

fun guard_op_step ::
  "(string \<Rightarrow> u64) \<Rightarrow> guard_op \<Rightarrow> (guard \<times> counter) \<times> tally \<Rightarrow> ((guard \<times> counter) \<times> tally) option" where
  "guard_op_step xx (GAdmit v now) (gc, t) =
     do {
       (_, gc') \<leftarrow> Admit xx v now gc;
       Some (gc', if v = '''' then t else tally_add 4096 v t)
     }"
| "guard_op_step xx (GDecay now after) (gc, t) =
     (let (gone, gc') = Decay now after gc
      in Some (gc', if gone \<noteq> [] then tally_reset t else t))"

definition guard_rel :: "(string \<Rightarrow> u64) \<Rightarrow> int \<Rightarrow> u32 \<Rightarrow> (guard \<times> counter) \<times> tally \<Rightarrow> bool" where
  "guard_rel xx cap m = (\<lambda>((g, c), t).
     guard_ok g \<and> g_cap g = cap \<and> g_min g = m \<and> counter_ok c \<and> cm_epoch c = 4096 \<and>
     dominates xx c t)"

lemma guard_rel_init:
  "guard_rel xx (if cap < 1 then 1 else cap) (if m < 1 then 1 else m) (NewGuard cap m, tally_init)"
  by (simp add: guard_rel_def NewGuard_def NewGuardWith_ok dominates_init)
    (simp add: NewGuardWith_def newCounter_def)

lemma guard_rel_step:
  assumes rel: "guard_rel xx cap m s" and step: "guard_op_step xx op s = Some s'"
  shows "guard_rel xx cap m s'"
proof -
  obtain g c t where s: "s = ((g, c), t)" by (metis prod.collapse)
  from rel have ok: "pair_ok (g, c)" "cm_epoch c = 4096" "dominates xx c t" "g_cap g = cap" "g_min g = m"
      "counter_ok c"
    by (auto simp: guard_rel_def s pair_ok_def)
  show ?thesis
  proof (cases op)
    case (GAdmit v now)
    from ok(1) show ?thesis
    proof (cases rule: Admit_Some [of "(g, c)" v xx now])
      case absent
      with step rel show ?thesis by (simp add: s GAdmit)
    next
      case (counted est c' r g')
      then have s': "s' = ((g', c'), tally_add 4096 v t)"
        using step by (simp add: s GAdmit)
      have "counter_add xx v c = Some (est, c')" using counted(2) by simp
      from dominates_add [OF ok(6,3) this] counter_add_ok [OF ok(6) this]
        Admit_keeps [OF ok(1) counted(4)] ok
      show ?thesis by (simp add: guard_rel_def s' pair_ok_def)
    qed
  next
    case (GDecay now after)
    obtain gone g' c' where d: "Decay now after (g, c) = (gone, g', c')"
      by (metis prod.collapse)
    then have s': "s' = ((g', c'), if gone \<noteq> [] then tally_reset t else t)"
      using step by (simp add: s GDecay)
    have c': "c' = (if gone \<noteq> [] then counter_reset c else c)"
      using d by (auto simp: Decay_def split: prod.splits)
    with Decay_keeps [OF ok(1) d] ok dominates_reset [OF ok(3)] show ?thesis
      by (simp add: guard_rel_def s' pair_ok_def)
  qed
qed

lemma guard_rel_run:
  "loop_opt (guard_op_step xx) ops s = Some s' \<Longrightarrow> guard_rel xx cap m s \<Longrightarrow> guard_rel xx cap m s'"
  by (erule loop_opt_invariant) (auto intro: guard_rel_step)

section \<open>Interleaved callers\<close>

text \<open>
  \<open>Admit\<close> takes two locks one after the other, the counter's and the guard's, and \<open>Decay\<close>
  takes them in the other order; between the two sections other goroutines run. A caller
  between its sections is a pending entry. \<open>reorder\<close> is the map iteration order changing.
\<close>

datatype pending = PAdmit string time u32 | PReset

record guard_sys =
  gs_guard :: guard
  gs_counter :: counter
  gs_pending :: "pending list"

inductive guard_step :: "(string \<Rightarrow> u64) \<Rightarrow> guard_sys \<Rightarrow> guard_sys \<Rightarrow> bool" for xx where
  count: "v \<noteq> '''' \<Longrightarrow> counter_add xx v (gs_counter s) = Some (est, c) \<Longrightarrow>
    guard_step xx s (s\<lparr>gs_counter := c, gs_pending := PAdmit v now est # gs_pending s\<rparr>)"
| lock: "PAdmit v now est \<in> set (gs_pending s) \<Longrightarrow> admit_locked est v now (gs_guard s) = (r, g) \<Longrightarrow>
    guard_step xx s (s\<lparr>gs_guard := g, gs_pending := remove1 (PAdmit v now est) (gs_pending s)\<rparr>)"
| decay: "decay_locked now after (gs_guard s) = (gone, g) \<Longrightarrow>
    guard_step xx s (s\<lparr>gs_guard := g,
      gs_pending := (if gone \<noteq> [] then PReset # gs_pending s else gs_pending s)\<rparr>)"
| reset: "PReset \<in> set (gs_pending s) \<Longrightarrow>
    guard_step xx s (s\<lparr>gs_counter := counter_reset (gs_counter s),
      gs_pending := remove1 PReset (gs_pending s)\<rparr>)"
| reorder: "mset m = mset (g_admitted (gs_guard s)) \<Longrightarrow>
    guard_step xx s (s\<lparr>gs_guard := (gs_guard s)\<lparr>g_admitted := m\<rparr>\<rparr>)"

inductive guard_reach :: "(string \<Rightarrow> u64) \<Rightarrow> int \<Rightarrow> u32 \<Rightarrow> guard_sys \<Rightarrow> bool" for xx cap m where
  start: "guard_reach xx cap m
    \<lparr>gs_guard = NewGuardWith cap m, gs_counter = newCounter 4 4096, gs_pending = []\<rparr>"
| step: "guard_reach xx cap m s \<Longrightarrow> guard_step xx s s' \<Longrightarrow> guard_reach xx cap m s'"

inductive_simps guard_step_iff: "guard_step xx s s'"

definition guard_sys_ok :: "int \<Rightarrow> guard_sys \<Rightarrow> bool" where
  "guard_sys_ok cap s \<longleftrightarrow>
     guard_ok (gs_guard s) \<and> counter_ok (gs_counter s) \<and> g_cap (gs_guard s) = cap \<and>
     (\<forall>now est. PAdmit '''' now est \<notin> set (gs_pending s))"

lemma guard_ok_reordered:
  assumes "guard_ok g" and "mset m = mset (g_admitted g)"
  shows "guard_ok (g\<lparr>g_admitted := m\<rparr>)"
proof -
  have m: "gm_ok (g_admitted g)" using assms(1) by (simp add: guard_ok_def)
  have "length m = length (g_admitted g)" using assms(2) by (metis size_mset)
  with assms map_of_reorder [OF assms(2) m] gm_ok_reorder [OF assms(2)] show ?thesis
    by (simp add: guard_ok_def)
qed

lemma guard_step_ok: "guard_step xx s s' \<Longrightarrow> guard_sys_ok cap s \<Longrightarrow> guard_sys_ok cap s'"
proof (induction rule: guard_step.induct)
  case (count v s est c now)
  then show ?case
    using counter_add_ok(1) [OF _ count(2)] by (auto simp: guard_sys_ok_def)
next
  case (lock v now est s r g)
  then have v: "v \<noteq> ''''" by (auto simp: guard_sys_ok_def)
  then show ?case
    using lock admit_locked_ok [OF _ v lock(2)] by (auto simp: guard_sys_ok_def)
next
  case (decay now after s gone g)
  then show ?case
    using decay_locked_ok(1,2) [OF _ decay(1)] by (auto simp: guard_sys_ok_def)
next
  case (reset s)
  then show ?case by (auto simp: guard_sys_ok_def)
next
  case (reorder m s)
  then show ?case by (simp add: guard_sys_ok_def guard_ok_reordered)
qed

lemma guard_reach_ok: "guard_reach xx cap m s \<Longrightarrow> guard_sys_ok (max 1 cap) s"
proof (induction rule: guard_reach.induct)
  case start
  show ?case
    by (simp add: guard_sys_ok_def NewGuardWith_ok) (simp add: NewGuardWith_def)
next
  case (step s s')
  then show ?case by (blast intro: guard_step_ok)
qed

section \<open>Properties\<close>

text \<open>
  C19: However the critical sections of concurrent \<open>Admit\<close> and \<open>Decay\<close> calls interleave, a
  guard never holds more admitted values than its cap (at least one).
\<close>

theorem cap_holds_under_concurrency:
  assumes "guard_reach xx cap m s"
  shows "guard_Len (gs_guard s) \<le> max 1 cap \<and> int (card (admitted (gs_guard s))) \<le> max 1 cap"
  using guard_reach_ok [OF assms] admitted_card [of "gs_guard s"]
  by (simp add: guard_sys_ok_def guard_ok_def guard_Len_def)

theorem cap_holds_under_concurrency_witness:
  "\<exists>s. guard_reach (\<lambda>_. 0) 1 1 s \<and> guard_Len (gs_guard s) = 1 \<and> guard_Len (gs_guard s) \<le> max 1 1"
proof -
  let ?s0 = "\<lparr>gs_guard = NewGuardWith 1 1, gs_counter = newCounter 4 4096, gs_pending = []\<rparr>"
  obtain est c where a: "counter_add (\<lambda>_. 0) ''/a'' (newCounter 4 4096) = Some (est, c)"
    using counter_add_total [OF newCounter_4096_ok] by blast
  have dom: "dominates (\<lambda>_. 0) c (tally_add 4096 ''/a'' tally_init)
      \<and> ty_freq (tally_add 4096 ''/a'' tally_init) ''/a'' \<le> unat est"
    using dominates_add [OF newCounter_4096_ok dominates_init a] by (simp add: newCounter_def)
  then have est: "1 \<le> est"
    by (simp add: tally_add_def tally_tick_def tally_init_def Let_def word_le_nat_alt)
  let ?s1 = "?s0\<lparr>gs_counter := c, gs_pending := [PAdmit ''/a'' 0 est]\<rparr>"
  let ?g = "(NewGuardWith 1 1)\<lparr>g_admitted := [(''/a'', 0)]\<rparr>"
  let ?s2 = "?s1\<lparr>gs_guard := ?g, gs_pending := []\<rparr>"
  have 1: "guard_reach (\<lambda>_. 0) 1 1 ?s1"
    by (rule guard_reach.step [OF guard_reach.start])
      (use guard_step.count [of "''/a''" "\<lambda>_. 0" ?s0 est c 0] a in simp)
  have "admit_locked est ''/a'' 0 (NewGuardWith 1 1) = (''/a'', ?g)"
    using est by (simp add: admit_locked_def NewGuardWith_def)
  then have 2: "guard_reach (\<lambda>_. 0) 1 1 ?s2"
    using guard_step.lock [of "''/a''" 0 est ?s1 "''/a''" ?g "\<lambda>_. 0"]
    by (intro guard_reach.step [OF 1]) simp
  moreover have "guard_Len (gs_guard ?s2) = 1" by (simp add: guard_Len_def)
  ultimately show ?thesis using cap_holds_under_concurrency [OF 2] by blast
qed

text \<open>
  C20: A guard never suppresses a genuinely frequent value: after any run, while there is room
  under the cap, a value whose aged frequency (with this observation) has reached the minimum
  count is admitted under its own name.
\<close>

theorem frequent_value_admitted:
  assumes run: "loop_opt (guard_op_step xx) ops (NewGuard cap m, tally_init) = Some ((g, c), t)"
    and room: "guard_Len g < g_cap g" and v: "v \<noteq> ''''"
    and freq: "unat (g_min g) \<le> ty_freq (tally_add 4096 v t) v"
  shows "\<exists>gc'. Admit xx v now (g, c) = Some (v, gc')"
proof -
  have rel: "guard_rel xx (if cap < 1 then 1 else cap) (if m < 1 then 1 else m) ((g, c), t)"
    by (rule guard_rel_run [OF run guard_rel_init])
  then have ok: "counter_ok c" "cm_epoch c = 4096" "dominates xx c t"
    by (auto simp: guard_rel_def)
  obtain est c' where a: "counter_add xx v c = Some (est, c')"
    using counter_add_total [OF ok(1)] by blast
  have "g_min g \<le> est"
    using dominates_add [OF ok(1,3) a] freq ok(2) by (simp add: word_le_nat_alt)
  then have "fst (admit_locked est v now g) = v"
    using room by (simp add: admit_locked_def guard_Len_def)
  then obtain g' where "admit_locked est v now g = (v, g')"
    by (metis prod.collapse)
  with a v show ?thesis by (simp add: Admit_def)
qed

theorem frequent_value_admitted_witness:
  "\<exists>gc'. Admit (\<lambda>_. 0) ''/a'' 3 (NewGuard 10 1) = Some (''/a'', gc')"
proof -
  have run: "loop_opt (guard_op_step (\<lambda>_. 0)) [GDecay 2 1, GAdmit '''' 2] (NewGuard 10 1, tally_init) =
      Some ((NewGuardWith 10 1, newCounter 4 4096), tally_init)"
    by (simp add: NewGuard_def NewGuardWith_def Decay_def decay_locked_def range_delete_def Admit_def)
  show ?thesis
    using frequent_value_admitted [OF run, of "''/a''" 3]
    by (simp add: guard_Len_def NewGuardWith_def NewGuard_def tally_add_def tally_tick_def
        tally_init_def Let_def)
qed

text \<open>
  A series family labelled through a guard stays bounded whatever is observed: over any
  sequence of admissions and decays, with the series of every decayed value deleted, the label
  values that have a live series number at most the cap plus the two sentinels.
\<close>

theorem live_label_values_bounded:
  "\<exists>gc L. loop_opt (label_step (Admit xx) Decay) ops (NewGuard cap m, {}) = Some (gc, L) \<and>
     finite L \<and> int (card L) \<le> max 1 cap + 2"
proof -
  obtain gc L where run: "loop_opt (label_step (Admit xx) Decay) ops (NewGuard cap m, {}) = Some (gc, L)"
    using ga.live_run_total [OF NewGuard_ok] by blast
  from ga.live_run [OF run NewGuard_ok]
  have "pair_ok gc" "g_cap (fst gc) = g_cap (fst (NewGuard cap m))"
      "L \<subseteq> admitted (fst gc) \<union> {OtherLabel, NoneLabel}"
    by auto
  moreover have "g_cap (fst (NewGuard cap m)) = max 1 cap"
    by (simp add: NewGuard_def NewGuardWith_def)
  ultimately show ?thesis
    using run ga.live_bound [of gc L] by auto
qed

lemma counter_add_pos:
  assumes "counter_ok c" and "counter_add xx v c = Some (e, c')"
  shows "1 \<le> e"
proof -
  have "e \<noteq> 0"
    using assms unat_max_plus [of "estimate (tick c) (xx v)"]
    by (auto simp: counter_add_def counter_add_hash_eq Let_def split: if_splits)
  then show ?thesis by (simp add: one_le_word)
qed

lemma guard_len_card: "guard_ok g \<Longrightarrow> gm_len (g_admitted g) = int (card (admitted g))"
  by (metis admitted_def distinct_card dom_map_of_conv_image_fst gm_ok_def guard_ok_def
      length_map set_map)

definition within_vocabulary :: "int \<Rightarrow> string set \<Rightarrow> guard \<times> counter \<Rightarrow> bool" where
  "within_vocabulary cap V gc \<longleftrightarrow>
     pair_ok gc \<and> g_cap (fst gc) = cap \<and> g_min (fst gc) = 1 \<and> admitted (fst gc) \<subseteq> V"

lemma vocabulary_admit:
  assumes gc: "within_vocabulary cap V gc" and V: "finite V" "int (card V) \<le> cap"
    and v: "v \<in> V" "v \<noteq> ''''"
  shows "\<exists>gc'. Admit xx v now gc = Some (v, gc') \<and> within_vocabulary cap V gc'"
proof -
  from gc have ok: "pair_ok gc" by (simp add: within_vocabulary_def)
  then have okg: "guard_ok (fst gc)" "counter_ok (snd gc)" by (simp_all add: pair_ok_def)
  from ok show ?thesis
  proof (cases rule: Admit_Some [of gc v xx now])
    case (counted est c r g)
    have "r = v \<and> admitted g \<subseteq> V"
    proof (cases rule: admit_locked_cases [of v "fst gc" est now])
      case known
      with counted(3) guard_ok_touch [OF okg(1) known(1), of now] gc show ?thesis
        by (auto simp: within_vocabulary_def)
    next
      case promoted
      with counted(3) guard_ok_promote [OF okg(1) promoted(1) v(2) promoted(3), of now] gc v show ?thesis
        by (auto simp: within_vocabulary_def)
    next
      case folded
      have "admitted (fst gc) \<subset> V"
        using gc v folded(1) by (auto simp: within_vocabulary_def)
      then have "card (admitted (fst gc)) < card V"
        by (rule psubset_card_mono [OF V(1)])
      then have "gm_len (g_admitted (fst gc)) < g_cap (fst gc)"
        using V(2) gc by (simp add: guard_len_card [OF okg(1)] within_vocabulary_def)
      moreover have "g_min (fst gc) \<le> est"
        using counter_add_pos [OF okg(2) counted(2)] gc by (simp add: within_vocabulary_def)
      ultimately show ?thesis using folded(2) by auto
    qed
    with counted(4) Admit_keeps [OF ok counted(4)] gc show ?thesis
      by (simp add: within_vocabulary_def)
  qed (use v in simp)
qed

fun admits_in :: "string set \<Rightarrow> guard_op \<Rightarrow> bool" where
  "admits_in V (GAdmit v _) \<longleftrightarrow> v = '''' \<or> v \<in> V"
| "admits_in V (GDecay _ _) \<longleftrightarrow> True"

lemma vocabulary_step:
  assumes "within_vocabulary cap V gc" and "finite V" "int (card V) \<le> cap"
    and "admits_in V op" and "guard_op_step xx op (gc, t) = Some (gc', t')"
  shows "within_vocabulary cap V gc'"
proof (cases op)
  case (GAdmit v now)
  show ?thesis
  proof (cases "v = ''''")
    case True
    with assms GAdmit show ?thesis by (simp add: Admit_def)
  next
    case False
    with vocabulary_admit [OF assms(1-3) _ False, of xx now] assms(4,5) GAdmit show ?thesis by auto
  qed
next
  case (GDecay now after)
  obtain gone gc1 where d: "Decay now after gc = (gone, gc1)" by (cases "Decay now after gc")
  with assms(1,5) Decay_keeps [OF _ d] GDecay show ?thesis
    by (auto simp: within_vocabulary_def)
qed

text \<open>
  A dimension with a closed vocabulary is never folded: with a minimum count of one and a
  cap at least the size of the vocabulary, every value of the vocabulary is admitted under its
  own name in every state the guard can reach.
\<close>

theorem closed_vocabulary_never_folded:
  assumes V: "finite V" "int (card V) \<le> cap" and v: "v \<in> V" "v \<noteq> ''''"
    and run: "loop_opt (guard_op_step xx) ops (NewGuard cap 1, tally_init) = Some (gc, t)"
    and ops: "\<forall>op \<in> set ops. admits_in V op"
  shows "\<exists>gc'. Admit xx v now gc = Some (v, gc')"
proof -
  have "0 < card V" using V(1) v(1) by (auto simp: card_gt_0_iff)
  then have "1 \<le> cap" using V(2) by simp
  then have init: "within_vocabulary cap V (NewGuard cap 1)"
    by (simp add: within_vocabulary_def) (simp add: NewGuard_def NewGuardWith_def admitted_def)
  have "within_vocabulary cap V (fst (gc, t))"
    by (rule loop_opt_invariant [OF run, where I = "\<lambda>s. within_vocabulary cap V (fst s)"])
      (use init ops vocabulary_step [OF _ V] in \<open>auto split: prod.splits\<close>)
  then have "within_vocabulary cap V gc" by simp
  from vocabulary_admit [OF this V v, of xx now] show ?thesis by blast
qed

theorem closed_vocabulary_never_folded_witness:
  "\<exists>gc'. Admit (\<lambda>_. 0) ''mobile'' 7 (NewGuardWith 40 1, newCounter 4 4096) = Some (''mobile'', gc')"
  using closed_vocabulary_never_folded [of "{''desktop'', ''mobile'', ''tablet''}" 40 "''mobile''" "\<lambda>_. 0"
      "[GAdmit '''' 3]" "(NewGuardWith 40 1, newCounter 4 4096)" tally_init 7]
  by (simp add: NewGuard_def Admit_def)

text \<open>
  \<open>Peek\<close> gives the label \<open>Admit\<close> has just used for the same value, without changing
  anything: an engagement ping is attributed to the series its pageview used.
\<close>

theorem peek_agrees_with_admit:
  assumes "pair_ok gc" and "Admit xx v now gc = Some (r, g, c)"
  shows "fst (Peek g v) = r \<and> snd (Peek g v) = (v \<in> admitted g)"
  using assms(1)
proof (cases rule: Admit_Some [of gc v xx now])
  case absent
  with assms show ?thesis by (auto simp: Peek_def pair_ok_def guard_ok_def admitted_def)
next
  case (counted est c' r' g')
  with assms(2) have eq: "admit_locked est v now (fst gc) = (r, g)" by auto
  show ?thesis
    using counted(1) eq
    by (cases rule: admit_locked_cases [of v "fst gc" est now])
      (auto simp: Peek_def admitted_def update_conv')
qed

theorem peek_agrees_with_admit_witness:
  "\<exists>r g c. Admit (\<lambda>_. 0) ''/a'' 3 (NewGuard 10 1) = Some (r, g, c) \<and> fst (Peek g ''/a'') = r"
proof -
  obtain r g c where a: "Admit (\<lambda>_. 0) ''/a'' 3 (NewGuard 10 1) = Some (r, g, c)"
    using ga.admit_total [OF NewGuard_ok] by (metis prod.collapse)
  with peek_agrees_with_admit [OF NewGuard_ok a] show ?thesis by blast
qed

text \<open>
  \<open>Decay\<close> removes and reports, once each, exactly the values whose age exceeds the
  retention window, leaves the others and their stamps alone, and clears the frequency counter
  only when it removed something.
\<close>

theorem decay_drops_exactly_the_quiet:
  assumes "pair_ok (g, c)" and "Decay now after (g, c) = (gone, g', c')"
  shows "distinct gone \<and>
    set gone = {v. \<exists>seen. map_of (g_admitted g) v = Some seen \<and> time_sub now seen > after} \<and>
    map_of (g_admitted g') = (map_of (g_admitted g)) |` (- set gone) \<and>
    c' = (if gone = [] then c else counter_reset c)"
proof -
  have ok: "guard_ok g" using assms(1) by (simp add: pair_ok_def)
  then have m: "gm_ok (g_admitted g)" by (simp add: guard_ok_def)
  have d: "decay_locked now after g = (gone, g')"
    and c': "c' = (if gone = [] then c else counter_reset c)"
    using assms(2) by (auto simp: Decay_def split: prod.splits if_splits)
  have gone: "gone = map fst (filter (\<lambda>(v, seen). time_sub now seen > after) (g_admitted g))"
    using d by (simp add: decay_locked_eq [OF ok])
  have "distinct gone"
    using m by (simp add: gone gm_ok_def distinct_map_filter)
  moreover have set: "set gone = {v. \<exists>seen. map_of (g_admitted g) v = Some seen \<and> time_sub now seen > after}"
    by (auto simp: gone gm_get_iff [OF m] intro!: image_eqI [where x = "(v, _)" for v])
  moreover have "map_of (g_admitted g') k = ((map_of (g_admitted g)) |` (- set gone)) k" for k
    using gd.sweep_stamps [OF ok, of now after k] d
    by (auto simp: restrict_map_def set split: option.splits if_splits)
  ultimately show ?thesis using c' by blast
qed

theorem decay_drops_exactly_the_quiet_witness:
  "distinct [''/old''] \<and>
   Decay 100 10 ((NewGuardWith 5 1)\<lparr>g_admitted := [(''/old'', 1), (''/new'', 95)]\<rparr>, newCounter 4 4096) =
     ([''/old''], (NewGuardWith 5 1)\<lparr>g_admitted := [(''/new'', 95)]\<rparr>, counter_reset (newCounter 4 4096))"
proof -
  let ?g = "(NewGuardWith 5 1)\<lparr>g_admitted := [(''/old'', 1), (''/new'', 95)]\<rparr>"
  have ok: "pair_ok (?g, newCounter 4 4096)"
    by (simp add: pair_ok_def guard_ok_def gm_ok_def) (simp add: NewGuardWith_def)
  have d: "Decay 100 10 (?g, newCounter 4 4096) =
      ([''/old''], (NewGuardWith 5 1)\<lparr>g_admitted := [(''/new'', 95)]\<rparr>, counter_reset (newCounter 4 4096))"
    by (simp add: Decay_def decay_locked_def range_delete_def time_sub_def)
  from decay_drops_exactly_the_quiet [OF ok d] d show ?thesis by blast
qed

end
