(* ===== verification/Sessions.thy ===== *)
theory Sessions
  imports Aging
begin

text \<open>
  The session tracker of \<open>internal/sketch/session.go\<close>: one entry per visitor between the first
  pageview and the idle timeout, bounded by evicting the least recently seen.

  \<^item> \<open>session\<close>, \<open>ended\<close>, \<open>sessions\<close>, \<open>Touch\<close>, \<open>Extend\<close>, \<open>Sweep\<close>, \<open>evictOldest\<close>: the code. The
    interface \<open>Sink\<close> is the record \<open>sink\<close> of its two methods, each taking and returning
    the state behind the interface. \<open>touch_first\<close>, \<open>touch_open\<close> and \<open>evict_loop\<close> are the
    critical sections between which \<open>Touch\<close> releases the mutex.
  \<^item> \<open>session_sink\<close>: what a sink must promise for sessions to be accounted for; the client
    lemmas about \<open>Touch\<close>, \<open>Extend\<close> and \<open>Sweep\<close> are proved inside it.
  \<^item> \<open>visit_step\<close>: the specification, one visitor alone; \<open>visible\<close> is the abstraction.
  \<^item> \<open>touch_step\<close>: the interleaved steps of concurrent callers.
\<close>

section \<open>The code\<close>

record session =
  s_start :: time
  s_last :: time
  s_pages :: int
  s_entry :: string
  s_exit :: string

record ended =
  e_duration :: duration
  e_pages :: int
  e_entry :: string
  e_exit :: string
  e_bounced :: bool

record 'k sink =
  SessionStarted :: "string \<Rightarrow> string \<Rightarrow> 'k \<Rightarrow> 'k"
  SessionEnded :: "string \<Rightarrow> ended \<Rightarrow> 'k \<Rightarrow> 'k"

record sessions =
  ss_site :: string
  ss_ttl :: duration
  ss_cap :: int
  ss_map :: "(u64, session) gomap"
  ss_evicted :: u64

definition NewSessions :: "string \<Rightarrow> duration \<Rightarrow> int \<Rightarrow> sessions" where
  "NewSessions site ttl capacity =
     \<lparr>ss_site = site, ss_ttl = ttl, ss_cap = capacity, ss_map = [], ss_evicted = 0\<rparr>"

definition finish :: "session \<Rightarrow> ended" where
  "finish c = \<lparr>e_duration = time_sub (s_last c) (s_start c), e_pages = s_pages c,
     e_entry = s_entry c, e_exit = s_exit c, e_bounced = (s_pages c = 1)\<rparr>"

definition new_session :: "string \<Rightarrow> time \<Rightarrow> session" where
  "new_session path now =
     \<lparr>s_start = now, s_last = now, s_pages = 1, s_entry = path, s_exit = path\<rparr>"

definition hit_session :: "string \<Rightarrow> time \<Rightarrow> session \<Rightarrow> session" where
  "hit_session path now c = c\<lparr>s_pages := s_pages c + 1, s_last := now, s_exit := path\<rparr>"

text \<open>\<open>Touch\<close> up to its first unlock: a hit, an idle session closed, or no session.\<close>

datatype touch_outcome = Hit | Idle ended | Fresh

definition touch_first :: "u64 \<Rightarrow> string \<Rightarrow> time \<Rightarrow> sessions \<Rightarrow> touch_outcome \<times> sessions" where
  "touch_first i path now s =
     (case map_of (ss_map s) i of
        Some cur \<Rightarrow>
          if time_sub now (s_last cur) < ss_ttl s
          then (Hit, s\<lparr>ss_map := AList.update i (hit_session path now cur) (ss_map s)\<rparr>)
          else (Idle (finish cur), s\<lparr>ss_map := AList.delete i (ss_map s)\<rparr>)
      | None \<Rightarrow> (Fresh, s))"

definition touch_open :: "u64 \<Rightarrow> string \<Rightarrow> time \<Rightarrow> sessions \<Rightarrow> bool \<times> sessions" where
  "touch_open i path now s =
     (let m = AList.update i (new_session path now) (ss_map s)
      in (gm_len m > ss_cap s, s\<lparr>ss_map := m\<rparr>))"

text \<open>The inner loop of \<open>evictOldest\<close>: the first entry with the least \<open>LastSeen\<close>.\<close>

definition oldest :: "(u64, session) gomap \<Rightarrow> (u64 \<times> time) option" where
  "oldest m =
     fold (\<lambda>(i, cur) acc. case acc of
         None \<Rightarrow> Some (i, s_last cur)
       | Some (_, old) \<Rightarrow> if s_last cur < old then Some (i, s_last cur) else acc) m None"

function evict_loop :: "sessions \<Rightarrow> ended list \<times> sessions" where
  "evict_loop s =
     (if gm_len (ss_map s) > ss_cap s
      then case oldest (ss_map s) of
        None \<Rightarrow> ([], s)
      | Some (oldestID, _) \<Rightarrow>
          (case map_of (ss_map s) oldestID of
             None \<Rightarrow> ([], s)
           | Some c \<Rightarrow>
               (let (done, s') = evict_loop (s\<lparr>ss_map := AList.delete oldestID (ss_map s),
                                               ss_evicted := ss_evicted s + 1\<rparr>)
                in (finish c # done, s')))
      else ([], s))"
  by pat_completeness auto
termination
  by (relation "measure (\<lambda>s. length (ss_map s))") (auto intro: gm_delete_less)

declare evict_loop.simps [simp del]

definition report_ended :: "'k sink \<Rightarrow> string \<Rightarrow> ended list \<Rightarrow> 'k \<Rightarrow> 'k" where
  "report_ended sk site es k = fold (SessionEnded sk site) es k"

definition evictOldest :: "'k sink \<Rightarrow> sessions \<times> 'k \<Rightarrow> sessions \<times> 'k" where
  "evictOldest sk st =
     (let (es, s) = evict_loop (fst st) in (s, report_ended sk (ss_site s) es (snd st)))"

definition Touch :: "'k sink \<Rightarrow> u64 \<Rightarrow> string \<Rightarrow> time \<Rightarrow> sessions \<times> 'k \<Rightarrow> bool \<times> sessions \<times> 'k" where
  "Touch sk i path now st =
     (let (out, s1) = touch_first i path now (fst st)
      in case out of
        Hit \<Rightarrow> (False, s1, snd st)
      | _ \<Rightarrow>
          (let k1 = (case out of Idle e \<Rightarrow> SessionEnded sk (ss_site s1) e (snd st) | _ \<Rightarrow> snd st);
               (over, s2) = touch_open i path now s1;
               k2 = SessionStarted sk (ss_site s2) path k1
           in (True, if over then evictOldest sk (s2, k2) else (s2, k2))))"

definition Extend :: "u64 \<Rightarrow> time \<Rightarrow> sessions \<Rightarrow> sessions" where
  "Extend i now s =
     (case map_of (ss_map s) i of
        Some cur \<Rightarrow>
          if time_sub now (s_last cur) < ss_ttl s
          then s\<lparr>ss_map := AList.update i (cur\<lparr>s_last := now\<rparr>) (ss_map s)\<rparr>
          else s
      | None \<Rightarrow> s)"

definition sweep_locked :: "time \<Rightarrow> sessions \<Rightarrow> ended list \<times> sessions" where
  "sweep_locked now s =
     (let (gone, left) = range_delete (\<lambda>_ cur. time_sub now (s_last cur) \<ge> ss_ttl s) (ss_map s)
      in (map (\<lambda>(i, cur). finish cur) gone, s\<lparr>ss_map := left\<rparr>))"

definition Sweep :: "'k sink \<Rightarrow> time \<Rightarrow> sessions \<times> 'k \<Rightarrow> int \<times> sessions \<times> 'k" where
  "Sweep sk now st =
     (let (es, s) = sweep_locked now (fst st)
      in (int (length es), s, report_ended sk (ss_site s) es (snd st)))"

definition sessions_Len :: "sessions \<Rightarrow> int" where
  "sessions_Len s = gm_len (ss_map s)"

definition sessions_Evicted :: "sessions \<Rightarrow> u64" where
  "sessions_Evicted s = ss_evicted s"

section \<open>Eviction\<close>

abbreviation sessions_ok :: "sessions \<Rightarrow> bool" where
  "sessions_ok s \<equiv> gm_ok (ss_map s)"

lemma oldest_fold:
  "fold (\<lambda>(i, cur) acc. case acc of
         None \<Rightarrow> Some (i, s_last cur)
       | Some (_, old) \<Rightarrow> if s_last cur < old then Some (i, s_last cur) else acc) m (Some (j, t)) = Some (i', t') \<Longrightarrow>
   t' \<le> t \<and> (\<forall>(i, c) \<in> set m. t' \<le> s_last c) \<and>
   ((i', t') = (j, t) \<or> (\<exists>c. (i', c) \<in> set m \<and> s_last c = t'))"
proof (induction m arbitrary: j t)
  case Nil
  then show ?case by simp
next
  case (Cons e m)
  obtain i c where e: "e = (i, c)" by (cases e)
  show ?case
  proof (cases "s_last c < t")
    case True
    with Cons.prems Cons.IH [of i "s_last c"] show ?thesis by (auto simp: e)
  next
    case False
    with Cons.prems Cons.IH [of j t] show ?thesis by (auto simp: e)
  qed
qed

lemma oldest_fold_Some:
  "fold (\<lambda>(i, cur) acc. case acc of
         None \<Rightarrow> Some (i, s_last cur)
       | Some (_, old) \<Rightarrow> if s_last cur < old then Some (i, s_last cur) else acc) m (Some jt) =
     None \<longleftrightarrow> False"
  by (induction m arbitrary: jt) (simp_all split: prod.splits)

lemma oldest_None: "oldest m = None \<longleftrightarrow> m = []"
  by (cases m) (simp_all add: oldest_def oldest_fold_Some del: not_None_eq split: prod.splits)

lemma oldest_Some:
  assumes "oldest m = Some (i, t)"
  shows "\<exists>c. (i, c) \<in> set m \<and> s_last c = t \<and> (\<forall>(j, d) \<in> set m. t \<le> s_last d)"
proof (cases m)
  case Nil
  with assms show ?thesis by (simp add: oldest_def)
next
  case (Cons e m')
  obtain j c where e: "e = (j, c)" by (cases e)
  with assms Cons oldest_fold [of m' j "s_last c" i t] show ?thesis
    by (auto simp: oldest_def)
qed

lemma evict_loop_under: "gm_len (ss_map s) \<le> ss_cap s \<Longrightarrow> evict_loop s = ([], s)"
  by (simp add: evict_loop.simps)

lemma evict_loop_over:
  assumes "gm_len (ss_map s) > ss_cap s" and "ss_map s \<noteq> []" and "sessions_ok s"
  obtains i c where "map_of (ss_map s) i = Some c" "\<forall>(j, d) \<in> set (ss_map s). s_last c \<le> s_last d"
    "evict_loop s = (let (done, s') = evict_loop (s\<lparr>ss_map := AList.delete i (ss_map s),
        ss_evicted := ss_evicted s + 1\<rparr>) in (finish c # done, s'))"
proof -
  obtain i t where o: "oldest (ss_map s) = Some (i, t)"
    using assms(2) oldest_None by fastforce
  then obtain c where c: "(i, c) \<in> set (ss_map s)" "s_last c = t"
      "\<forall>(j, d) \<in> set (ss_map s). t \<le> s_last d"
    using oldest_Some by blast
  then have m: "map_of (ss_map s) i = Some c" using assms(3) by (simp add: gm_get_iff)
  show ?thesis
    by (rule that [OF m]) (use c o m assms(1) in \<open>simp_all add: evict_loop.simps [of s]\<close>)
qed

text \<open>
  What eviction does: it splits the map into the sessions it reports and those it keeps, no
  kept session was seen before a reported one, and at most \<open>cap\<close> are kept.
\<close>

lemma evict_loop_spec:
  assumes "sessions_ok s" and "evict_loop s = (es, s')"
  shows "\<exists>gone. mset (ss_map s) = mset gone + mset (ss_map s') \<and> es = map (finish \<circ> snd) gone \<and>
    (\<forall>(i, c) \<in> set gone. \<forall>(j, d) \<in> set (ss_map s'). s_last c \<le> s_last d) \<and>
    gm_len (ss_map s') \<le> max 0 (ss_cap s) \<and> sessions_ok s' \<and>
    s' = s\<lparr>ss_map := ss_map s', ss_evicted := ss_evicted s + word_of_nat (length gone)\<rparr>"
  using assms
proof (induction "length (ss_map s)" arbitrary: s es)
  case 0
  then show ?case by (intro exI [of _ "[]"]) (auto simp: evict_loop.simps oldest_def split: if_splits)
next
  case (Suc n)
  show ?case
  proof (cases "gm_len (ss_map s) > ss_cap s")
    case False
    with Suc.prems show ?thesis by (intro exI [of _ "[]"]) (auto simp: evict_loop_under)
  next
    case True
    have "ss_map s \<noteq> []" using Suc.hyps(2) by auto
    then obtain i c where ic: "map_of (ss_map s) i = Some c" "\<forall>(j, d) \<in> set (ss_map s). s_last c \<le> s_last d"
        "evict_loop s = (let (done, s') = evict_loop (s\<lparr>ss_map := AList.delete i (ss_map s),
          ss_evicted := ss_evicted s + 1\<rparr>) in (finish c # done, s'))"
      using evict_loop_over [OF True _ Suc.prems(1)] by metis
    let ?s = "s\<lparr>ss_map := AList.delete i (ss_map s), ss_evicted := ss_evicted s + 1\<rparr>"
    obtain es1 where es1: "evict_loop ?s = (es1, s')" "es = finish c # es1"
      using ic(3) Suc.prems(2) by (auto split: prod.splits)
    have ok: "sessions_ok ?s" using Suc.prems(1) by simp
    have "n = length (ss_map ?s)"
      using Suc.hyps(2) length_gm_delete [OF Suc.prems(1) ic(1)] by simp
    from Suc.hyps(1) [OF this ok es1(1)] obtain gone where
      gone: "mset (ss_map ?s) = mset gone + mset (ss_map s')" "es1 = map (finish \<circ> snd) gone"
        "\<forall>(i, c) \<in> set gone. \<forall>(j, d) \<in> set (ss_map s'). s_last c \<le> s_last d"
        "gm_len (ss_map s') \<le> max 0 (ss_cap s)" "sessions_ok s'"
        "s' = ?s\<lparr>ss_map := ss_map s', ss_evicted := ss_evicted ?s + word_of_nat (length gone)\<rparr>"
      by auto
    have whole: "mset (ss_map s) = mset ((i, c) # gone) + mset (ss_map s')"
      using gm_delete_mset [OF Suc.prems(1) ic(1)] gone(1) by simp
    then have "set (ss_map s') \<subseteq> set (ss_map s)"
      by (metis mset_subset_eq_add_right set_mset_mono set_mset_mset)
    with ic(2) gone(3) have "\<forall>(i, c) \<in> set ((i, c) # gone). \<forall>(j, d) \<in> set (ss_map s'). s_last c \<le> s_last d"
      by auto
    moreover have "s' = s\<lparr>ss_map := ss_map s',
        ss_evicted := ss_evicted s + word_of_nat (length ((i, c) # gone))\<rparr>"
      using gone(6) by (simp add: ac_simps)
    ultimately show ?thesis
      using whole gone es1(2) by (intro exI [of _ "(i, c) # gone"]) simp
  qed
qed

lemma evict_loop_shape:
  assumes "sessions_ok s" and "evict_loop s = (es, s')"
  shows "sessions_ok s' \<and> ss_cap s' = ss_cap s \<and> ss_site s' = ss_site s \<and> ss_ttl s' = ss_ttl s \<and>
    gm_len (ss_map s') \<le> max 0 (ss_cap s) \<and> length (ss_map s) = length es + length (ss_map s')"
proof -
  from evict_loop_spec [OF assms] obtain gone where
    gone: "mset (ss_map s) = mset gone + mset (ss_map s')" "es = map (finish \<circ> snd) gone"
      "gm_len (ss_map s') \<le> max 0 (ss_cap s)" "sessions_ok s'"
      "s' = s\<lparr>ss_map := ss_map s', ss_evicted := ss_evicted s + word_of_nat (length gone)\<rparr>"
    by auto
  have same: "ss_site s' = ss_site s" "ss_cap s' = ss_cap s" "ss_ttl s' = ss_ttl s"
    by (subst gone(5), simp)+
  have "size (mset (ss_map s)) = size (mset gone + mset (ss_map s'))"
    by (simp only: gone(1))
  then have "length (ss_map s) = length es + length (ss_map s')"
    by (simp add: gone(2))
  with gone(3,4) same show ?thesis by simp
qed

section \<open>The sink interface\<close>

text \<open>
  A sink counts: \<open>n_started\<close> and \<open>n_ended\<close> read off the state behind it how many sessions it
  was told began and ended at a site. The accounting lemmas hold for every such sink.
\<close>

locale session_sink =
  fixes sk :: "'k sink"
    and n_started :: "string \<Rightarrow> 'k \<Rightarrow> nat"
    and n_ended :: "string \<Rightarrow> 'k \<Rightarrow> nat"
  assumes started_started: "n_started x (SessionStarted sk site p k) =
      (if x = site then Suc (n_started x k) else n_started x k)"
    and started_ended: "n_ended x (SessionStarted sk site p k) = n_ended x k"
    and ended_ended: "n_ended x (SessionEnded sk site e k) =
      (if x = site then Suc (n_ended x k) else n_ended x k)"
    and ended_started: "n_started x (SessionEnded sk site e k) = n_started x k"
begin

lemma report_counts:
  "n_started x (report_ended sk site es k) = n_started x k"
  "n_ended x (report_ended sk site es k) = (if x = site then n_ended x k + length es else n_ended x k)"
  unfolding report_ended_def
  by (induction es arbitrary: k) (simp_all add: ended_started ended_ended)

text \<open>Every session the sink was told began is still live or was reported ended.\<close>

definition accounted :: "sessions \<times> 'k \<Rightarrow> bool" where
  "accounted st \<longleftrightarrow> sessions_ok (fst st) \<and>
     n_started (ss_site (fst st)) (snd st) =
       n_ended (ss_site (fst st)) (snd st) + length (ss_map (fst st))"

lemma evict_accounted:
  assumes ok: "sessions_ok s" and acc: "n_started (ss_site s) k = n_ended (ss_site s) k + length (ss_map s)"
  shows "accounted (evictOldest sk (s, k))"
    and "gm_len (ss_map (fst (evictOldest sk (s, k)))) \<le> max 0 (ss_cap s)"
    and "ss_site (fst (evictOldest sk (s, k))) = ss_site s"
    and "ss_cap (fst (evictOldest sk (s, k))) = ss_cap s"
    and "ss_ttl (fst (evictOldest sk (s, k))) = ss_ttl s"
proof -
  obtain es s' where e: "evict_loop s = (es, s')" by (cases "evict_loop s")
  note e' = evict_loop_shape [OF ok e]
  show "accounted (evictOldest sk (s, k))"
    using acc e' by (simp add: accounted_def evictOldest_def e report_counts)

  show "gm_len (ss_map (fst (evictOldest sk (s, k)))) \<le> max 0 (ss_cap s)"
    using e' by (simp add: evictOldest_def e)
  show "ss_site (fst (evictOldest sk (s, k))) = ss_site s"
    "ss_cap (fst (evictOldest sk (s, k))) = ss_cap s"
    "ss_ttl (fst (evictOldest sk (s, k))) = ss_ttl s"
    using e' by (simp_all add: evictOldest_def e)
qed

lemma touch_accounted:
  assumes acc: "accounted st" and eq: "Touch sk i path now st = (b, st')"
  shows "accounted st' \<and> ss_site (fst st') = ss_site (fst st) \<and> ss_cap (fst st') = ss_cap (fst st) \<and>
    ss_ttl (fst st') = ss_ttl (fst st) \<and>
    (b \<longrightarrow> gm_len (ss_map (fst st')) \<le> max 0 (ss_cap (fst st))) \<and>
    (\<not> b \<longrightarrow> length (ss_map (fst st')) = length (ss_map (fst st)))"
proof -
  obtain s k where st: "st = (s, k)" by (cases st)
  have ok: "sessions_ok s" and n: "n_started (ss_site s) k = n_ended (ss_site s) k + length (ss_map s)"
    using acc by (simp_all add: accounted_def st)
  show ?thesis
  proof (cases "\<exists>cur. map_of (ss_map s) i = Some cur \<and> time_sub now (s_last cur) < ss_ttl s")
    case True
    then obtain cur where cur: "map_of (ss_map s) i = Some cur" "time_sub now (s_last cur) < ss_ttl s"
      by blast
    then have "b = False" "st' = (s\<lparr>ss_map := AList.update i (hit_session path now cur) (ss_map s)\<rparr>, k)"
      using eq by (simp_all add: st Touch_def touch_first_def)
    moreover have "i \<in> dom (map_of (ss_map s))" using cur(1) by auto
    ultimately show ?thesis
      using ok n by (simp add: accounted_def st length_gm_update)
  next
    case False
    define s1 where "s1 = s\<lparr>ss_map := AList.delete i (ss_map s)\<rparr>"
    define k1 where "k1 = (case map_of (ss_map s) i of
        Some cur \<Rightarrow> SessionEnded sk (ss_site s) (finish cur) k | None \<Rightarrow> k)"
    define m where "m = AList.delete i (ss_map s) @ [(i, new_session path now)]"
    define s2 where "s2 = s\<lparr>ss_map := m\<rparr>"
    define k2 where "k2 = SessionStarted sk (ss_site s) path k1"
    have upd: "AList.update i (new_session path now) (AList.delete i (ss_map s)) = m"
      by (simp add: gm_update_absent m_def delete_conv')
    have m2: "AList.update i (new_session path now) (ss_map s) = m" if "map_of (ss_map s) i = None"
      using that by (simp add: m_def gm_update_absent gm_delete_absent domIff)
    have opened: "Touch sk i path now st =
        (True, if gm_len m > ss_cap s then evictOldest sk (s2, k2) else (s2, k2))"
      using False upd m2 by (auto simp: st Touch_def touch_first_def touch_open_def Let_def
        s2_def k2_def k1_def split: option.splits)
    have ok2: "sessions_ok s2"
      using gm_ok_update [OF gm_ok_delete [OF ok], of i "new_session path now" i]
      by (simp add: s2_def upd)
    have len: "length (ss_map s) = length (AList.delete i (ss_map s)) +
        (case map_of (ss_map s) i of Some _ \<Rightarrow> 1 | None \<Rightarrow> 0)"
      by (simp add: length_gm_delete [OF ok] gm_delete_absent domIff split: option.split)
    have n2: "n_started (ss_site s2) k2 = n_ended (ss_site s2) k2 + length (ss_map s2)"
      using n len by (auto simp: s2_def k2_def k1_def m_def started_started started_ended
        ended_started ended_ended split: option.splits)
    show ?thesis
    proof (cases "gm_len m > ss_cap s")
      case True
      with evict_accounted [OF ok2 n2] opened eq show ?thesis
        by (simp add: st) (auto simp: s2_def)
    next
      case False
      with opened eq have "b = True" "st' = (s2, k2)" by simp_all
      with False ok2 n2 show ?thesis by (simp add: accounted_def st s2_def)
    qed
  qed
qed

lemma extend_accounted:
  "accounted (s, k) \<Longrightarrow> accounted (Extend i now s, k) \<and> length (ss_map (Extend i now s)) = length (ss_map s) \<and>
     ss_site (Extend i now s) = ss_site s \<and> ss_cap (Extend i now s) = ss_cap s"
  by (auto simp: accounted_def Extend_def length_gm_update split: option.split)

lemma sweep_accounted:
  assumes acc: "accounted st" and eq: "Sweep sk now st = (n, st')"
  shows "accounted st' \<and> ss_site (fst st') = ss_site (fst st) \<and> ss_cap (fst st') = ss_cap (fst st) \<and>
    gm_len (ss_map (fst st')) + n = gm_len (ss_map (fst st))"
proof -
  obtain s k where st: "st = (s, k)" by (cases st)
  have ok: "sessions_ok s" using acc by (simp add: accounted_def st)
  obtain gone left where r: "range_delete (\<lambda>_ cur. time_sub now (s_last cur) \<ge> ss_ttl s) (ss_map s) = (gone, left)"
    by (metis prod.collapse)
  have "size (mset (ss_map s)) = size (mset gone + mset left)"
    using range_delete_mset [OF ok r] by simp
  then have len: "length (ss_map s) = length gone + length left" by simp
  have "sessions_ok (s\<lparr>ss_map := left\<rparr>)"
    using r range_delete_filter [OF ok] ok by auto
  with acc eq len show ?thesis
    by (auto simp: st Sweep_def sweep_locked_def r accounted_def report_counts)
qed

end

section \<open>One visitor alone: the specification\<close>

text \<open>
  What the tracker promises about a visitor is a function of that visitor's own pageviews and
  pings: a pageview within the timeout continues the session, one after it starts a new
  session, a ping within it moves \<open>LastSeen\<close>. \<open>fresh\<close> is the session seen at an instant: one
  idle past the timeout is not there, whether or not a sweep has removed it.
\<close>

datatype session_op = Page u64 string time | Ping u64 time | SweepAt time

fun op_time :: "session_op \<Rightarrow> time" where
  "op_time (Page _ _ now) = now"
| "op_time (Ping _ now) = now"
| "op_time (SweepAt now) = now"

fun op_visitor :: "session_op \<Rightarrow> u64 set" where
  "op_visitor (Page i _ _) = {i}"
| "op_visitor (Ping i _) = {}"
| "op_visitor (SweepAt _) = {}"

fun session_op_step :: "'k sink \<Rightarrow> session_op \<Rightarrow> sessions \<times> 'k \<Rightarrow> sessions \<times> 'k" where
  "session_op_step sk (Page i p now) st = snd (Touch sk i p now st)"
| "session_op_step sk (Ping i now) st = (Extend i now (fst st), snd st)"
| "session_op_step sk (SweepAt now) st = snd (Sweep sk now st)"

definition fresh :: "duration \<Rightarrow> time \<Rightarrow> session option \<Rightarrow> session option" where
  "fresh ttl now c =
     (case c of Some c \<Rightarrow> if time_sub now (s_last c) < ttl then Some c else None | None \<Rightarrow> None)"

fun visit_step :: "duration \<Rightarrow> u64 \<Rightarrow> session_op \<Rightarrow> session option \<Rightarrow> session option" where
  "visit_step ttl i (Page j p now) c =
     (if j \<noteq> i then c
      else case fresh ttl now c of
        Some c \<Rightarrow> Some (hit_session p now c) | None \<Rightarrow> Some (new_session p now))"
| "visit_step ttl i (Ping j now) c =
     (if j \<noteq> i then c
      else case fresh ttl now c of Some c \<Rightarrow> Some (c\<lparr>s_last := now\<rparr>) | None \<Rightarrow> c)"
| "visit_step ttl i (SweepAt now) c = c"

text \<open>Two sessions no observer can tell apart from \<open>now\<close> on.\<close>

definition same_from :: "duration \<Rightarrow> time \<Rightarrow> session option \<Rightarrow> session option \<Rightarrow> bool" where
  "same_from ttl now a b \<longleftrightarrow> (\<forall>t \<ge> now. fresh ttl t a = fresh ttl t b)"

lemma same_from_refl [simp]: "same_from ttl now a a"
  by (simp add: same_from_def)

lemma same_from_later: "same_from ttl now a b \<Longrightarrow> now \<le> now' \<Longrightarrow> same_from ttl now' a b"
  by (auto simp: same_from_def)

lemma same_from_now: "same_from ttl now a b \<Longrightarrow> fresh ttl now a = fresh ttl now b"
  by (simp add: same_from_def)

lemma fresh_Some: "fresh ttl now c = Some d \<longleftrightarrow> c = Some d \<and> time_sub now (s_last d) < ttl"
  by (auto simp: fresh_def split: option.splits)

lemma fresh_fresh: "now \<le> t \<Longrightarrow> fresh ttl t (fresh ttl now c) = fresh ttl t c"
  using time_sub_mono [of now t] by (auto simp: fresh_def split: option.split) (meson le_less_trans)

definition tracked :: "u64 set \<Rightarrow> sessions \<Rightarrow> bool" where
  "tracked ids s \<longleftrightarrow> sessions_ok s \<and> fst ` set (ss_map s) \<subseteq> ids"

lemma tracked_len:
  assumes "tracked ids s" and "finite ids"
  shows "gm_len (ss_map s) \<le> int (card ids)"
proof -
  have "length (ss_map s) = card (fst ` set (ss_map s))"
    using assms(1) by (metis distinct_card gm_ok_def length_map list.set_map tracked_def)
  also have "\<dots> \<le> card ids"
    using assms by (intro card_mono) (auto simp: tracked_def)
  finally show ?thesis by simp
qed

lemma touch_entry:
  assumes tr: "tracked ids s" and ids: "finite ids" "int (card ids) \<le> ss_cap s" "i \<in> ids"
    and eq: "Touch sk i p now (s, k) = (b, s', k')"
  shows "tracked ids s' \<and> ss_cap s' = ss_cap s \<and> ss_ttl s' = ss_ttl s \<and> ss_evicted s' = ss_evicted s \<and>
    map_of (ss_map s') j =
      (if j = i then visit_step (ss_ttl s) i (Page i p now) (map_of (ss_map s) i) else map_of (ss_map s) j) \<and>
    (b \<longleftrightarrow> fresh (ss_ttl s) now (map_of (ss_map s) i) = None)"
proof -
  have ok: "sessions_ok s" and sub: "fst ` set (ss_map s) \<subseteq> ids"
    using tr by (simp_all add: tracked_def)
  have upd: "tracked ids (s\<lparr>ss_map := AList.update i c m\<rparr>)"
    if "gm_ok m" "fst ` set m \<subseteq> ids" for m and c :: session
    using that ids(3) by (auto simp: tracked_def dom_update)
  have del: "fst ` set (AList.delete i (ss_map s)) \<subseteq> ids"
    using sub by (auto simp: gm_delete_filter)
  have under: "gm_len (AList.update i c m) \<le> ss_cap s"
    if "gm_ok m" "fst ` set m \<subseteq> ids" for m and c :: session
    using tracked_len [OF upd [OF that, of c] ids(1)] ids(2) by simp
  show ?thesis
  proof (cases "map_of (ss_map s) i")
    case None
    then have "b = True" "s' = s\<lparr>ss_map := AList.update i (new_session p now) (ss_map s)\<rparr>"
      using eq under [OF ok sub, of "new_session p now"]
      by (simp_all add: Touch_def touch_first_def touch_open_def Let_def not_less [symmetric])
    with upd [OF ok sub] None show ?thesis
      by (simp add: update_conv' fresh_def)
  next
    case (Some cur)
    show ?thesis
    proof (cases "time_sub now (s_last cur) < ss_ttl s")
      case True
      then have "b = False" "s' = s\<lparr>ss_map := AList.update i (hit_session p now cur) (ss_map s)\<rparr>"
        using eq Some by (simp_all add: Touch_def touch_first_def)
      with upd [OF ok sub] Some True show ?thesis
        by (simp add: update_conv' fresh_def)
    next
      case False
      then have "b = True"
          "s' = s\<lparr>ss_map := AList.update i (new_session p now) (AList.delete i (ss_map s))\<rparr>"
        using eq Some under [OF gm_ok_delete [OF ok] del, of "new_session p now"]
        by (simp_all add: Touch_def touch_first_def touch_open_def Let_def not_less [symmetric])
      with upd [OF gm_ok_delete [OF ok] del] Some False show ?thesis
        by (simp add: update_conv' delete_conv' fresh_def)
    qed
  qed
qed

lemma extend_entry:
  assumes "tracked ids s"
  shows "tracked ids (Extend i now s) \<and> ss_cap (Extend i now s) = ss_cap s \<and>
    ss_ttl (Extend i now s) = ss_ttl s \<and> ss_evicted (Extend i now s) = ss_evicted s \<and>
    map_of (ss_map (Extend i now s)) j =
      (if j = i then visit_step (ss_ttl s) i (Ping i now) (map_of (ss_map s) i) else map_of (ss_map s) j)"
  using assms
  by (auto simp: Extend_def tracked_def fresh_def update_conv' dom_update split: option.split)
    (metis dom_map_of_conv_image_fst domI subsetD)

lemma sweep_entry:
  assumes ok: "sessions_ok s"
  shows "map_of (ss_map (snd (sweep_locked now s))) j = fresh (ss_ttl s) now (map_of (ss_map s) j)"
    and "sessions_ok (snd (sweep_locked now s))"
    and "ss_ttl (snd (sweep_locked now s)) = ss_ttl s" and "ss_cap (snd (sweep_locked now s)) = ss_cap s"
    and "ss_evicted (snd (sweep_locked now s)) = ss_evicted s"
    and "set (ss_map (snd (sweep_locked now s))) \<subseteq> set (ss_map s)"
proof -
  have eq: "snd (sweep_locked now s) =
      s\<lparr>ss_map := filter (\<lambda>(i, cur). \<not> time_sub now (s_last cur) \<ge> ss_ttl s) (ss_map s)\<rparr>"
    by (simp add: sweep_locked_def range_delete_filter [OF ok])
  show "map_of (ss_map (snd (sweep_locked now s))) j = fresh (ss_ttl s) now (map_of (ss_map s) j)"
    by (simp add: eq fresh_def not_le split: option.split
      add: map_of_filter_entries [OF ok, where P = "\<lambda>_ cur. time_sub now (s_last cur) < ss_ttl s"])
  show "sessions_ok (snd (sweep_locked now s))" using ok by (simp add: eq)
qed (auto simp: sweep_locked_def range_delete_filter [OF ok])

interpretation sd: aging_store "\<lambda>s i. map_option s_last (map_of (ss_map s) i)"
    "\<lambda>now s. snd (sweep_locked now s)" "\<lambda>s d. d \<ge> ss_ttl s" sessions_ok
proof unfold_locales
  fix s :: sessions and now k
  assume ok: "sessions_ok s"
  show "map_option s_last (map_of (ss_map (snd (sweep_locked now s))) k) =
      (case map_option s_last (map_of (ss_map s) k) of None \<Rightarrow> None
       | Some t \<Rightarrow> if ss_ttl s \<le> time_sub now t then None else Some t)"
    by (simp add: sweep_entry [OF ok] fresh_def not_le [symmetric] split: option.split)
qed (auto simp: sweep_entry)

definition follows :: "u64 set \<Rightarrow> duration \<Rightarrow> u64 \<Rightarrow> time \<Rightarrow> sessions \<times> 'k \<Rightarrow> session option \<Rightarrow> bool" where
  "follows ids ttl i now st c \<longleftrightarrow>
     tracked ids (fst st) \<and> ss_ttl (fst st) = ttl \<and> int (card ids) \<le> ss_cap (fst st) \<and>
     same_from ttl now (map_of (ss_map (fst st)) i) c"

lemma follows_step:
  assumes f: "follows ids ttl i t st c" and ids: "finite ids" "op_visitor op \<subseteq> ids"
    and later: "t \<le> op_time op"
  shows "follows ids ttl i (op_time op) (session_op_step sk op st) (visit_step ttl i op c)"
proof -
  obtain s k where st: "st = (s, k)" by (cases st)
  have tr: "tracked ids s" and ttl: "ss_ttl s = ttl" and cap: "int (card ids) \<le> ss_cap s"
    using f by (simp_all add: follows_def st)
  have same: "same_from ttl (op_time op) (map_of (ss_map s) i) c"
    using f later by (auto simp: follows_def st intro: same_from_later)
  show ?thesis
  proof (cases op)
    case (Page j p now)
    obtain b s' k' where eq: "Touch sk j p now (s, k) = (b, s', k')" by (metis prod.collapse)
    have "j \<in> ids" using ids(2) Page by simp
    note e = touch_entry [OF tr ids(1) cap this eq, of i]
    have "same_from ttl now (map_of (ss_map s') i) (visit_step ttl i op c)"
      using e same same_from_now [OF same] by (auto simp: Page ttl)
    with e cap show ?thesis by (simp add: follows_def st Page eq ttl)
  next
    case (Ping j now)
    note e = extend_entry [OF tr, of j now i]
    have "same_from ttl now (map_of (ss_map (Extend j now s)) i) (visit_step ttl i op c)"
      using e same same_from_now [OF same] by (auto simp: Ping ttl split: option.split)
    with e cap show ?thesis by (simp add: follows_def st Ping ttl)
  next
    case (SweepAt now)
    have ok: "sessions_ok s" using tr by (simp add: tracked_def)
    note e = sweep_entry [OF ok, of now]
    have "same_from ttl now (fresh ttl now (map_of (ss_map s) i)) (map_of (ss_map s) i)"
      by (simp add: same_from_def fresh_fresh)
    with same have "same_from ttl now (map_of (ss_map (snd (sweep_locked now s))) i) c"
      by (simp add: e ttl SweepAt same_from_def)
    moreover have "tracked ids (snd (sweep_locked now s))"
      using e tr by (auto simp: tracked_def)
    moreover have "fst (session_op_step sk op st) = snd (sweep_locked now s)"
      by (simp add: SweepAt st Sweep_def split: prod.split)
    ultimately show ?thesis
      using e cap by (simp add: follows_def SweepAt ttl)
  qed
qed

lemma follows_run:
  assumes "follows ids ttl i t st c" and "finite ids" and "\<forall>op \<in> set ops. op_visitor op \<subseteq> ids"
    and "sorted (t # map op_time ops)"
  shows "follows ids ttl i (last (t # map op_time ops)) (fold (session_op_step sk) ops st)
    (fold (visit_step ttl i) ops c)"
  using assms
proof (induction ops arbitrary: t st c)
  case Nil
  then show ?case by simp
next
  case (Cons op ops)
  have "follows ids ttl i (op_time op) (session_op_step sk op st) (visit_step ttl i op c)"
    using Cons.prems by (intro follows_step) auto
  from Cons.IH [OF this] Cons.prems show ?case by simp
qed

section \<open>Interleaved callers\<close>

text \<open>
  \<open>Touch\<close> releases the mutex after closing an idle session, before the calls on the sink and
  before eviction; several workers call it. A caller between two critical sections is a
  thread; \<open>touch_step\<close> lets any caller or thread move.
\<close>

datatype thread =
    TReport u64 string time ended
  | TOpen u64 string time
  | TStarted string bool
  | TEvict
  | TEnded ended

record 'k tsys =
  ts_sessions :: sessions
  ts_sink :: 'k
  ts_threads :: "thread list"

inductive touch_step :: "'k sink \<Rightarrow> 'k tsys \<Rightarrow> 'k tsys \<Rightarrow> bool" for sk where
  hit: "touch_first i p now (ts_sessions x) = (Hit, s) \<Longrightarrow>
    touch_step sk x (x\<lparr>ts_sessions := s\<rparr>)"
| fresh_open: "touch_first i p now (ts_sessions x) = (Fresh, s1) \<Longrightarrow>
    touch_open i p now s1 = (over, s2) \<Longrightarrow>
    touch_step sk x (x\<lparr>ts_sessions := s2, ts_threads := TStarted p over # ts_threads x\<rparr>)"
| idle: "touch_first i p now (ts_sessions x) = (Idle e, s) \<Longrightarrow>
    touch_step sk x (x\<lparr>ts_sessions := s, ts_threads := TReport i p now e # ts_threads x\<rparr>)"
| report: "TReport i p now e \<in> set (ts_threads x) \<Longrightarrow>
    touch_step sk x (x\<lparr>ts_sink := SessionEnded sk (ss_site (ts_sessions x)) e (ts_sink x),
      ts_threads := TOpen i p now # remove1 (TReport i p now e) (ts_threads x)\<rparr>)"
| reopen: "TOpen i p now \<in> set (ts_threads x) \<Longrightarrow> touch_open i p now (ts_sessions x) = (over, s) \<Longrightarrow>
    touch_step sk x (x\<lparr>ts_sessions := s,
      ts_threads := TStarted p over # remove1 (TOpen i p now) (ts_threads x)\<rparr>)"
| started: "TStarted p over \<in> set (ts_threads x) \<Longrightarrow>
    touch_step sk x (x\<lparr>ts_sink := SessionStarted sk (ss_site (ts_sessions x)) p (ts_sink x),
      ts_threads := (if over then [TEvict] else []) @ remove1 (TStarted p over) (ts_threads x)\<rparr>)"
| evict: "TEvict \<in> set (ts_threads x) \<Longrightarrow> evict_loop (ts_sessions x) = (es, s) \<Longrightarrow>
    touch_step sk x (x\<lparr>ts_sessions := s,
      ts_threads := map TEnded es @ remove1 TEvict (ts_threads x)\<rparr>)"
| end_reported: "TEnded e \<in> set (ts_threads x) \<Longrightarrow>
    touch_step sk x (x\<lparr>ts_sink := SessionEnded sk (ss_site (ts_sessions x)) e (ts_sink x),
      ts_threads := remove1 (TEnded e) (ts_threads x)\<rparr>)"
| extend: "touch_step sk x (x\<lparr>ts_sessions := Extend i now (ts_sessions x)\<rparr>)"
| sweep: "sweep_locked now (ts_sessions x) = (es, s) \<Longrightarrow>
    touch_step sk x (x\<lparr>ts_sessions := s, ts_threads := map TEnded es @ ts_threads x\<rparr>)"
| reorder: "mset m = mset (ss_map (ts_sessions x)) \<Longrightarrow>
    touch_step sk x (x\<lparr>ts_sessions := (ts_sessions x)\<lparr>ss_map := m\<rparr>\<rparr>)"

inductive_cases touch_stepE: "touch_step sk x y"

abbreviation touch_steps :: "'k sink \<Rightarrow> 'k tsys \<Rightarrow> 'k tsys \<Rightarrow> bool" where
  "touch_steps sk \<equiv> (touch_step sk)\<^sup>*\<^sup>*"

definition idle_tsys :: "sessions \<Rightarrow> 'k \<Rightarrow> 'k tsys" where
  "idle_tsys s k = \<lparr>ts_sessions = s, ts_sink = k, ts_threads = []\<rparr>"

fun evicting :: "thread \<Rightarrow> bool" where
  "evicting (TStarted _ over) = over"
| "evicting TEvict = True"
| "evicting _ = False"

text \<open>The map is over its cap only while some caller is on its way to evict.\<close>

definition cap_pending :: "int \<Rightarrow> 'k tsys \<Rightarrow> bool" where
  "cap_pending cap x \<longleftrightarrow>
     sessions_ok (ts_sessions x) \<and> ss_cap (ts_sessions x) = cap \<and>
     (gm_len (ss_map (ts_sessions x)) \<le> cap \<or> (\<exists>t \<in> set (ts_threads x). evicting t))"

lemma touch_first_shape:
  "touch_first i p now s = (out, s') \<Longrightarrow> sessions_ok s \<Longrightarrow>
   sessions_ok s' \<and> ss_cap s' = ss_cap s \<and> ss_site s' = ss_site s \<and> length (ss_map s') \<le> length (ss_map s) \<and>
   (out = Hit \<longrightarrow> length (ss_map s') = length (ss_map s)) \<and> (out = Fresh \<longrightarrow> s' = s) \<and>
   (\<forall>e. out = Idle e \<longrightarrow> length (ss_map s) = Suc (length (ss_map s')))"
  by (auto simp: touch_first_def length_gm_update length_gm_delete [symmetric] length_delete_le
      split: option.splits if_splits)

lemma touch_open_shape:
  "touch_open i p now s = (over, s') \<Longrightarrow> sessions_ok s \<Longrightarrow>
   sessions_ok s' \<and> ss_cap s' = ss_cap s \<and> ss_site s' = ss_site s \<and>
   over = (gm_len (ss_map s') > ss_cap s) \<and> length (ss_map s') \<le> Suc (length (ss_map s))"
  by (auto simp: touch_open_def Let_def length_gm_update)


lemma evicting_remove1:
  "\<exists>t \<in> set xs. evicting t \<Longrightarrow> \<not> evicting u \<Longrightarrow> \<exists>t \<in> set (remove1 u xs). evicting t"
  by (metis in_set_remove1)

lemma cap_pending_step:
  assumes "touch_step sk x y" and "cap_pending cap x" and "0 \<le> cap"
  shows "cap_pending cap y"
  using assms
proof (induction rule: touch_step.induct)
  case (hit i p now x s)
  then show ?case using touch_first_shape [OF hit(1)] by (auto simp: cap_pending_def)
next
  case (fresh_open i p now x s1 over s2)
  then show ?case
    using touch_first_shape [OF fresh_open(1)] touch_open_shape [OF fresh_open(2)]
    by (auto simp: cap_pending_def)
next
  case (idle i p now x e s)
  then show ?case using touch_first_shape [OF idle(1)] by (auto simp: cap_pending_def)
next
  case (report i p now e x)
  then show ?case
    using evicting_remove1 [of "ts_threads x" "TReport i p now e"] by (auto simp: cap_pending_def)
next
  case (reopen i p now x over s)
  then show ?case using touch_open_shape [OF reopen(2)] by (auto simp: cap_pending_def)
next
  case (started p over x)
  show ?case
  proof (cases over)
    case True
    with started show ?thesis by (simp add: cap_pending_def)
  next
    case False
    with started evicting_remove1 [of "ts_threads x" "TStarted p over"] show ?thesis
      by (auto simp: cap_pending_def)
  qed
next
  case (evict x es s)
  then have "sessions_ok (ts_sessions x)" by (simp add: cap_pending_def)
  from evict_loop_shape [OF this evict(2)] evict(3,4) show ?case
    by (simp add: cap_pending_def max_def)
next
  case (end_reported e x)
  then show ?case
    using evicting_remove1 [of "ts_threads x" "TEnded e"] by (auto simp: cap_pending_def)
next
  case (extend x i now)
  then show ?case
    by (auto simp: cap_pending_def Extend_def length_gm_update split: option.split)
next
  case (sweep now x es s)
  then have ok: "sessions_ok (ts_sessions x)" by (simp add: cap_pending_def)
  have "length (ss_map s) \<le> length (ss_map (ts_sessions x))" "sessions_ok s" "ss_cap s = ss_cap (ts_sessions x)"
    using sweep(1) ok by (auto simp: sweep_locked_def range_delete_filter [OF ok])
  with sweep show ?case by (auto simp: cap_pending_def)
next
  case (reorder m x)
  then show ?case
    using gm_ok_reorder [of m "ss_map (ts_sessions x)"] size_mset [of m] size_mset [of "ss_map (ts_sessions x)"]
    by (auto simp: cap_pending_def)
qed

lemma cap_pending_steps:
  "touch_steps sk x y \<Longrightarrow> cap_pending cap x \<Longrightarrow> 0 \<le> cap \<Longrightarrow> cap_pending cap y"
  by (induction rule: rtranclp_induct) (blast intro: cap_pending_step)+

lemma idle_tsys_pending: "cap_pending (ss_cap s) (idle_tsys s k) \<longleftrightarrow> sessions_ok s \<and> gm_len (ss_map s) \<le> ss_cap s"
  by (auto simp: cap_pending_def idle_tsys_def)

context session_sink
begin

fun due_starts :: "thread \<Rightarrow> nat" where
  "due_starts (TStarted _ _) = 1"
| "due_starts _ = 0"

fun due_ends :: "thread \<Rightarrow> nat" where
  "due_ends (TReport _ _ _ _) = 1"
| "due_ends (TEnded _) = 1"
| "due_ends _ = 0"

abbreviation due :: "(thread \<Rightarrow> nat) \<Rightarrow> thread list \<Rightarrow> nat" where
  "due f ts \<equiv> sum_list (map f ts)"

text \<open>Ends reported or about to be, and live sessions, never exceed the starts.\<close>

definition backed :: "string \<Rightarrow> 'k tsys \<Rightarrow> bool" where
  "backed site x \<longleftrightarrow> sessions_ok (ts_sessions x) \<and> ss_site (ts_sessions x) = site \<and>
     n_ended site (ts_sink x) + due due_ends (ts_threads x) + length (ss_map (ts_sessions x))
       \<le> n_started site (ts_sink x) + due due_starts (ts_threads x)"

lemma due_remove1: "t \<in> set ts \<Longrightarrow> due f ts = f t + due f (remove1 t ts)"
  by (rule sum_list_map_remove1)

lemma due_ended [simp]: "sum_list (map (due_ends \<circ> TEnded) es) = length es"
    "sum_list (map (due_starts \<circ> TEnded) es) = 0"
  by (induction es) simp_all

lemma backed_step: "touch_step sk x y \<Longrightarrow> backed site x \<Longrightarrow> backed site y"
proof (induction rule: touch_step.induct)
  case (hit i p now x s)
  then show ?case using touch_first_shape [OF hit(1)] by (simp add: backed_def)
next
  case (fresh_open i p now x s1 over s2)
  then show ?case
    using touch_first_shape [OF fresh_open(1)] touch_open_shape [OF fresh_open(2)]
    by (simp add: backed_def)
next
  case (idle i p now x e s)
  then show ?case using touch_first_shape [OF idle(1)] by (simp add: backed_def)
next
  case (report i p now e x)
  then show ?case
    using due_remove1 [OF report(1), of due_ends] due_remove1 [OF report(1), of due_starts]
    by (simp add: backed_def ended_ended ended_started)
next
  case (reopen i p now x over s)
  then show ?case
    using touch_open_shape [OF reopen(2)] due_remove1 [OF reopen(1), of due_ends]
      due_remove1 [OF reopen(1), of due_starts]
    by (simp add: backed_def)
next
  case (started p over x)
  then show ?case
    using due_remove1 [OF started(1), of due_ends] due_remove1 [OF started(1), of due_starts]
    by (cases over) (simp_all add: backed_def started_started started_ended)
next
  case (evict x es s)
  then show ?case
    using evict_loop_shape [OF _ evict(2)] due_remove1 [OF evict(1), of due_ends]
      due_remove1 [OF evict(1), of due_starts]
    by (simp add: backed_def)
next
  case (end_reported e x)
  then show ?case
    using due_remove1 [OF end_reported(1), of due_ends] due_remove1 [OF end_reported(1), of due_starts]
    by (simp add: backed_def ended_ended ended_started)
next
  case (extend x i now)
  then show ?case by (auto simp: backed_def Extend_def length_gm_update split: option.split)
next
  case (sweep now x es s)
  then have ok: "sessions_ok (ts_sessions x)" by (simp add: backed_def)
  have "length (ss_map (ts_sessions x)) = length es + length (ss_map s)" "sessions_ok s"
      "ss_site s = ss_site (ts_sessions x)"
    using sweep(1) ok range_delete_length [OF ok]
    by (auto simp: sweep_locked_def range_delete_filter [OF ok] split: prod.splits)
  with sweep show ?case by (simp add: backed_def)
next
  case (reorder m x)
  then show ?case
    using gm_ok_reorder [of m "ss_map (ts_sessions x)"] mset_eq_length [OF reorder(1)]
    by (simp add: backed_def)
qed

lemma backed_steps: "touch_steps sk x y \<Longrightarrow> backed site x \<Longrightarrow> backed site y"
  by (induction rule: rtranclp_induct) (blast intro: backed_step)+

end

section \<open>Properties\<close>

definition live_ops :: "session_op list" where
  "live_ops = [Page 1 ''/a'' 0, Page 2 ''/b'' 10, Page 1 ''/c'' 20, SweepAt 45, Page 2 ''/d'' 50]"

definition counting_sink :: "(nat \<times> nat) sink" where
  "counting_sink = \<lparr>SessionStarted = (\<lambda>_ _ (a, b). (Suc a, b)), SessionEnded = (\<lambda>_ _ (a, b). (a, Suc b))\<rparr>"

text \<open>
  Eviction takes the least recently seen sessions and nothing else: it splits the map into
  sessions it reports, each once and in the form \<open>finish\<close> gives, and sessions it keeps
  unchanged; no kept session was last seen before a reported one, at most \<open>cap\<close> are kept, and
  the eviction counter grows by the number reported.
\<close>

theorem eviction_is_least_recently_seen:
  assumes "gm_ok (ss_map s)" and "evictOldest sk (s, k) = (s', k')"
  shows "\<exists>gone. mset (ss_map s) = mset gone + mset (ss_map s') \<and>
    k' = report_ended sk (ss_site s) (map (finish \<circ> snd) gone) k \<and>
    (\<forall>(i, c) \<in> set gone. \<forall>(j, d) \<in> set (ss_map s'). s_last c \<le> s_last d) \<and>
    gm_len (ss_map s') \<le> max 0 (ss_cap s) \<and>
    s' = s\<lparr>ss_map := ss_map s', ss_evicted := ss_evicted s + word_of_nat (length gone)\<rparr>"
proof -
  obtain es where e: "evict_loop s = (es, s')" "k' = report_ended sk (ss_site s') es k"
    using assms(2) by (auto simp: evictOldest_def split: prod.splits)
  with evict_loop_spec [OF assms(1) e(1)] evict_loop_shape [OF assms(1) e(1)] show ?thesis
    by auto
qed

theorem eviction_is_least_recently_seen_witness:
  "\<exists>gone s' k'. evictOldest counting_sink
      (\<lparr>ss_site = ''s'', ss_ttl = 30, ss_cap = 1,
        ss_map = [(1, new_session ''/'' 5), (2, new_session ''/'' 3)], ss_evicted = 0\<rparr>, (2, 0)) = (s', k') \<and>
    mset [(1, new_session ''/'' 5), (2, new_session ''/'' 3)] = mset gone + mset (ss_map s')"
  using eviction_is_least_recently_seen [of "\<lparr>ss_site = ''s'', ss_ttl = 30, ss_cap = 1,
        ss_map = [(1, new_session ''/'' 5), (2, new_session ''/'' 3)], ss_evicted = 0\<rparr>" counting_sink "(2, 0)"]
  by (fastforce simp: gm_ok_def intro: prod.collapse [symmetric])

text \<open>
  C21: What the tracker keeps for a visitor is a function of that visitor's own events. With
  room for everyone and non-decreasing times, after any mix of pageviews, pings and sweeps by
  any number of visitors, what every later instant sees of a visitor's session is what the
  one-visitor specification \<open>visit_step\<close> computes: sweeps and other visitors leave no trace.
\<close>

theorem session_is_own_history:
  assumes "sorted (0 # map op_time ops)" and "finite ids" and "\<forall>op \<in> set ops. op_visitor op \<subseteq> ids"
    and "int (card ids) \<le> cap"
    and "last (0 # map op_time ops) \<le> t"
  shows "fresh ttl t (map_of (ss_map (fst (fold (session_op_step sk) ops (NewSessions site ttl cap, k)))) i) =
    fresh ttl t (fold (visit_step ttl i) ops None)"
proof -
  have "follows ids ttl i 0 (NewSessions site ttl cap, k) None"
    using assms(4) by (simp add: follows_def tracked_def NewSessions_def gm_ok_def)
  from follows_run [OF this assms(2,3,1)] assms(5) show ?thesis
    by (auto simp: follows_def same_from_def)
qed

theorem session_is_own_history_witness:
  "fresh 30 50 (map_of (ss_map (fst (fold (session_op_step counting_sink) live_ops (NewSessions ''s'' 30 2, (0, 0))))) 2) =
    fresh 30 50 (fold (visit_step 30 2) live_ops None)"
  by (rule session_is_own_history [of live_ops "{1, 2}"]) (simp_all add: live_ops_def)

text \<open>
  \<open>Touch\<close> reports a new session exactly when the specification has none to continue: the
  visitor was never seen, or not within the timeout before this pageview.
\<close>

theorem touch_new_iff_idle:
  assumes "sorted (0 # map op_time (ops @ [Page i p t]))" and "finite ids"
    and "\<forall>op \<in> set (ops @ [Page i p t]). op_visitor op \<subseteq> ids" and "int (card ids) \<le> cap"
  shows "fst (Touch sk i p t (fold (session_op_step sk) ops (NewSessions site ttl cap, k))) \<longleftrightarrow>
    fresh ttl t (fold (visit_step ttl i) ops None) = None"
proof -
  let ?st = "fold (session_op_step sk) ops (NewSessions site ttl cap, k)"
  have "follows ids ttl i 0 (NewSessions site ttl cap, k) None"
    using assms(4) by (simp add: follows_def tracked_def NewSessions_def gm_ok_def)
  moreover have "sorted (0 # map op_time ops)" "\<forall>op \<in> set ops. op_visitor op \<subseteq> ids"
    using assms(1,3) by (simp_all add: sorted_append)
  ultimately have f: "follows ids ttl i (last (0 # map op_time ops)) ?st (fold (visit_step ttl i) ops None)"
    using follows_run [of ids ttl i 0] assms(2) by blast
  have "last (0 # map op_time ops) \<in> set (0 # map op_time ops)"
    by (rule last_in_set) simp
  then have "last (0 # map op_time ops) \<le> t"
    using assms(1) by (auto simp: sorted_append simp del: last.simps)
  then have "fresh ttl t (map_of (ss_map (fst ?st)) i) = fresh ttl t (fold (visit_step ttl i) ops None)"
    using f by (auto simp: follows_def same_from_def)
  moreover obtain b s' k' where "Touch sk i p t (fst ?st, snd ?st) = (b, s', k')" by (metis prod.collapse)
  ultimately show ?thesis
    using touch_entry [of ids "fst ?st" i sk p t "snd ?st" b s' k' i] f assms(2,3) by (simp add: follows_def)
qed

theorem touch_new_iff_idle_witness:
  "fst (Touch counting_sink 2 ''/e'' 60 (fold (session_op_step counting_sink) live_ops (NewSessions ''s'' 30 2, (0, 0)))) \<longleftrightarrow>
    fresh 30 60 (fold (visit_step 30 2) live_ops None) = None"
  by (rule touch_new_iff_idle [of live_ops 2 "''/e''" 60 "{1, 2}"]) (auto simp: live_ops_def)

text \<open>
  \<open>Sweep\<close> ends exactly the sessions idle for the timeout or longer, each reported once
  and counted in the result; every other session is left as it was. The schedule of sweeps is
  immaterial: earlier sweeps never change what a sweep leaves behind.
\<close>

theorem sweep_ends_exactly_the_idle:
  assumes "gm_ok (ss_map s)" and "Sweep sk now (s, k) = (n, s', k')" and "\<forall>t \<in> set ts. t \<le> now"
  shows "(\<exists>gone. mset (ss_map s) = mset gone + mset (ss_map s') \<and> n = int (length gone) \<and>
      k' = report_ended sk (ss_site s) (map (finish \<circ> snd) gone) k \<and>
      (\<forall>(i, c) \<in> set gone. ss_ttl s \<le> time_sub now (s_last c)) \<and>
      (\<forall>(i, c) \<in> set (ss_map s'). time_sub now (s_last c) < ss_ttl s)) \<and>
    (\<forall>i. map_option s_last (map_of (ss_map (snd (sweep_locked now (fold (\<lambda>t. snd \<circ> sweep_locked t) ts s)))) i) =
      map_option s_last (map_of (ss_map s') i))"
proof
  obtain gone left where r: "range_delete (\<lambda>_ cur. time_sub now (s_last cur) \<ge> ss_ttl s) (ss_map s) = (gone, left)"
    by (metis prod.collapse)
  have eqs: "s' = s\<lparr>ss_map := left\<rparr>" "n = int (length gone)"
      "k' = report_ended sk (ss_site s) (map (finish \<circ> snd) gone) k"
    using assms(2) by (auto simp: Sweep_def sweep_locked_def r comp_def case_prod_beta')
  show "\<exists>gone. mset (ss_map s) = mset gone + mset (ss_map s') \<and> n = int (length gone) \<and>
      k' = report_ended sk (ss_site s) (map (finish \<circ> snd) gone) k \<and>
      (\<forall>(i, c) \<in> set gone. ss_ttl s \<le> time_sub now (s_last c)) \<and>
      (\<forall>(i, c) \<in> set (ss_map s'). time_sub now (s_last c) < ss_ttl s)"
    using range_delete_mset [OF assms(1) r] r range_delete_filter [OF assms(1)]
    by (intro exI [of _ gone]) (auto simp: eqs)
  have "snd (sweep_locked now s) = s'"
    by (simp add: eqs sweep_locked_def r)
  with sd.sweeps_absorbed [OF assms(1,3)]
  show "\<forall>i. map_option s_last (map_of (ss_map (snd (sweep_locked now (fold (\<lambda>t. snd \<circ> sweep_locked t) ts s)))) i) =
      map_option s_last (map_of (ss_map s') i)"
    by (simp add: comp_def fun_eq_iff)
qed

theorem sweep_ends_exactly_the_idle_witness:
  "fst (Sweep counting_sink 40 (\<lparr>ss_site = ''s'', ss_ttl = 30, ss_cap = 9,
     ss_map = [(1, new_session ''/'' 5), (2, new_session ''/'' 20)], ss_evicted = 0\<rparr>, (2, 0))) = 1"
proof -
  let ?s = "\<lparr>ss_site = ''s'', ss_ttl = 30, ss_cap = 9,
     ss_map = [(1, new_session ''/'' 5), (2 :: u64, new_session ''/'' 20)], ss_evicted = 0\<rparr>"
  have "gm_ok (ss_map ?s)" by (simp add: gm_ok_def)
  obtain n s' k' where eq: "Sweep counting_sink 40 (?s, (2, 0)) = (n, s', k')" by (metis prod.collapse)
  have "ss_map s' = [(2, new_session ''/'' 20)]"
    using eq by (auto simp: Sweep_def sweep_locked_def range_delete_def new_session_def time_sub_def)
  with sweep_ends_exactly_the_idle [OF \<open>gm_ok (ss_map ?s)\<close> eq, of "[]"] eq show ?thesis
    by (auto dest!: arg_cong [where f = size])
qed

text \<open>
  Whatever the interleaving of the critical sections of concurrent callers, the map of live
  sessions exceeds its cap only while some caller has yet to evict; when no call is in flight
  it is within the cap.
\<close>

theorem session_cap_when_quiet:
  assumes "touch_steps sk (idle_tsys (NewSessions site ttl cap) k) x" and "0 \<le> cap" and "ts_threads x = []"
  shows "sessions_Len (ts_sessions x) \<le> cap"
  using cap_pending_steps [OF assms(1) _ assms(2)] assms(2,3) idle_tsys_pending [of "NewSessions site ttl cap" k]
  by (simp add: cap_pending_def sessions_Len_def NewSessions_def gm_ok_def)

theorem session_cap_when_quiet_witness:
  "sessions_Len (ts_sessions (idle_tsys (NewSessions ''s'' 30 2) (0 :: nat, 0 :: nat))) \<le> 2"
  by (rule session_cap_when_quiet [of counting_sink "''s''" 30 2 "(0, 0)"]) (auto simp: idle_tsys_def)

text \<open>
  C27: The accounting does not survive concurrency. \<open>Touch\<close> closes an idle session and releases
  the mutex before it opens the next one; when two workers hold pageviews of the same idle
  visitor, the second to open overwrites the session the first has just opened. In this run
  three sessions are reported started and one ended, one is live, none is evicted and nothing
  is in flight: a session has been lost and its end is never reported.
\<close>

theorem concurrent_touch_loses_a_session:
  "\<exists>x. touch_steps counting_sink (idle_tsys (NewSessions ''s'' 30 10) (0, 0)) x \<and> ts_threads x = [] \<and>
     ts_sink x = (3, 1) \<and> sessions_Len (ts_sessions x) = 1 \<and> sessions_Evicted (ts_sessions x) = 0"
proof -
  let ?S = "\<lambda>m. NewSessions ''s'' 30 10\<lparr>ss_map := m\<rparr>"
  let ?x = "\<lambda>m k ts. \<lparr>ts_sessions = ?S m, ts_sink = k, ts_threads = ts\<rparr>"
  let ?e = "finish (new_session ''/'' 0)"
  let ?new = "\<lambda>p t. [(1 :: u64, new_session p t)]"
  note code = touch_first_def touch_open_def NewSessions_def new_session_def time_sub_def Let_def counting_sink_def
  have 1: "touch_step counting_sink (?x [] (0, 0) []) (?x (?new ''/'' 0) (0, 0) [TStarted ''/'' False])"
    using touch_step.fresh_open [of 1 "''/''" 0 "?x [] (0, 0) []" "?S []" False "?S (?new ''/'' 0)" counting_sink]
    by (simp add: code)
  have 2: "touch_step counting_sink (?x m (a, b) (TStarted p False # ts)) (?x m (Suc a, b) ts)" for m a b p ts
    using touch_step.started [of p False "?x m (a, b) (TStarted p False # ts)" counting_sink]
    by (simp add: code)
  have 3: "touch_step counting_sink (?x (?new ''/'' 0) (1, 0) []) (?x [] (1, 0) [TReport 1 ''/a'' 100 ?e])"
    using touch_step.idle [of 1 "''/a''" 100 "?x (?new ''/'' 0) (1, 0) []" ?e "?S []" counting_sink]
    by (simp add: code)
  have 4: "touch_step counting_sink (?x [] (1, 0) [TReport 1 ''/a'' 100 ?e])
      (?x (?new ''/b'' 100) (1, 0) [TStarted ''/b'' False, TReport 1 ''/a'' 100 ?e])"
    using touch_step.fresh_open [of 1 "''/b''" 100 "?x [] (1, 0) [TReport 1 ''/a'' 100 ?e]" "?S []" False
      "?S (?new ''/b'' 100)" counting_sink]
    by (simp add: code)
  have 5: "touch_step counting_sink (?x (?new ''/b'' 100) (2, 0) [TReport 1 ''/a'' 100 ?e])
      (?x (?new ''/b'' 100) (2, 1) [TOpen 1 ''/a'' 100])"
    using touch_step.report [of 1 "''/a''" 100 ?e "?x (?new ''/b'' 100) (2, 0) [TReport 1 ''/a'' 100 ?e]" counting_sink]
    by (simp add: code)
  have 6: "touch_step counting_sink (?x (?new ''/b'' 100) (2, 1) [TOpen 1 ''/a'' 100])
      (?x (?new ''/a'' 100) (2, 1) [TStarted ''/a'' False])"
    using touch_step.reopen [of 1 "''/a''" 100 "?x (?new ''/b'' 100) (2, 1) [TOpen 1 ''/a'' 100]" False
      "?S (?new ''/a'' 100)" counting_sink]
    by (simp add: code)
  have "touch_steps counting_sink (?x [] (0, 0) []) (?x (?new ''/a'' 100) (3, 1) [])"
    using 1 2 [of "?new ''/'' 0" 0 0 "''/''" "[]"] 3 4 2 [of "?new ''/b'' 100" 1 0 "''/b''" "[TReport 1 ''/a'' 100 ?e]"]
      5 6 2 [of "?new ''/a'' 100" 2 1 "''/a''" "[]"]
    by (auto simp: numeral_eq_Suc intro: converse_rtranclp_into_rtranclp)
  moreover have "idle_tsys (NewSessions ''s'' 30 10) (0 :: nat, 0 :: nat) = ?x [] (0, 0) []"
    by (simp add: idle_tsys_def NewSessions_def)
  ultimately have "touch_steps counting_sink (idle_tsys (NewSessions ''s'' 30 10) (0, 0))
      (?x (?new ''/a'' 100) (3, 1) [])" by (simp only:)
  then show ?thesis
    by (intro exI conjI) (assumption, simp_all add: sessions_Len_def sessions_Evicted_def NewSessions_def)
qed

end
