(* ===== verification/Rolling.thy ===== *)
theory Rolling
  imports Prelude
begin

text \<open>
  The unique-visitor windows of \<open>internal/sketch/hll.go\<close>: rings of sketches that slide with the
  clock, and the sketch of the current calendar day.

  \<^item> \<open>hll\<close>: the operations of the third-party HyperLogLog package, a parameter of the model;
    \<open>hll_sound\<close> is what its documentation promises (a sketch estimates the set of hashes
    inserted into it, merging is union).
  \<^item> \<open>rolling\<close>, \<open>NewRolling\<close>, \<open>slot\<close>, \<open>rolling_Insert\<close>, \<open>rolling_Estimate\<close>, \<open>daily\<close>,
    \<open>Windows\<close>: the code. \<open>None\<close> is a panic (division by zero, index out of range).
  \<^item> \<open>civil_date\<close>: \<open>Time.Date\<close> of the standard library; a location is its UTC offset as a
    function of the instant, the time zone data being external.
  \<^item> \<open>ring_inv\<close>: what the ring holds, as a function of the log of insertions.
\<close>

section \<open>The code\<close>

record 's hll =
  hll_New14 :: 's
  hll_NewSketch :: "nat \<Rightarrow> bool \<Rightarrow> 's option"
  hll_InsertHash :: "u64 \<Rightarrow> 's \<Rightarrow> 's"
  hll_Merge :: "'s \<Rightarrow> 's \<Rightarrow> 's \<times> bool"
  hll_Estimate :: "'s \<Rightarrow> u64"

record 's rolling =
  r_res :: duration
  r_buckets :: "'s list"
  r_stamps :: "int list"
  r_sparse :: bool

definition newSketch :: "'s hll \<Rightarrow> bool \<Rightarrow> 's" where
  "newSketch h sparse =
     (if sparse then (case hll_NewSketch h 10 True of None \<Rightarrow> hll_New14 h | Some s \<Rightarrow> s)
      else hll_New14 h)"

definition NewRolling :: "'s hll \<Rightarrow> duration \<Rightarrow> nat \<Rightarrow> bool \<Rightarrow> 's rolling" where
  "NewRolling h res n sparse =
     \<lparr>r_res = res, r_buckets = replicate n (newSketch h sparse), r_stamps = replicate n (- 1),
      r_sparse = sparse\<rparr>"

definition slot :: "'s rolling \<Rightarrow> time \<Rightarrow> int option" where
  "slot r t = (if r_res r = 0 then None else Some (unix_nano t sdiv r_res r))"

definition mix :: "u64 \<Rightarrow> u64" where
  "mix x =
     (let x = x XOR drop_bit 30 x;
          x = x * 0xbf58476d1ce4e5b9;
          x = x XOR drop_bit 27 x;
          x = x * 0x94d049bb133111eb
      in x XOR drop_bit 31 x)"

definition rolling_Insert :: "'s hll \<Rightarrow> u64 \<Rightarrow> time \<Rightarrow> 's rolling \<Rightarrow> 's rolling option" where
  "rolling_Insert h visitor t r =
     do {
       s \<leftarrow> slot r t;
       if r_buckets r = [] then None
       else (let i = s smod int (length (r_buckets r)) in
         if i < 0 \<or> int (length (r_stamps r)) \<le> i then None
         else (let r1 = (if r_stamps r ! nat i \<noteq> s
                 then r\<lparr>r_buckets := (r_buckets r)[nat i := newSketch h (r_sparse r)],
                        r_stamps := (r_stamps r)[nat i := s]\<rparr>
                 else r)
           in Some (r1\<lparr>r_buckets := (r_buckets r1)[nat i :=
                hll_InsertHash h (mix visitor) (r_buckets r1 ! nat i)]\<rparr>)))
     }"

definition merge_step :: "'s hll \<Rightarrow> int \<Rightarrow> int \<Rightarrow> int \<times> 's \<Rightarrow> 's \<times> bool \<Rightarrow> 's \<times> bool" where
  "merge_step h oldest cur stb acc_any =
     (if fst stb < oldest \<or> cur < fst stb then acc_any
      else let (acc', merged) = hll_Merge h (fst acc_any) (snd stb) in (acc', snd acc_any \<or> merged))"

definition rolling_Estimate :: "'s hll \<Rightarrow> time \<Rightarrow> 's rolling \<Rightarrow> u64 option" where
  "rolling_Estimate h t r =
     do {
       cur \<leftarrow> slot r t;
       let oldest = cur - int (length (r_buckets r)) + 1;
       let (acc, any) = fold (merge_step h oldest cur) (zip (r_stamps r) (r_buckets r))
           (newSketch h (r_sparse r), False);
       Some (if \<not> any then 0 else hll_Estimate h acc)
     }"

definition rolling_Window :: "'s rolling \<Rightarrow> duration" where
  "rolling_Window r = sint (word_of_int (r_res r * int (length (r_buckets r))) :: u64)"

text \<open>
  \<open>Time.Date\<close>: the proleptic Gregorian date of an instant in a location, by 400-, 100-, 4-
  and 1-year cycles from 1 January of the year 1.
\<close>

type_synonym location = "time \<Rightarrow> duration"

definition local_day :: "location \<Rightarrow> time \<Rightarrow> int" where
  "local_day loc t = (t + loc t) div (24 * hour_ns) + 719162"

definition leap_year :: "int \<Rightarrow> bool" where
  "leap_year y \<longleftrightarrow> y mod 4 = 0 \<and> (y mod 100 \<noteq> 0 \<or> y mod 400 = 0)"

definition month_lengths :: "int \<Rightarrow> int list" where
  "month_lengths y = [31, if leap_year y then 29 else 28, 31, 30, 31, 30, 31, 31, 30, 31, 30, 31]"

fun month_and_day :: "int list \<Rightarrow> int \<Rightarrow> int \<Rightarrow> int \<times> int" where
  "month_and_day [] m d = (m, d + 1)"
| "month_and_day [_] m d = (m, d + 1)"
| "month_and_day (l # ls) m d = (if d < l then (m, d + 1) else month_and_day ls (m + 1) (d - l))"

definition year_and_yday :: "int \<Rightarrow> int \<times> int" where
  "year_and_yday d =
     (let n400 = d div 146097; d = d mod 146097;
          n100 = min 3 (d div 36524); d = d - 36524 * n100;
          n4 = d div 1461; d = d mod 1461;
          n1 = min 3 (d div 365); d = d - 365 * n1
      in (400 * n400 + 100 * n100 + 4 * n4 + n1 + 1, d))"

definition civil_date :: "int \<Rightarrow> int \<times> int \<times> int" where
  "civil_date day =
     (let (y, yday) = year_and_yday day; (m, d) = month_and_day (month_lengths y) 1 yday in (y, m, d))"

record 's daily =
  d_day :: int
  d_sk :: 's

definition NewDaily :: "'s hll \<Rightarrow> 's daily" where
  "NewDaily h = \<lparr>d_day = 0, d_sk = hll_New14 h\<rparr>"

definition dayKey :: "location \<Rightarrow> time \<Rightarrow> int" where
  "dayKey loc t = (let (y, m, d) = civil_date (local_day loc t) in y * 10000 + m * 100 + d)"

definition daily_Insert :: "'s hll \<Rightarrow> location \<Rightarrow> u64 \<Rightarrow> time \<Rightarrow> 's daily \<Rightarrow> 's daily" where
  "daily_Insert h loc visitor t d =
     (let k = dayKey loc t;
          d1 = (if k \<noteq> d_day d then d\<lparr>d_sk := hll_New14 h, d_day := k\<rparr> else d)
      in d1\<lparr>d_sk := hll_InsertHash h (mix visitor) (d_sk d1)\<rparr>)"

definition daily_Estimate :: "'s hll \<Rightarrow> location \<Rightarrow> time \<Rightarrow> 's daily \<Rightarrow> u64" where
  "daily_Estimate h loc t d = (if dayKey loc t \<noteq> d_day d then 0 else hll_Estimate h (d_sk d))"

record 's windows =
  w_Active :: "'s rolling"
  w_H1 :: "'s rolling"
  w_D1 :: "'s rolling"
  w_D7 :: "'s rolling"
  w_D30 :: "'s rolling"
  w_Today :: "'s daily"

definition NewWindows :: "'s hll \<Rightarrow> 's windows" where
  "NewWindows h =
     \<lparr>w_Active = NewRolling h minute_ns 5 False, w_H1 = NewRolling h (5 * minute_ns) 12 False,
      w_D1 = NewRolling h hour_ns 24 False, w_D7 = NewRolling h (24 * hour_ns) 7 False,
      w_D30 = NewRolling h (24 * hour_ns) 30 False, w_Today = NewDaily h\<rparr>"

definition windows_Insert :: "'s hll \<Rightarrow> location \<Rightarrow> u64 \<Rightarrow> time \<Rightarrow> 's windows \<Rightarrow> 's windows option" where
  "windows_Insert h loc visitor t w =
     do {
       active \<leftarrow> rolling_Insert h visitor t (w_Active w);
       h1 \<leftarrow> rolling_Insert h visitor t (w_H1 w);
       d1 \<leftarrow> rolling_Insert h visitor t (w_D1 w);
       d7 \<leftarrow> rolling_Insert h visitor t (w_D7 w);
       d30 \<leftarrow> rolling_Insert h visitor t (w_D30 w);
       Some \<lparr>w_Active = active, w_H1 = h1, w_D1 = d1, w_D7 = d7, w_D30 = d30,
         w_Today = daily_Insert h loc visitor t (w_Today w)\<rparr>
     }"

section \<open>The hash finalizer\<close>

text \<open>\<open>unmix\<close> undoes the steps of \<open>mix\<close> in reverse; the factors are the inverses modulo \<open>2^64\<close>.\<close>

definition unmix :: "u64 \<Rightarrow> u64" where
  "unmix x =
     (let x = x XOR drop_bit 31 x XOR drop_bit 62 x;
          x = x * 3573116690164977347;
          x = x XOR drop_bit 27 x XOR drop_bit 54 x;
          x = x * 10871156337175269513
      in x XOR drop_bit 30 x XOR drop_bit 60 x)"

lemma xorshift_inverse:
  fixes x :: u64
  assumes "64 \<le> 3 * k"
  shows "(let y = x XOR drop_bit k x in y XOR drop_bit k y XOR drop_bit (2 * k) y) = x"
    and "(let y = x XOR drop_bit k x XOR drop_bit (2 * k) x in y XOR drop_bit k y) = x"
proof -
  have far: "drop_bit (k + (k + k)) x = 0"
    using assms by (intro bit_eqI) (simp add: bit_simps impossible_bit)
  have double: "drop_bit (2 * k) y = drop_bit k (drop_bit k y)" for y :: u64
    by (simp add: mult_2)
  have "drop_bit k (drop_bit k (drop_bit k x)) = 0"
    using far by (simp add: ac_simps)
  then show "(let y = x XOR drop_bit k x in y XOR drop_bit k y XOR drop_bit (2 * k) y) = x"
      "(let y = x XOR drop_bit k x XOR drop_bit (2 * k) x in y XOR drop_bit k y) = x"
    by (simp_all only: Let_def double drop_bit_xor xor.assoc xor.left_commute bit.xor_left_self
      xor_self_eq xor.right_neutral bit.xor_self)

qed

lemma odd_factors:
  "(0xbf58476d1ce4e5b9 :: u64) * 10871156337175269513 = 1"
  "(10871156337175269513 :: u64) * 0xbf58476d1ce4e5b9 = 1"
  "(0x94d049bb133111eb :: u64) * 3573116690164977347 = 1"
  "(3573116690164977347 :: u64) * 0x94d049bb133111eb = 1"
  by simp_all

lemma odd_factor_inverse:
  "x * 0xbf58476d1ce4e5b9 * 10871156337175269513 = (x :: u64)"
  "x * 10871156337175269513 * 0xbf58476d1ce4e5b9 = (x :: u64)"
  "x * 0x94d049bb133111eb * 3573116690164977347 = (x :: u64)"
  "x * 3573116690164977347 * 0x94d049bb133111eb = (x :: u64)"
  by (simp_all only: mult.assoc odd_factors mult_1_right)

lemma unmix_mix: "unmix (mix x) = x"
  using xorshift_inverse(1) [of 30] xorshift_inverse(1) [of 27] xorshift_inverse(1) [of 31]
  by (simp add: mix_def unmix_def Let_def odd_factor_inverse)

lemma mix_unmix: "mix (unmix x) = x"
  using xorshift_inverse(2) [of 30] xorshift_inverse(2) [of 27] xorshift_inverse(2) [of 31]
  by (simp add: mix_def unmix_def Let_def odd_factor_inverse)

section \<open>What the ring holds\<close>

text \<open>
  A log lists insertions with their slots. The slots arrive on time when none lies a whole
  ring behind one before it; then each ring position holds the newest slot of its residue.
\<close>

definition on_time :: "nat \<Rightarrow> (u64 \<times> int) list \<Rightarrow> bool" where
  "on_time n log \<longleftrightarrow> (\<forall>e \<in> set log. 0 \<le> snd e) \<and> sorted_wrt (\<lambda>a b. snd a - int n < snd b) log"

definition in_slot :: "(u64 \<times> int) list \<Rightarrow> int \<Rightarrow> u64 list" where
  "in_slot log s = map fst (filter (\<lambda>e. snd e = s) log)"

definition insert_all :: "'s hll \<Rightarrow> u64 list \<Rightarrow> 's \<Rightarrow> 's" where
  "insert_all h ids = fold (\<lambda>v. hll_InsertHash h (mix v)) ids"

definition newest :: "nat \<Rightarrow> (u64 \<times> int) list \<Rightarrow> nat \<Rightarrow> int" where
  "newest n log i =
     (let es = filter (\<lambda>e. snd e mod int n = int i) log in if es = [] then - 1 else snd (last es))"

definition ring_inv :: "'s hll \<Rightarrow> duration \<Rightarrow> nat \<Rightarrow> bool \<Rightarrow> (u64 \<times> int) list \<Rightarrow> 's rolling \<Rightarrow> bool" where
  "ring_inv h res n sparse log r \<longleftrightarrow>
     r_res r = res \<and> r_sparse r = sparse \<and> length (r_buckets r) = n \<and> length (r_stamps r) = n \<and>
     (\<forall>i < n. r_stamps r ! i = newest n log i \<and>
        r_buckets r ! i = insert_all h (in_slot log (newest n log i)) (newSketch h sparse))"

lemma ring_inv_new: "ring_inv h res n sparse [] (NewRolling h res n sparse)"
  by (simp add: ring_inv_def NewRolling_def newest_def in_slot_def insert_all_def)

lemma newest_snoc:
  "newest n (log @ [(v, s)]) i = (if s mod int n = int i then s else newest n log i)"
  by (simp add: newest_def Let_def)

lemma in_slot_snoc: "in_slot (log @ [(v, s)]) s' = in_slot log s' @ (if s = s' then [v] else [])"
  by (simp add: in_slot_def)

lemma same_residue_le:
  fixes a b :: int
  assumes "a mod n = b mod n" and "a - n < b" and "0 < n"
  shows "a \<le> b"
proof (rule ccontr)
  assume "\<not> a \<le> b"
  moreover have "n dvd a - b" using assms(1) by (simp add: mod_eq_dvd_iff)
  ultimately have "n \<le> a - b" by (intro zdvd_imp_le) simp_all
  with assms(2) show False by simp
qed

lemma newest_cases:
  assumes "on_time n log" and "0 < n"
  obtains (none) "newest n log i = - 1" "\<forall>e \<in> set log. snd e mod int n \<noteq> int i"
  | (some) v where "(v, newest n log i) \<in> set log" "newest n log i mod int n = int i" "0 \<le> newest n log i"
      "\<forall>e \<in> set log. snd e mod int n = int i \<longrightarrow> snd e \<le> newest n log i"
proof (cases "filter (\<lambda>e. snd e mod int n = int i) log" rule: rev_cases)
  case Nil
  then show ?thesis by (intro none) (auto simp: newest_def filter_empty_conv)
next
  case (snoc es e)
  let ?p = "\<lambda>e. snd e mod int n = int i"
  have last: "newest n log i = snd e"
    by (simp add: newest_def snoc)
  have e: "e \<in> set log" "?p e"
    using arg_cong [OF snoc, of set] by auto
  have "sorted_wrt (\<lambda>a b. snd a - int n < snd b) (filter ?p log)"
    using assms(1) by (simp add: on_time_def sorted_wrt_filter)
  then have es: "\<forall>a \<in> set es. snd a - int n < snd e"
    by (simp add: snoc sorted_wrt_append)
  have "snd a \<le> snd e" if "a \<in> set log" "?p a" for a
  proof -
    have "a \<in> set (es @ [e])" using that by (simp flip: snoc)
    then show ?thesis
      using es that(2) e(2) assms(2) same_residue_le [of "snd a" "int n" "snd e"] by auto
  qed
  with e last assms(1) show ?thesis
    by (intro some [of "fst e"]) (auto simp: on_time_def)
qed

lemma ring_inv_insert:
  assumes inv: "ring_inv h res n sparse log r" and pos: "0 < n" "0 < res"
    and time: "0 \<le> t" "t \<le> max_duration" and timely: "on_time n (log @ [(v, t div res)])"
  shows "\<exists>r'. rolling_Insert h v t r = Some r' \<and> ring_inv h res n sparse (log @ [(v, t div res)]) r'"
proof -
  define s where "s = t div res"
  define i where "i = nat (s mod int n)"
  have lens: "length (r_buckets r) = n" "length (r_stamps r) = n" and res: "r_res r = res" "r_sparse r = sparse"
    and at: "\<And>j. j < n \<Longrightarrow> r_stamps r ! j = newest n log j"
    and bucket: "\<And>j. j < n \<Longrightarrow>
      r_buckets r ! j = insert_all h (in_slot log (newest n log j)) (newSketch h sparse)"
    using inv by (auto simp: ring_inv_def)
  have s: "slot r t = Some s"
    using time pos by (simp add: slot_def res s_def unix_nano_exact signed_divide_int_def sgn_if)
  have s0: "0 \<le> s" using time pos by (simp add: s_def pos_imp_zdiv_nonneg_iff)
  have i: "s smod int n = int i" "i < n" "s mod int n = int i"
    using s0 pos by (simp_all add: i_def signed_modulo_int_def sgn_if nat_less_iff)
  have log: "on_time n log" and ahead: "\<forall>e \<in> set log. snd e - int n < s"
    using timely by (simp_all add: on_time_def sorted_wrt_append s_def)
  have other: "in_slot log s = []" if "newest n log i \<noteq> s"
    using log pos(1)
  proof (cases rule: newest_cases [of n log i])
    case none
    with i(3) show ?thesis by (auto simp: in_slot_def filter_empty_conv)
  next
    case (some w)
    then have "newest n log i < s"
      using same_residue_le [of "newest n log i" "int n" s] i(3) ahead pos(1) that by fastforce
    with some i(3) show ?thesis by (fastforce simp: in_slot_def filter_empty_conv)
  qed
  define r' where "r' = r\<lparr>
      r_buckets := (r_buckets r)[i := hll_InsertHash h (mix v)
        (if newest n log i \<noteq> s then newSketch h sparse else r_buckets r ! i)],
      r_stamps := (r_stamps r)[i := s]\<rparr>"
  have "r = r\<lparr>r_stamps := (r_stamps r)[i := newest n log i]\<rparr>"
    using i(2) at [of i] by (metis list_update_id rolling.surjective rolling.update_convs(3))
  then have "rolling_Insert h v t r = Some r'"
    using pos i(2) lens at [of i]
    by (cases "newest n log i = s") (auto simp: rolling_Insert_def s i(1) Let_def r'_def res)
  moreover have "ring_inv h res n sparse (log @ [(v, s)]) r'"
    unfolding ring_inv_def
  proof (intro conjI allI impI)
    fix j assume j: "j < n"
    have lands: "newest n (log @ [(v, s)]) i = s" using i(3) by (simp add: newest_snoc)
    show "r_stamps r' ! j = newest n (log @ [(v, s)]) j"
      using i j at by (auto simp: r'_def newest_snoc lens nth_list_update)

    show "r_buckets r' ! j =
        insert_all h (in_slot (log @ [(v, s)]) (newest n (log @ [(v, s)]) j)) (newSketch h sparse)"
    proof (cases "j = i")
      case True
      with i other bucket [of i] lands show ?thesis
        by (auto simp: r'_def lens in_slot_snoc insert_all_def)
    next
      case False
      then have keep: "newest n (log @ [(v, s)]) j = newest n log j"
        using i(3) by (simp add: newest_snoc)
      have "newest n log j \<noteq> s"
        using log pos(1)
      proof (cases rule: newest_cases [of n log j])
        case none
        with s0 show ?thesis by simp
      next
        case some
        with i(3) False show ?thesis by auto
      qed
      with False j bucket [of j] keep show ?thesis
        by (simp add: r'_def lens in_slot_snoc)
    qed
  qed (simp_all add: r'_def lens res)
  ultimately show ?thesis by (simp add: s_def)
qed

definition rolling_run :: "'s hll \<Rightarrow> (u64 \<times> time) list \<Rightarrow> 's rolling \<Rightarrow> 's rolling option" where
  "rolling_run h log = loop_opt (\<lambda>(v, t). rolling_Insert h v t) log"

definition slotted :: "duration \<Rightarrow> (u64 \<times> time) list \<Rightarrow> (u64 \<times> int) list" where
  "slotted res = map (\<lambda>(v, t). (v, t div res))"

lemma ring_inv_run:
  assumes "on_time n (slotted res log)" and "0 < n" and "0 < res"
    and "\<forall>(v, t) \<in> set log. 0 \<le> t \<and> t \<le> max_duration"
  shows "\<exists>r. rolling_run h log (NewRolling h res n sparse) = Some r \<and> ring_inv h res n sparse (slotted res log) r"
  using assms
proof (induction log rule: rev_induct)
  case Nil
  then show ?case by (simp add: rolling_run_def slotted_def ring_inv_new)
next
  case (snoc e log)
  obtain v t where e: "e = (v, t)" by (cases e)
  have "on_time n (slotted res log)"
    using snoc.prems(1) by (simp add: on_time_def slotted_def sorted_wrt_append)
  with snoc obtain r where r: "rolling_run h log (NewRolling h res n sparse) = Some r"
      "ring_inv h res n sparse (slotted res log) r" by auto
  have "\<exists>r'. rolling_Insert h v t r = Some r' \<and> ring_inv h res n sparse (slotted res log @ [(v, t div res)]) r'"
    using snoc.prems by (intro ring_inv_insert [OF r(2)]) (auto simp: e slotted_def)
  with r show ?case
    by (auto simp: rolling_run_def loop_opt_append e slotted_def)
qed

definition hll_sound :: "'s hll \<Rightarrow> 's \<Rightarrow> ('s \<Rightarrow> u64 set \<Rightarrow> bool) \<Rightarrow> (u64 set \<Rightarrow> u64) \<Rightarrow> bool" where
  "hll_sound h new holds est \<longleftrightarrow>
     holds new {} \<and>
     (\<forall>s A x. holds s A \<longrightarrow> holds (hll_InsertHash h x s) (insert x A)) \<and>
     (\<forall>a A b B. holds a A \<longrightarrow> holds b B \<longrightarrow> snd (hll_Merge h a b) \<and> holds (fst (hll_Merge h a b)) (A \<union> B)) \<and>
     (\<forall>s A. holds s A \<longrightarrow> hll_Estimate h s = est A) \<and> est {} = 0"

lemma insert_all_holds:
  "hll_sound h new holds est \<Longrightarrow> holds s A \<Longrightarrow> holds (insert_all h ids s) (A \<union> mix ` set ids)"
proof (induction ids arbitrary: s A)
  case Nil
  then show ?case by (simp add: insert_all_def)
next
  case (Cons v ids)
  then have "holds (hll_InsertHash h (mix v) s) (insert (mix v) A)" by (simp add: hll_sound_def)
  from Cons.IH [OF Cons.prems(1) this] show ?case by (simp add: insert_all_def insert_commute)
qed

lemma hll_merge:
  assumes "hll_sound h new holds est" and "holds a A" and "holds b B"
  obtains c where "hll_Merge h a b = (c, True)" "holds c (A \<union> B)"
  using assms unfolding hll_sound_def by (cases "hll_Merge h a b") fastforce

lemma merge_fold:
  assumes "hll_sound h new holds est" and "holds acc A"
    and "\<forall>x \<in> set xs. lo \<le> fst x \<and> fst x \<le> hi \<longrightarrow> holds (snd x) (H (fst x))"
  shows "\<exists>acc'. fold (merge_step h lo hi) xs (acc, any) = (acc', any \<or> (\<exists>x \<in> set xs. lo \<le> fst x \<and> fst x \<le> hi)) \<and>
    holds acc' (A \<union> (\<Union>x \<in> {x \<in> set xs. lo \<le> fst x \<and> fst x \<le> hi}. H (fst x)))"
  using assms(2,3)
proof (induction xs arbitrary: acc A any)
  case Nil
  then show ?case by simp
next
  case (Cons x xs)
  show ?case
  proof (cases "lo \<le> fst x \<and> fst x \<le> hi")
    case False
    then have "{y \<in> set (x # xs). lo \<le> fst y \<and> fst y \<le> hi} = {y \<in> set xs. lo \<le> fst y \<and> fst y \<le> hi}"
        "(\<exists>y \<in> set (x # xs). lo \<le> fst y \<and> fst y \<le> hi) \<longleftrightarrow> (\<exists>y \<in> set xs. lo \<le> fst y \<and> fst y \<le> hi)"
      by auto
    moreover have "merge_step h lo hi x (acc, any) = (acc, any)"
      using False by (auto simp: merge_step_def)
    moreover have "\<forall>x \<in> set xs. lo \<le> fst x \<and> fst x \<le> hi \<longrightarrow> holds (snd x) (H (fst x))"
      using Cons.prems(2) by (blast intro: list.set_intros)
    note Cons.IH [OF Cons.prems(1) this, of any]
    ultimately show ?thesis
      by (simp only: fold.simps comp_apply)

  next
    case True
    with Cons.prems have "holds (snd x) (H (fst x))" by simp
    with assms(1) Cons.prems(1) obtain acc1 where
      m: "hll_Merge h acc (snd x) = (acc1, True)" "holds acc1 (A \<union> H (fst x))"
      by (rule hll_merge)
    have "{y \<in> set (x # xs). lo \<le> fst y \<and> fst y \<le> hi} = insert x {y \<in> set xs. lo \<le> fst y \<and> fst y \<le> hi}"
      using True by auto
    moreover have "merge_step h lo hi x (acc, any) = (acc1, True)"
      using True m by (simp add: merge_step_def)
    ultimately show ?thesis
      using True Cons.IH [OF m(2), of True] Cons.prems(2) by (simp add: Un_assoc)
  qed
qed

lemma window_residue:
  assumes "on_time n log" and "0 < n" and "(v, s) \<in> set log" and "cur - int n < s" and "\<forall>e \<in> set log. snd e \<le> cur"
  shows "newest n log (nat (s mod int n)) = s" and "nat (s mod int n) < n"
proof -
  let ?i = "nat (s mod int n)"
  have i: "int ?i = s mod int n" using assms(2) by simp
  show "?i < n" using assms(2) by (simp add: nat_less_iff)
  show "newest n log ?i = s"
    using assms(1,2)
  proof (cases rule: newest_cases [of n log ?i])
    case none
    with assms(3) i show ?thesis by auto
  next
    case (some w)
    have "s \<le> newest n log ?i" using some(4) assms(3) i by auto
    moreover have "newest n log ?i \<le> s"
    proof (rule same_residue_le [of _ "int n"])
      show "newest n log ?i - int n < s" using some(1) assms(4,5) by fastforce
    qed (use some i assms(2) in auto)
    ultimately show ?thesis by simp
  qed
qed

definition seen_in :: "duration \<Rightarrow> nat \<Rightarrow> time \<Rightarrow> (u64 \<times> time) list \<Rightarrow> u64 set" where
  "seen_in res n now log = {v. \<exists>t. (v, t) \<in> set log \<and> now div res - int n < t div res \<and> t div res \<le> now div res}"

lemma ring_estimate:
  assumes inv: "ring_inv h res n sparse (slotted res log) r" and timely: "on_time n (slotted res log)"
    and pos: "0 < n" "0 < res" and now: "0 \<le> now" "now \<le> max_duration"
    and before: "\<forall>(v, t) \<in> set log. t \<le> now"
    and sound: "hll_sound h (newSketch h sparse) holds est"
  shows "rolling_Estimate h now r =
    Some (est (mix ` seen_in res n now log))"
proof -
  define L where "L = slotted res log"
  define cur where "cur = now div res"
  define W where "W = {s. cur - int n + 1 \<le> s \<and> s \<le> cur}"
  define H where "H s = mix ` set (in_slot L s)" for s
  have lens: "length (r_buckets r) = n" "length (r_stamps r) = n" and res: "r_res r = res" "r_sparse r = sparse"
    and at: "\<And>j. j < n \<Longrightarrow> r_stamps r ! j = newest n L j"
    and bucket: "\<And>j. j < n \<Longrightarrow>
      r_buckets r ! j = insert_all h (in_slot L (newest n L j)) (newSketch h sparse)"

    using inv by (auto simp: ring_inv_def L_def)
  have cur: "slot r now = Some cur" "0 \<le> cur"
    using now pos by (simp_all add: slot_def res cur_def unix_nano_exact signed_divide_int_def sgn_if
      pos_imp_zdiv_nonneg_iff)
  have le: "\<forall>e \<in> set L. snd e \<le> cur"
    using before pos by (auto simp: L_def slotted_def cur_def intro!: zdiv_mono1)
  have new: "holds (newSketch h sparse) {}" using sound by (simp add: hll_sound_def)
  let ?xs = "zip (r_stamps r) (r_buckets r)"
  have xs: "(s, b) \<in> set ?xs \<longleftrightarrow> (\<exists>j < n. s = newest n L j \<and> b = r_buckets r ! j)" for s b
    using at by (auto simp: set_zip lens) metis
  have sketches: "\<forall>x \<in> set ?xs. cur - int n + 1 \<le> fst x \<and> fst x \<le> cur \<longrightarrow> holds (snd x) (H (fst x))"
    using bucket insert_all_holds [OF sound new] by (auto simp: xs H_def)


  have union: "(\<Union>x \<in> {x \<in> set ?xs. cur - int n + 1 \<le> fst x \<and> fst x \<le> cur}. H (fst x)) =
      mix ` seen_in res n now log" (is "?U = _")

  proof (intro equalityI subsetI)
    fix x assume "x \<in> ?U"
    then show "x \<in> mix ` seen_in res n now log"
      by (auto simp: H_def in_slot_def L_def slotted_def seen_in_def cur_def intro!: imageI)
  next
    fix x assume "x \<in> mix ` seen_in res n now log"
    then obtain v t where v: "x = mix v" "(v, t) \<in> set log" "cur - int n < t div res" "t div res \<le> cur"
      by (auto simp: seen_in_def cur_def)
    then have "(v, t div res) \<in> set L" by (auto simp: L_def slotted_def)


    obtain b where "(t div res, b) \<in> set ?xs"
      using window_residue [OF timely [folded L_def] pos(1) \<open>(v, t div res) \<in> set L\<close> v(3) le] by (metis xs)
    moreover have "x \<in> H (t div res)"
      using \<open>(v, t div res) \<in> set L\<close> v(1) by (force simp: H_def in_slot_def)
    ultimately show "x \<in> ?U" using v(3,4) by force
  qed
  obtain acc any where f: "fold (merge_step h (cur - int n + 1) cur) ?xs (newSketch h sparse, False) = (acc, any)"
      "any \<longleftrightarrow> (\<exists>x \<in> set ?xs. cur - int n + 1 \<le> fst x \<and> fst x \<le> cur)" "holds acc (mix ` seen_in res n now log)"
    using merge_fold [OF sound new sketches, of False] by (auto simp: union)
  have "mix ` seen_in res n now log = {}" if "\<not> any"
    using that f(2) unfolding union [symmetric] by blast
  moreover have "hll_Estimate h acc = est (mix ` seen_in res n now log)" "est {} = 0"
    using f(3) sound by (simp_all add: hll_sound_def)

  ultimately show ?thesis
    using f(1) by (auto simp: rolling_Estimate_def cur lens res)
qed

section \<open>The calendar day\<close>

lemma year_start:
  assumes "year_and_yday d = (y, k)"
  shows "d = 365 * (y - 1) + (y - 1) div 4 - (y - 1) div 100 + (y - 1) div 400 + k"
    and "0 \<le> k" and "k \<le> 365"
proof -
  define a where "a = d div 146097"
  define r where "r = d mod 146097"
  define b where "b = min 3 (r div 36524)"
  define r' where "r' = r - 36524 * b"
  define c where "c = r' div 1461"
  define r'' where "r'' = r' mod 1461"
  define e where "e = min 3 (r'' div 365)"
  have d: "d = 146097 * a + r" "0 \<le> r" "r < 146097" by (simp_all add: a_def r_def)
  have b: "0 \<le> b" "b \<le> 3" "0 \<le> r'" "r' \<le> 36524" "r = 36524 * b + r'"
    using d(2,3) div_mult_mod_eq [of r 36524] pos_mod_bound [of 36524 r] pos_mod_sign [of 36524 r]
    by (auto simp: b_def r'_def min_def)
  have c: "0 \<le> c" "c \<le> 24" "0 \<le> r''" "r'' < 1461" "r' = 1461 * c + r''"
    using b(3,4) by (simp_all add: c_def r''_def)
  have e: "0 \<le> e" "e \<le> 3" "0 \<le> r'' - 365 * e" "r'' - 365 * e \<le> 365"
    using c(3,4) div_mult_mod_eq [of r'' 365] pos_mod_bound [of 365 r''] pos_mod_sign [of 365 r'']
    by (auto simp: e_def min_def)
  have yk: "y - 1 = 400 * a + 100 * b + 4 * c + e" "k = r'' - 365 * e"
    using assms unfolding year_and_yday_def Let_def a_def [symmetric] r_def [symmetric] b_def [symmetric]
      r'_def [symmetric] c_def [symmetric] r''_def [symmetric] e_def [symmetric] by auto
  have "(y - 1) div 4 = 100 * a + 25 * b + c"
    using e(1,2) by (intro int_div_pos_eq [where r = e]) (simp_all add: yk(1))
  moreover have "(y - 1) div 100 = 4 * a + b"
    using c(1,2) e(1,2) by (intro int_div_pos_eq [where r = "4 * c + e"]) (simp_all add: yk(1))
  moreover have "(y - 1) div 400 = a"
    using b(1,2) c(1,2) e(1,2)
    by (intro int_div_pos_eq [where r = "100 * b + 4 * c + e"]) (simp_all add: yk(1))
  ultimately show "d = 365 * (y - 1) + (y - 1) div 4 - (y - 1) div 100 + (y - 1) div 400 + k"
    using d(1) b(5) c(5) yk by simp
  show "0 \<le> k" "k \<le> 365" using e yk(2) by simp_all
qed

lemma month_and_day_start:
  "month_and_day ls m0 k = (m, d) \<Longrightarrow> m0 \<le> m \<and> k = sum_list (take (nat (m - m0)) ls) + d - 1"
proof (induction ls m0 k rule: month_and_day.induct)
  case (3 l l' ls m0 k)
  show ?case
  proof (cases "k < l")
    case True
    with 3 show ?thesis by simp
  next
    case False
    with 3 have *: "m0 + 1 \<le> m" "k - l = sum_list (take (nat (m - (m0 + 1))) (l' # ls)) + d - 1" by simp_all
    then have "nat (m - m0) = Suc (nat (m - (m0 + 1)))" by simp
    with * show ?thesis by (simp only: take_Suc_Cons sum_list.Cons) simp
  qed
qed auto

lemma month_and_day_in:
  "month_and_day ls m0 k = (m, d) \<Longrightarrow> ls \<noteq> [] \<Longrightarrow> 0 \<le> k \<Longrightarrow> k < sum_list ls + e \<Longrightarrow> 0 \<le> e \<Longrightarrow>
   \<forall>l \<in> set ls. l \<le> 31 \<Longrightarrow> m0 \<le> m \<and> m < m0 + int (length ls) \<and> 1 \<le> d \<and> d \<le> 31 + e"
proof (induction ls m0 k rule: month_and_day.induct)
  case (3 l l' ls m0 k)
  then show ?case by (cases "k < l") force+
qed auto

lemma month_and_day_range:
  "month_and_day (month_lengths y) 1 k = (m, d) \<Longrightarrow> 0 \<le> k \<Longrightarrow> k \<le> 365 \<Longrightarrow> 1 \<le> m \<and> m \<le> 12 \<and> 1 \<le> d \<and> d \<le> 32"
  using month_and_day_in [of "month_lengths y" 1 k m d 1]
  by (simp add: month_lengths_def del: month_and_day.simps split: if_splits)

lemma dayKey_inj: "dayKey loc t = dayKey loc' t' \<longleftrightarrow> local_day loc t = local_day loc' t'"
proof
  assume eq: "dayKey loc t = dayKey loc' t'"
  obtain y k where y: "year_and_yday (local_day loc t) = (y, k)" by force
  obtain y' k' where y': "year_and_yday (local_day loc' t') = (y', k')" by force
  obtain m d where m: "month_and_day (month_lengths y) 1 k = (m, d)" by force
  obtain m' d' where m': "month_and_day (month_lengths y') 1 k' = (m', d')" by force
  have "y * 10000 + m * 100 + d = y' * 10000 + m' * 100 + d'"
    using eq by (simp add: dayKey_def civil_date_def y y' m m')
  moreover have "1 \<le> m \<and> m \<le> 12 \<and> 1 \<le> d \<and> d \<le> 32" "1 \<le> m' \<and> m' \<le> 12 \<and> 1 \<le> d' \<and> d' \<le> 32"
    using month_and_day_range [OF m] month_and_day_range [OF m'] year_start(2,3) [OF y] year_start(2,3) [OF y']
    by simp_all
  moreover from calculation have "y = y'" by (cases y y' rule: linorder_cases) auto
  moreover from calculation have "m = m'" by (cases m m' rule: linorder_cases) auto
  ultimately have "y = y'" "m = m'" "d = d'" by simp_all
  then have "k = k'" using month_and_day_start [OF m] month_and_day_start [OF m'] by simp
  with \<open>y = y'\<close> show "local_day loc t = local_day loc' t'"
    using year_start(1) [OF y] year_start(1) [OF y'] by simp
qed (simp add: dayKey_def)

lemma dayKey_nonzero: "dayKey loc t \<noteq> 0"
proof -
  obtain y k where y: "year_and_yday (local_day loc t) = (y, k)" by force
  obtain m d where m: "month_and_day (month_lengths y) 1 k = (m, d)" by force
  have "1 \<le> m \<and> m \<le> 12 \<and> 1 \<le> d \<and> d \<le> 32"
    using month_and_day_range [OF m] year_start(2,3) [OF y] by simp
  moreover have "dayKey loc t = y * 10000 + m * 100 + d" by (simp add: dayKey_def civil_date_def y m)
  ultimately show ?thesis by (cases y "0 :: int" rule: linorder_cases) auto
qed

definition daily_run :: "'s hll \<Rightarrow> location \<Rightarrow> (u64 \<times> time) list \<Rightarrow> 's daily \<Rightarrow> 's daily" where
  "daily_run h loc = fold (\<lambda>(v, t). daily_Insert h loc v t)"

lemma daily_inv:
  assumes "sorted (map (\<lambda>e. local_day loc (snd e)) log)" and "log \<noteq> []"
  shows "daily_run h loc log (NewDaily h) =
    \<lparr>d_day = dayKey loc (snd (last log)), d_sk = insert_all h
      (map fst (filter (\<lambda>e. local_day loc (snd e) = local_day loc (snd (last log))) log)) (hll_New14 h)\<rparr>"
  using assms
proof (induction log rule: rev_induct)
  case Nil
  then show ?case by simp
next
  case (snoc e log)
  obtain v t where e: "e = (v, t)" by (cases e)
  show ?case
  proof (cases "log = []")
    case True
    then show ?thesis
      by (simp add: e daily_run_def daily_Insert_def NewDaily_def Let_def insert_all_def dayKey_nonzero)
  next
    case False
    have "sorted (map (\<lambda>e. local_day loc (snd e)) log)"
      using snoc.prems(1) by (simp add: sorted_append)
    note IH = snoc.IH [OF this False]
    show ?thesis
    proof (cases "local_day loc (snd (last log)) = local_day loc t")
      case True
      with IH False show ?thesis
        by (simp add: e daily_run_def daily_Insert_def Let_def insert_all_def) (simp add: dayKey_def)
    next
      case new: False
      have "local_day loc (snd x) < local_day loc t" if "x \<in> set log" for x
      proof -
        have "local_day loc (snd x) \<le> local_day loc (snd (last log))"
          using snoc.prems(1) that False
          by (cases log rule: rev_cases) (auto simp: sorted_append)
        moreover have "local_day loc (snd (last log)) \<le> local_day loc t"
          using snoc.prems(1) False by (auto simp: sorted_append e)
        ultimately show ?thesis using new by simp
      qed
      then have "filter (\<lambda>x. local_day loc (snd x) = local_day loc t) log = []"
        by (fastforce simp: filter_empty_conv)
      with IH new show ?thesis
        by (auto simp: e daily_run_def daily_Insert_def Let_def insert_all_def dayKey_inj)
    qed
  qed
qed

section \<open>Panic freedom\<close>

definition ring_shape :: "duration \<Rightarrow> nat \<Rightarrow> 's rolling \<Rightarrow> bool" where
  "ring_shape res n r \<longleftrightarrow> r_res r = res \<and> length (r_buckets r) = n \<and> length (r_stamps r) = n"

lemma ring_shape_new: "ring_shape res n (NewRolling h res n sparse)"
  by (simp add: ring_shape_def NewRolling_def)

lemma ring_shape_insert:
  assumes "ring_shape res n r" and "0 < res" and "0 < n" and "0 \<le> t" and "t \<le> max_duration"
  shows "\<exists>r'. rolling_Insert h v t r = Some r' \<and> ring_shape res n r'"
proof -
  define s where "s = t div res"
  have "slot r t = Some s" "0 \<le> s"
    using assms by (simp_all add: slot_def ring_shape_def unix_nano_exact signed_divide_int_def sgn_if
      pos_imp_zdiv_nonneg_iff s_def)
  moreover have "\<not> s mod int n < 0" "\<not> int n \<le> s mod int n"
    using assms(3) by (simp_all add: not_less not_le)
  moreover have "s smod int n = s mod int n"
    using \<open>0 \<le> s\<close> assms(3) by (simp add: signed_modulo_int_def sgn_if)
  ultimately show ?thesis
    using assms(1,3) by (auto simp: rolling_Insert_def Let_def ring_shape_def)
qed

definition windows_shape :: "'s windows \<Rightarrow> bool" where
  "windows_shape w \<longleftrightarrow>
     ring_shape minute_ns 5 (w_Active w) \<and> ring_shape (5 * minute_ns) 12 (w_H1 w) \<and>
     ring_shape hour_ns 24 (w_D1 w) \<and> ring_shape (24 * hour_ns) 7 (w_D7 w) \<and>
     ring_shape (24 * hour_ns) 30 (w_D30 w)"

lemma windows_shape_new: "windows_shape (NewWindows h)"
  by (simp add: windows_shape_def NewWindows_def ring_shape_def NewRolling_def)

lemma windows_shape_insert:
  assumes "windows_shape w" and "0 \<le> t" and "t \<le> max_duration"
  shows "\<exists>w'. windows_Insert h loc v t w = Some w' \<and> windows_shape w'"
proof -
  note shape = assms(1) [unfolded windows_shape_def]
  have steps: "0 < minute_ns" "0 < 5 * minute_ns" "0 < hour_ns" "0 < 24 * hour_ns" by simp_all
  obtain a where a: "rolling_Insert h v t (w_Active w) = Some a" "ring_shape minute_ns 5 a"
    using ring_shape_insert [of minute_ns 5 "w_Active w" t h v] shape steps assms by auto
  obtain b where b: "rolling_Insert h v t (w_H1 w) = Some b" "ring_shape (5 * minute_ns) 12 b"
    using ring_shape_insert [of "5 * minute_ns" 12 "w_H1 w" t h v] shape steps assms by auto
  obtain c where c: "rolling_Insert h v t (w_D1 w) = Some c" "ring_shape hour_ns 24 c"
    using ring_shape_insert [of hour_ns 24 "w_D1 w" t h v] shape steps assms by auto
  obtain d where d: "rolling_Insert h v t (w_D7 w) = Some d" "ring_shape (24 * hour_ns) 7 d"
    using ring_shape_insert [of "24 * hour_ns" 7 "w_D7 w" t h v] shape steps assms by auto
  obtain e where e: "rolling_Insert h v t (w_D30 w) = Some e" "ring_shape (24 * hour_ns) 30 e"
    using ring_shape_insert [of "24 * hour_ns" 30 "w_D30 w" t h v] shape steps assms by auto
  show ?thesis
    using a b c d e by (simp add: windows_Insert_def windows_shape_def)
qed

lemma rolling_estimate_total: "ring_shape res n r \<Longrightarrow> 0 < res \<Longrightarrow> \<exists>e. rolling_Estimate h t r = Some e"
  by (auto simp: rolling_Estimate_def slot_def ring_shape_def Let_def split: prod.split)

section \<open>Properties\<close>

text \<open>An exact sketch, for the witnesses.\<close>

definition exact_hll :: "u64 set hll" where
  "exact_hll = \<lparr>hll_New14 = {}, hll_NewSketch = (\<lambda>_ _. Some {}), hll_InsertHash = insert,
     hll_Merge = (\<lambda>a b. (a \<union> b, True)), hll_Estimate = (\<lambda>s. word_of_nat (card s))\<rparr>"

lemma exact_hll_sound: "hll_sound exact_hll {} (=) (\<lambda>s. word_of_nat (card s))"
  by (auto simp: hll_sound_def exact_hll_def)

text \<open>
  The hash finalizer loses nothing: \<open>mix\<close> is a bijection of the 64-bit words, with
  \<open>unmix\<close> its inverse, so distinct visitors keep distinct hashes.
\<close>

theorem mix_bijective: "unmix (mix x) = x \<and> mix (unmix x) = x"
  by (simp add: unmix_mix mix_unmix)

text \<open>
  The ring is an exact sliding window. Whatever visitors are inserted, as long as no
  insertion lies a whole ring behind an earlier one, nothing panics and the estimate at \<open>now\<close> is the
  estimate of one sketch fed exactly the visitors seen in the last \<open>n\<close> slots: recycling a
  bucket never loses a visitor in the window nor keeps one that has left it.
\<close>

theorem rolling_counts_the_window:
  assumes "hll_sound h (newSketch h sparse) holds est"
    and "sorted_wrt (\<lambda>a b. snd a div res - int n < snd b div res) log" and "0 < n" and "0 < res"
    and "\<forall>e \<in> set log. 0 \<le> snd e \<and> snd e \<le> now" and "0 \<le> now" and "now \<le> max_duration"
  shows "\<exists>r. rolling_run h log (NewRolling h res n sparse) = Some r \<and>
    rolling_Estimate h now r =
      Some (est (mix ` {v. \<exists>t. (v, t) \<in> set log \<and> now div res - int n < t div res}))"
proof -
  have ot: "on_time n (slotted res log)"
    using assms(2,4,5)
    by (auto simp: on_time_def slotted_def sorted_wrt_map case_prod_beta pos_imp_zdiv_nonneg_iff
      elim!: sorted_wrt_mono_rel [rotated])
  have "\<forall>(v, t) \<in> set log. 0 \<le> t \<and> t \<le> max_duration"
    using assms(5,7) by auto
  from ring_inv_run [OF ot assms(3,4) this] obtain r where
    r: "rolling_run h log (NewRolling h res n sparse) = Some r" "ring_inv h res n sparse (slotted res log) r"
    by blast
  have "\<forall>(v, t) \<in> set log. t \<le> now" using assms(5) by auto
  from ring_estimate [OF r(2) ot assms(3,4,6,7) this assms(1)]
  have "rolling_Estimate h now r = Some (est (mix ` seen_in res n now log))" .
  moreover have "seen_in res n now log = {v. \<exists>t. (v, t) \<in> set log \<and> now div res - int n < t div res}"
    using assms(4,5) by (fastforce simp: seen_in_def intro: zdiv_mono1)
  ultimately show ?thesis using r(1) by simp
qed

theorem rolling_counts_the_window_witness:
  "\<exists>r. rolling_run exact_hll [(7, 10), (8, 130)] (NewRolling exact_hll 60 2 False) = Some r \<and>
    rolling_Estimate exact_hll 150 r =
      Some (word_of_nat (card (mix ` {v. \<exists>t. (v, t) \<in> set [(7, 10), (8, 130)] \<and> 150 div 60 - int 2 < t div 60})))"
  by (rule rolling_counts_the_window [where holds = "(=)"])
    (use exact_hll_sound in \<open>simp_all add: newSketch_def exact_hll_def\<close>)

text \<open>
  C22: \<open>Today\<close> starts over exactly at local midnight: with insertions in order of calendar day,
  the estimate at \<open>now\<close> is that of one sketch fed exactly the visitors of \<open>now\<close>'s calendar
  day in the site's time zone, and 0 when there were none.
\<close>

theorem daily_counts_the_calendar_day:
  assumes "hll_sound h (hll_New14 h) holds est"
    and "sorted (map (local_day loc) (map snd log @ [now]))"
  shows "daily_Estimate h loc now (daily_run h loc log (NewDaily h)) =
    est (mix ` {v. \<exists>t. (v, t) \<in> set log \<and> local_day loc t = local_day loc now})"
proof (cases "log = []")
  case True
  with assms(1) show ?thesis
    by (simp add: daily_run_def daily_Estimate_def NewDaily_def dayKey_nonzero hll_sound_def)
next
  case False
  let ?d = "local_day loc"
  have "sorted (map (\<lambda>e. ?d (snd e)) log)" using assms(2) by (simp add: sorted_append comp_def)
  note run = daily_inv [OF this False, of h]
  have le: "\<forall>e \<in> set log. ?d (snd e) \<le> ?d (snd (last log))"
    using assms(2) False by (cases log rule: rev_cases) (auto simp: sorted_append)
  show ?thesis
  proof (cases "?d (snd (last log)) = ?d now")
    case True
    have "hll_Estimate h (insert_all h ids (hll_New14 h)) = est (mix ` set ids)" for ids
      using insert_all_holds [OF assms(1), of "hll_New14 h" "{}" ids] assms(1) by (simp add: hll_sound_def)
    moreover have "set (map fst (filter (\<lambda>e. ?d (snd e) = ?d now) log)) = {v. \<exists>t. (v, t) \<in> set log \<and> ?d t = ?d now}"
      by force
    ultimately show ?thesis using True by (simp add: daily_Estimate_def run dayKey_inj)
  next
    case False
    then have "?d (snd (last log)) < ?d now"
      using assms(2) \<open>log \<noteq> []\<close> by (simp add: sorted_append order_less_le)
    with le have "mix ` {v. \<exists>t. (v, t) \<in> set log \<and> ?d t = ?d now} = {}" by force
    moreover have "est {} = 0" using assms(1) by (simp add: hll_sound_def)
    moreover have "daily_Estimate h loc now (daily_run h loc log (NewDaily h)) = 0"
      using False by (simp add: daily_Estimate_def run dayKey_inj)
    ultimately show ?thesis by (simp only:)
  qed
qed

theorem daily_counts_the_calendar_day_witness:
  "daily_Estimate exact_hll (\<lambda>_. hour_ns) (24 * hour_ns)
      (daily_run exact_hll (\<lambda>_. hour_ns) [(1, 0), (2, 23 * hour_ns)] (NewDaily exact_hll)) =
    word_of_nat (card (mix ` {v. \<exists>t. (v, t) \<in> set [(1, 0), (2, 23 * hour_ns)] \<and>
      local_day (\<lambda>_. hour_ns) t = local_day (\<lambda>_. hour_ns) (24 * hour_ns)}))"
  by (rule daily_counts_the_calendar_day [where holds = "(=)"])
    (use exact_hll_sound in \<open>simp_all add: exact_hll_def local_day_def\<close>)

text \<open>
  Feeding the windows never panics: from the rings \<open>NewWindows\<close> builds, any sequence of
  visitors at instants from the Unix epoch on, in whatever order, runs through all six
  windows, and every window can then be estimated at any instant.
\<close>

theorem windows_never_panic:
  assumes "\<forall>e \<in> set log. 0 \<le> snd e \<and> snd e \<le> max_duration"
  shows "\<exists>w. loop_opt (\<lambda>(v, t). windows_Insert h loc v t) log (NewWindows h) = Some w \<and>
    (\<forall>r \<in> {w_Active w, w_H1 w, w_D1 w, w_D7 w, w_D30 w}. \<forall>now. rolling_Estimate h now r \<noteq> None)"
proof -
  have "\<exists>w. loop_opt (\<lambda>(v, t). windows_Insert h loc v t) log (NewWindows h) = Some w \<and> windows_shape w"
    using assms by (intro loop_opt_total windows_shape_new) (auto intro!: windows_shape_insert)
  then obtain w where w: "loop_opt (\<lambda>(v, t). windows_Insert h loc v t) log (NewWindows h) = Some w"
      "windows_shape w" by blast
  have "\<exists>res n. ring_shape res n r \<and> 0 < res"
    if "r \<in> {w_Active w, w_H1 w, w_D1 w, w_D7 w, w_D30 w}" for r
  proof -
    have "0 < minute_ns" "0 < 5 * minute_ns" "0 < hour_ns" "0 < 24 * hour_ns" by simp_all
    with that w(2) show ?thesis unfolding windows_shape_def by blast
  qed
  then show ?thesis
    using w(1) rolling_estimate_total by (metis option.distinct(1))

qed

theorem windows_never_panic_witness:
  "\<exists>w. loop_opt (\<lambda>(v, t). windows_Insert exact_hll (\<lambda>_. 0) v t) [(1, 5000), (2, 0)] (NewWindows exact_hll) = Some w"
  using windows_never_panic [of "[(1, 5000), (2, 0)]" exact_hll "\<lambda>_. 0"] by simp blast

end
