(* ===== verification/GoStrings.thy ===== *)
theory GoStrings
  imports Prelude
begin

text \<open>
  Go strings: byte sequences, read as UTF-8 by \<open>range\<close> loops and by the functions of the
  packages \<open>strings\<close> and \<open>unicode/utf8\<close> that the program calls.

  \<^item> A \<open>string\<close> is a list of characters, each a byte. \<open>decode_rune\<close>, \<open>chunks\<close> and
    \<open>valid_utf8\<close> are the decoding; an invalid byte reads as the rune \<open>U+FFFD\<close> of width one.
  \<^item> \<open>ToLower\<close>, \<open>TrimSpace\<close> and the rest are the functions of the package \<open>strings\<close>. Case
    mapping beyond ASCII is the Unicode table, the parameter \<open>lower\<close>.
\<close>

section \<open>Bytes and runes\<close>

abbreviation byte :: "char \<Rightarrow> int" where "byte c \<equiv> of_char c"
abbreviation rune_error :: int where "rune_error \<equiv> 0xFFFD"

definition cont_in :: "int \<Rightarrow> int \<Rightarrow> char \<Rightarrow> bool" where
  "cont_in lo hi c \<longleftrightarrow> lo \<le> byte c \<and> byte c \<le> hi"

abbreviation cont :: "char \<Rightarrow> bool" where "cont \<equiv> cont_in 0x80 0xBF"

text \<open>\<open>utf8.DecodeRuneInString\<close>: the rune and its width in bytes.\<close>

fun decode_rune :: "string \<Rightarrow> int \<times> nat" where
  "decode_rune [] = (rune_error, 0)"
| "decode_rune (a # s) =
     (if byte a < 0x80 then (byte a, 1)
      else if 0xC2 \<le> byte a \<and> byte a \<le> 0xDF then
        (case s of
           b # _ \<Rightarrow> if cont b then (byte a mod 32 * 64 + byte b mod 64, 2) else (rune_error, 1)
         | _ \<Rightarrow> (rune_error, 1))
      else if 0xE0 \<le> byte a \<and> byte a \<le> 0xEF then
        (case s of
           b # c # _ \<Rightarrow>
             if cont_in (if byte a = 0xE0 then 0xA0 else 0x80) (if byte a = 0xED then 0x9F else 0xBF) b \<and> cont c
             then (byte a mod 16 * 4096 + byte b mod 64 * 64 + byte c mod 64, 3)
             else (rune_error, 1)
         | _ \<Rightarrow> (rune_error, 1))
      else if 0xF0 \<le> byte a \<and> byte a \<le> 0xF4 then
        (case s of
           b # c # d # _ \<Rightarrow>
             if cont_in (if byte a = 0xF0 then 0x90 else 0x80) (if byte a = 0xF4 then 0x8F else 0xBF) b \<and>
                cont c \<and> cont d
             then (byte a mod 8 * 262144 + byte b mod 64 * 4096 + byte c mod 64 * 64 + byte d mod 64, 4)
             else (rune_error, 1)
         | _ \<Rightarrow> (rune_error, 1))
      else (rune_error, 1))"

lemma decode_width: "s \<noteq> [] \<Longrightarrow> 1 \<le> snd (decode_rune s) \<and> snd (decode_rune s) \<le> length s"
  by (cases s) (auto split: list.split)

text \<open>The string cut where a \<open>range\<close> loop advances: each rune with its bytes.\<close>

function chunks :: "string \<Rightarrow> (int \<times> string) list" where
  "chunks s =
     (if s = [] then []
      else let (r, w) = decode_rune s in (r, take w s) # chunks (drop w s))"
  by pat_completeness auto
termination
  using decode_width by (relation "measure length") (auto, metis Suc_le_eq diff_less length_greater_0_conv snd_conv)

declare chunks.simps [simp del]

fun range_loop :: "nat \<Rightarrow> (int \<times> string) list \<Rightarrow> (nat \<times> int) list" where
  "range_loop i [] = []"
| "range_loop i ((r, bs) # cs) = (i, r) # range_loop (i + length bs) cs"

text \<open>The pairs \<open>for i, r := range s\<close> yields.\<close>

definition runes :: "string \<Rightarrow> (nat \<times> int) list" where
  "runes s = range_loop 0 (chunks s)"

definition valid_utf8 :: "string \<Rightarrow> bool" where
  "valid_utf8 s \<longleftrightarrow> (\<forall>(r, bs) \<in> set (chunks s). \<not> (r = rune_error \<and> length bs = 1))"

definition is_ascii :: "string \<Rightarrow> bool" where
  "is_ascii s \<longleftrightarrow> (\<forall>c \<in> set s. byte c < 0x80)"

text \<open>\<open>utf8.AppendRune\<close> on the empty string.\<close>

definition encode_rune :: "int \<Rightarrow> string" where
  "encode_rune r =
     (let r = (if r < 0 \<or> 0x10FFFF < r \<or> 0xD800 \<le> r \<and> r \<le> 0xDFFF then rune_error else r)
      in if r < 0x80 then [char_of r]
      else if r < 0x800 then [char_of (0xC0 + r div 64), char_of (0x80 + r mod 64)]
      else if r < 0x10000 then
        [char_of (0xE0 + r div 4096), char_of (0x80 + r div 64 mod 64), char_of (0x80 + r mod 64)]
      else
        [char_of (0xF0 + r div 262144), char_of (0x80 + r div 4096 mod 64),
         char_of (0x80 + r div 64 mod 64), char_of (0x80 + r mod 64)])"

section \<open>The package strings\<close>

definition lower_byte :: "char \<Rightarrow> char" where
  "lower_byte c = (if 65 \<le> byte c \<and> byte c \<le> 90 then char_of (byte c + 32) else c)"

definition lower_rune :: "(int \<Rightarrow> int) \<Rightarrow> int \<Rightarrow> int" where
  "lower_rune lower r = (if r < 0x80 then (if 65 \<le> r \<and> r \<le> 90 then r + 32 else r) else lower r)"

definition ToLower :: "(int \<Rightarrow> int) \<Rightarrow> string \<Rightarrow> string" where
  "ToLower lower s =
     (if is_ascii s then map lower_byte s
      else concat (map (\<lambda>(r, _). encode_rune (lower_rune lower r)) (chunks s)))"

definition upper_byte :: "char \<Rightarrow> char" where
  "upper_byte c = (if 97 \<le> byte c \<and> byte c \<le> 122 then char_of (byte c - 32) else c)"

definition ToUpper :: "(int \<Rightarrow> int) \<Rightarrow> string \<Rightarrow> string" where
  "ToUpper upper s =
     (if is_ascii s then map upper_byte s
      else concat (map (\<lambda>(r, _). encode_rune (upper r)) (chunks s)))"

text \<open>\<open>strings.EqualFold\<close>; the parameter is a representative of each rune's case orbit.\<close>

definition EqualFold :: "(int \<Rightarrow> int) \<Rightarrow> string \<Rightarrow> string \<Rightarrow> bool" where
  "EqualFold orbit s t \<longleftrightarrow> map (orbit \<circ> fst) (chunks s) = map (orbit \<circ> fst) (chunks t)"

definition is_space :: "int \<Rightarrow> bool" where
  "is_space r \<longleftrightarrow> 9 \<le> r \<and> r \<le> 13 \<or> r \<in> {0x20, 0x85, 0xA0, 0x1680, 0x2028, 0x2029, 0x202F, 0x205F, 0x3000} \<or>
     0x2000 \<le> r \<and> r \<le> 0x200A"

definition TrimSpace :: "string \<Rightarrow> string" where
  "TrimSpace s =
     concat (map snd (rev (dropWhile (is_space \<circ> fst) (rev (dropWhile (is_space \<circ> fst) (chunks s))))))"

fun HasPrefix :: "string \<Rightarrow> string \<Rightarrow> bool" where
  "HasPrefix s [] = True"
| "HasPrefix [] (_ # _) = False"
| "HasPrefix (c # s) (d # p) = (c = d \<and> HasPrefix s p)"

definition HasSuffix :: "string \<Rightarrow> string \<Rightarrow> bool" where
  "HasSuffix s p = HasPrefix (rev s) (rev p)"

definition TrimPrefix :: "string \<Rightarrow> string \<Rightarrow> string" where
  "TrimPrefix s p = (if HasPrefix s p then drop (length p) s else s)"

definition TrimSuffix :: "string \<Rightarrow> string \<Rightarrow> string" where
  "TrimSuffix s p = (if HasSuffix s p then take (length s - length p) s else s)"

definition TrimRight1 :: "string \<Rightarrow> char \<Rightarrow> string" where
  "TrimRight1 s c = rev (dropWhile (\<lambda>d. d = c) (rev s))"

fun Contains :: "string \<Rightarrow> string \<Rightarrow> bool" where
  "Contains [] p = (p = [])"
| "Contains (c # s) p = (HasPrefix (c # s) p \<or> Contains s p)"

text \<open>\<open>strings.Split\<close> at a one-byte separator, and \<open>strings.Join\<close>.\<close>

fun Split :: "string \<Rightarrow> char \<Rightarrow> string list" where
  "Split [] sep = [[]]"
| "Split (c # s) sep =
     (if c = sep then [] # Split s sep
      else (case Split s sep of [] \<Rightarrow> [[c]] | p # ps \<Rightarrow> (c # p) # ps))"

fun Join :: "string list \<Rightarrow> string \<Rightarrow> string" where
  "Join [] sep = []"
| "Join [s] sep = s"
| "Join (s # t # ss) sep = s @ sep @ Join (t # ss) sep"

text \<open>\<open>strings.Cut\<close> at a one-byte separator, and the cut at its last occurrence.\<close>

definition Cut :: "string \<Rightarrow> char \<Rightarrow> string \<times> string \<times> bool" where
  "Cut s sep =
     (let pre = takeWhile (\<lambda>c. c \<noteq> sep) s
      in (pre, drop (Suc (length pre)) s, sep \<in> set s))"

definition CutLast :: "string \<Rightarrow> char \<Rightarrow> (string \<times> string) option" where
  "CutLast s sep =
     (if sep \<in> set s then
        (let after = rev (takeWhile (\<lambda>c. c \<noteq> sep) (rev s))
         in Some (take (length s - Suc (length after)) s, after))
      else None)"

section \<open>Lemmas\<close>

lemma byte_range [simp]: "0 \<le> byte c" "byte c < 256"
proof -
  have "byte c mod 256 = byte c" by (rule of_char_mod_256)
  then show "0 \<le> byte c" "byte c < 256"
    using pos_mod_sign [of 256 "byte c"] pos_mod_bound [of 256 "byte c"] by simp_all
qed

lemma chunks_Nil [simp]: "chunks [] = []"
  by (simp add: chunks.simps)

lemma chunks_ascii: "byte c < 0x80 \<Longrightarrow> chunks (c # s) = (byte c, [c]) # chunks s"
  by (simp add: chunks.simps [of "c # s"])

lemma concat_chunks: "concat (map snd (chunks s)) = s"
proof (induction s rule: chunks.induct)
  case (1 s)
  then show ?case
    by (cases "s = []") (auto simp: chunks.simps [of s] split: prod.split)
qed

lemma chunks_is_ascii: "is_ascii s \<Longrightarrow> chunks s = map (\<lambda>c. (byte c, [c])) s"
  by (induction s) (simp_all add: is_ascii_def chunks_ascii)

lemma TrimSpace_ascii:
  "is_ascii s \<Longrightarrow> TrimSpace s = rev (dropWhile (is_space \<circ> byte) (rev (dropWhile (is_space \<circ> byte) s)))"
proof -
  assume a: "is_ascii s"
  have drop: "dropWhile (is_space \<circ> fst) (map (\<lambda>c. (byte c, [c])) t) =
      map (\<lambda>c. (byte c, [c])) (dropWhile (is_space \<circ> byte) t)" for t
    by (simp add: dropWhile_map comp_def)
  have "concat (map snd (map (\<lambda>c. (byte c, [c])) t)) = t" for t
    by (induction t) simp_all
  then show ?thesis
    unfolding TrimSpace_def chunks_is_ascii [OF a] drop rev_map [symmetric] by (simp only: drop rev_map)
qed

lemma valid_utf8_ascii: "is_ascii s \<Longrightarrow> valid_utf8 s"
  by (auto simp: valid_utf8_def chunks_is_ascii is_ascii_def)

lemma HasPrefix_iff: "HasPrefix s p \<longleftrightarrow> (\<exists>t. s = p @ t)"
  by (induction s p rule: HasPrefix.induct) auto

lemma HasSuffix_iff: "HasSuffix s p \<longleftrightarrow> (\<exists>t. s = t @ p)"
  unfolding HasSuffix_def HasPrefix_iff by (metis rev_append rev_rev_ident)

lemma Contains_iff: "Contains s p \<longleftrightarrow> (\<exists>u t. s = u @ p @ t)"
proof (induction s p rule: Contains.induct)
  case (2 c s p)
  have "(\<exists>u t. c # s = u @ p @ t) \<longleftrightarrow> (\<exists>t. c # s = p @ t) \<or> (\<exists>u t. s = u @ p @ t)"
    by (auto simp: Cons_eq_append_conv)
  with 2 show ?case by (simp add: HasPrefix_iff)
qed auto

lemma Split_nonempty [simp]: "Split s sep \<noteq> []"
  by (induction s) (auto split: list.split)

lemma Join_Split: "Join (Split s sep) [sep] = s"
proof (induction s)
  case (Cons c s)
  show ?case
  proof (cases "Split s sep")
    case Nil
    then show ?thesis by simp
  next
    case (Cons p ps)
    then show ?thesis using \<open>Join (Split s sep) [sep] = s\<close> by (cases ps) auto
  qed
qed simp

lemma Split_no_sep: "p \<in> set (Split s sep) \<Longrightarrow> sep \<notin> set p"
  by (induction s arbitrary: p) (auto split: if_splits list.splits)

lemma Split_append_sep: "sep \<notin> set p \<Longrightarrow> Split (p @ sep # s) sep = p # Split s sep"
  by (induction p) auto

lemma Split_id: "sep \<notin> set p \<Longrightarrow> Split p sep = [p]"
  by (induction p) auto

lemma Split_Join:
  "ps \<noteq> [] \<Longrightarrow> \<forall>p \<in> set ps. sep \<notin> set p \<Longrightarrow> Split (Join ps [sep]) sep = ps"
  by (induction ps "[sep]" rule: Join.induct) (auto simp: Split_id Split_append_sep)

lemma lower_byte_range: "byte (lower_byte c) = (if 65 \<le> byte c \<and> byte c \<le> 90 then byte c + 32 else byte c)"
  by (auto simp: lower_byte_def of_char_of)

lemma lower_byte_idem [simp]: "lower_byte (lower_byte c) = lower_byte c"
  using lower_byte_range [of c] by (auto simp: lower_byte_def [of "lower_byte c"])

lemma is_ascii_lower: "is_ascii s \<Longrightarrow> is_ascii (ToLower lower s)"
  by (auto simp: is_ascii_def ToLower_def lower_byte_range)

lemma ToLower_idem: "is_ascii s \<Longrightarrow> ToLower lower (ToLower lower s) = ToLower lower s"
  using is_ascii_lower [of s lower] by (simp add: ToLower_def)

section \<open>Encoding\<close>

definition scalar :: "int \<Rightarrow> bool" where
  "scalar r \<longleftrightarrow> 0 \<le> r \<and> r \<le> 0x10FFFF \<and> \<not> (0xD800 \<le> r \<and> r \<le> 0xDFFF)"

lemma scalar_cases [consumes 1, case_names one two three four]:
  assumes "scalar r"
  obtains "0 \<le> r" "r < 0x80" | "0x80 \<le> r" "r < 0x800"
    | "0x800 \<le> r" "r < 0x10000" "\<not> (0xD800 \<le> r \<and> r \<le> 0xDFFF)" | "0x10000 \<le> r" "r \<le> 0x10FFFF"
  using assms unfolding scalar_def by linarith

lemma digits64:
  obtains q c :: int where "r = q * 64 + c" "0 \<le> c" "c < 64" "r div 64 = q" "r mod 64 = c"
  by (rule that [of "r div 64" "r mod 64"]) simp_all

lemma mod_drop_base: "0 \<le> a \<Longrightarrow> a < m \<Longrightarrow> (k * m + a) mod m = (a :: int)"
  by simp

lemma lead_bits:
  "0 \<le> a \<Longrightarrow> a < 32 \<Longrightarrow> (192 + a) mod 32 = (a :: int)"
  "0 \<le> a \<Longrightarrow> a < 16 \<Longrightarrow> (224 + a) mod 16 = (a :: int)"
  "0 \<le> a \<Longrightarrow> a < 8 \<Longrightarrow> (240 + a) mod 8 = (a :: int)"
  "0 \<le> a \<Longrightarrow> a < 64 \<Longrightarrow> (128 + a) mod 64 = (a :: int)"
  using mod_drop_base [of a 32 6] mod_drop_base [of a 16 14] mod_drop_base [of a 8 30] mod_drop_base [of a 64 2]
  by simp_all

lemma cont_char: "0 \<le> a \<Longrightarrow> a < 64 \<Longrightarrow> cont (char_of (128 + a :: int))"
  by (simp add: cont_in_def)

lemma byte_char_of: "0 \<le> a \<Longrightarrow> a < 256 \<Longrightarrow> byte (char_of a) = a"
  by simp

lemma decode_encode_1: "0 \<le> r \<Longrightarrow> r < 0x80 \<Longrightarrow> decode_rune (encode_rune r @ s) = (r, length (encode_rune r))"
  by (simp add: encode_rune_def)

lemma decode_encode_2:
  assumes "0x80 \<le> r" "r < 0x800"
  shows "decode_rune (encode_rune r @ s) = (r, length (encode_rune r))"
proof -
  obtain a b where r: "r = a * 64 + b" "0 \<le> b" "b < 64" "r div 64 = a" "r mod 64 = b" by (rule digits64)
  have a: "2 \<le> a" "a < 32" using r assms by simp_all
  have "encode_rune r = [char_of (0xC0 + a), char_of (0x80 + b)]"
    using assms r by (simp add: encode_rune_def)
  with a r show ?thesis
    by (simp add: cont_in_def byte_char_of lead_bits del: of_char_of)
qed

lemma decode_encode_3:
  assumes "0x800 \<le> r" "r < 0x10000" "\<not> (0xD800 \<le> r \<and> r \<le> 0xDFFF)"
  shows "decode_rune (encode_rune r @ s) = (r, length (encode_rune r))"
proof -
  obtain q c where r: "r = q * 64 + c" "0 \<le> c" "c < 64" "r div 64 = q" "r mod 64 = c" by (rule digits64)
  obtain a b where q: "q = a * 64 + b" "0 \<le> b" "b < 64" "q div 64 = a" "q mod 64 = b" by (rule digits64)
  have "r div 4096 = a" using r(4) q(4) by (simp add: zdiv_zmult2_eq [of 64 r 64, simplified])
  then have enc: "encode_rune r = [char_of (0xE0 + a), char_of (0x80 + b), char_of (0x80 + c)]"
    using assms r q by (auto simp: encode_rune_def)
  have a: "0 \<le> a" "a < 16" "a = 0 \<Longrightarrow> 32 \<le> b" "a = 13 \<Longrightarrow> b \<le> 31"
    using r(1-3) q(1-3) assms by auto
  have second: "cont_in (if a = 0 then 160 else 128) (if a = 13 then 159 else 191) (char_of (128 + b))"
    using a q(2,3) by (simp add: cont_in_def)
  have "decode_rune (encode_rune r @ s) = (a * 4096 + b * 64 + c, 3)"
    using a r(2,3) q(2,3) second by (simp add: enc cont_char byte_char_of lead_bits del: of_char_of)
  moreover have "r = a * 4096 + b * 64 + c" using r(1) q(1) by simp
  moreover have "length (encode_rune r) = 3" by (simp add: enc)
  ultimately show ?thesis by simp
qed

lemma decode_encode_4:
  assumes "0x10000 \<le> r" "r \<le> 0x10FFFF"
  shows "decode_rune (encode_rune r @ s) = (r, length (encode_rune r))"
proof -
  obtain q d where r: "r = q * 64 + d" "0 \<le> d" "d < 64" "r div 64 = q" "r mod 64 = d" by (rule digits64)
  obtain p c where q: "q = p * 64 + c" "0 \<le> c" "c < 64" "q div 64 = p" "q mod 64 = c" by (rule digits64)
  obtain a b where p: "p = a * 64 + b" "0 \<le> b" "b < 64" "p div 64 = a" "p mod 64 = b" by (rule digits64)
  have "r div 4096 = p" using r(4) q(4) by (simp add: zdiv_zmult2_eq [of 64 r 64, simplified])
  moreover from this have "r div 262144 = a" using p(4) by (simp add: zdiv_zmult2_eq [of 64 r 4096, simplified])
  ultimately have enc: "encode_rune r =
      [char_of (0xF0 + a), char_of (0x80 + b), char_of (0x80 + c), char_of (0x80 + d)]"
    using assms by (simp add: encode_rune_def r(4,5) q(5) p(5))
  have whole: "r = a * 262144 + b * 4096 + c * 64 + d" using r(1) q(1) p(1) by simp
  have low: "0 \<le> b * 4096 + c * 64 + d" "b * 4096 + c * 64 + d < 262144"
    using r(2,3) q(2,3) p(2,3) by simp_all
  have a: "0 \<le> a" "a < 5"
    using whole low assms by simp_all
  have b0: "16 \<le> b" if "a = 0" using whole assms(1) r(3) q(3) that by simp
  have b4: "b \<le> 15" if "a = 4" using whole assms(2) r(2) q(2) that by simp
  have second: "cont_in (if a = 0 then 144 else 128) (if a = 4 then 143 else 191) (char_of (128 + b))"
    using p(2,3) b0 b4 by (simp add: cont_in_def)
  have "decode_rune (encode_rune r @ s) = (a * 262144 + b * 4096 + c * 64 + d, 4)"
    using a r(2,3) q(2,3) p(2,3) second by (simp add: enc cont_char byte_char_of lead_bits del: of_char_of)
  moreover have "length (encode_rune r) = 4" by (simp add: enc)
  ultimately show ?thesis using whole by simp
qed

lemma decode_encode: "scalar r \<Longrightarrow> decode_rune (encode_rune r @ s) = (r, length (encode_rune r))"
  by (erule scalar_cases)
    (erule (1) decode_encode_1, erule (1) decode_encode_2, erule (2) decode_encode_3, erule (1) decode_encode_4)

lemma encode_rune_nonempty: "encode_rune r \<noteq> []"
  by (simp add: encode_rune_def Let_def)

lemma chunks_encode: "scalar r \<Longrightarrow> chunks (encode_rune r @ s) = (r, encode_rune r) # chunks s"
  by (simp add: chunks.simps [of "encode_rune r @ s"] decode_encode encode_rune_nonempty)

lemma encode_rune_scalar: "\<exists>r'. scalar r' \<and> encode_rune r = encode_rune r'"
  by (rule exI [of _ "if scalar r then r else rune_error"]) (auto simp: scalar_def encode_rune_def)

lemma chunks_encoded:
  "\<forall>r \<in> set rs. scalar r \<Longrightarrow> chunks (concat (map encode_rune rs) @ s) = map (\<lambda>r. (r, encode_rune r)) rs @ chunks s"
  by (induction rs) (simp_all add: chunks_encode)

lemma rune_error_width: "length (encode_rune rune_error) = 3"
  by (simp add: encode_rune_def)

lemma encode_scalars: "\<exists>rs'. (\<forall>r \<in> set rs'. scalar r) \<and> map encode_rune rs = map encode_rune rs'"
proof (induction rs)
  case (Cons r rs)
  then obtain rs' where "\<forall>r \<in> set rs'. scalar r" "map encode_rune rs = map encode_rune rs'" by blast
  moreover obtain r' where "scalar r'" "encode_rune r = encode_rune r'" using encode_rune_scalar by blast
  ultimately show ?case by (intro exI [of _ "r' # rs'"]) simp
qed simp

lemma valid_encoded: "valid_utf8 (concat (map encode_rune rs))"
proof -
  obtain rs' where rs': "\<forall>r \<in> set rs'. scalar r" "map encode_rune rs = map encode_rune rs'"
    using encode_scalars by blast
  show ?thesis
    using chunks_encoded [OF rs'(1), of "[]"] rune_error_width by (auto simp: valid_utf8_def rs'(2))
qed

lemma valid_ToLower: "valid_utf8 (ToLower lower s)"
proof (cases "is_ascii s")
  case True
  then show ?thesis by (intro valid_utf8_ascii is_ascii_lower)
next
  case False
  then show ?thesis
    using valid_encoded [of "map (lower_rune lower \<circ> fst) (chunks s)"]
    by (simp add: ToLower_def comp_def case_prod_beta')
qed

end
