(* ===== verification/Config.thy ===== *)
theory Config
  imports GoStrings Rolling
begin

text \<open>
  The configuration of \<open>internal/config/config.go\<close>: the records the YAML decoder and the
  environment fill, and \<open>finalize\<close>, which validates them and fills the defaults in.

  \<^item> \<open>defaults\<close>, \<open>site\<close>, \<open>server\<close>, \<open>geo\<close>, \<open>config\<close>: the code's structs; a nil slice is
    \<open>None\<close>. The loader's errors are the datatype \<open>config_error\<close>.
  \<^item> \<open>platform\<close>: what lies outside the repository, as parameters: the Unicode case table, the
    time zone database, the regular expression engine.
  \<^item> \<open>acceptable\<close>, \<open>built_site\<close>: which sites \<open>finalize\<close> accepts, and what it makes of them.
\<close>

section \<open>The code\<close>

definition DimCountry :: string where "DimCountry = ''country''"
definition DimRegion :: string where "DimRegion = ''region''"
definition DimCity :: string where "DimCity = ''city''"
definition DimASN :: string where "DimASN = ''asn''"
definition DimReferrer :: string where "DimReferrer = ''referrer''"
definition DimSource :: string where "DimSource = ''source''"
definition DimMedium :: string where "DimMedium = ''medium''"
definition DimCampaign :: string where "DimCampaign = ''campaign''"
definition DimBrowser :: string where "DimBrowser = ''browser''"
definition DimOS :: string where "DimOS = ''os''"
definition DimDevice :: string where "DimDevice = ''device''"
definition DimScreen :: string where "DimScreen = ''screen''"
definition DimEvent :: string where "DimEvent = ''event''"

lemmas dim_defs = DimCountry_def DimRegion_def DimCity_def DimASN_def DimReferrer_def DimSource_def
  DimMedium_def DimCampaign_def DimBrowser_def DimOS_def DimDevice_def DimScreen_def DimEvent_def

definition AllDimensions :: "string list" where
  "AllDimensions = [DimCountry, DimASN, DimReferrer, DimSource, DimMedium, DimCampaign,
     DimBrowser, DimOS, DimDevice, DimScreen, DimEvent]"

record defaults =
  PathCap :: int
  CrossPathCap :: int
  ReferrerCap :: int
  ASNCap :: int
  CampaignCap :: int
  EventCap :: int
  PathLabels :: "string list option"
  UniqueVisitorsByPath :: bool
  AdmitMinCount :: u32
  SessionTTL :: duration
  DecayAfter :: duration
  RegionEnabled :: bool
  CityEnabled :: bool
  Timezone :: string

record 're rewrite =
  rw_Match :: string
  rw_Replace :: string
  rw_re :: "'re option"

record 're site =
  Domain :: string
  Origins :: "string list"
  PathRewrites :: "'re rewrite list"
  HMACKey :: string
  Defaults :: defaults
  originSet :: "(string, unit) gomap"
  site_loc :: "location option"

record server =
  IngestAddr :: string
  MetricsAddr :: string
  QueueSize :: int
  Workers :: int
  MaxBodyD :: int
  RatePerMin :: int
  SaltRotate :: duration
  ServeJS :: bool
  TrustProxy :: bool

record geo_config =
  gc_Provider :: string
  gc_CityDB :: string
  gc_ASNDB :: string
  gc_CountryDB :: string

record 're config =
  Server :: server
  Geo :: geo_config
  cfg_Defaults :: defaults
  Sites :: "'re site list"
  cfg_sites :: "(string, 're site) gomap"

record 're platform =
  pf_lower :: "int \<Rightarrow> int"
  pf_LoadLocation :: "string \<Rightarrow> location option"
  pf_Compile :: "string \<Rightarrow> 're option"
  pf_ReplaceAll :: "'re \<Rightarrow> string \<Rightarrow> string \<Rightarrow> string"

definition config_Site :: "'re platform \<Rightarrow> 're config \<Rightarrow> string \<Rightarrow> 're site option" where
  "config_Site pf c domain = map_of (cfg_sites c) (ToLower (pf_lower pf) domain)"

definition AllowsOrigin :: "'re platform \<Rightarrow> 're site \<Rightarrow> string \<Rightarrow> bool" where
  "AllowsOrigin pf s origin =
     (if gm_len (originSet s) = 0 then False
      else map_of (originSet s) (ToLower (pf_lower pf) (TrimSuffix origin ''/'')) \<noteq> None)"

definition UTC :: location where "UTC = (\<lambda>_. 0)"

definition Location :: "'re site \<Rightarrow> location" where
  "Location s = (case site_loc s of None \<Rightarrow> UTC | Some l \<Rightarrow> l)"

definition HasPathLabel :: "'re site \<Rightarrow> string \<Rightarrow> bool" where
  "HasPathLabel s dim =
     (case PathLabels (Defaults s) of None \<Rightarrow> False | Some ds \<Rightarrow> list_ex (\<lambda>d. d = dim) ds)"

definition site_Rewrite :: "'re platform \<Rightarrow> 're site \<Rightarrow> string \<Rightarrow> string" where
  "site_Rewrite pf s path =
     fold (\<lambda>r p. case rw_re r of None \<Rightarrow> p | Some re \<Rightarrow> pf_ReplaceAll pf re p (rw_Replace r)) (PathRewrites s) path"

definition builtin_defaults :: defaults where
  "builtin_defaults =
     \<lparr>PathCap = 200, CrossPathCap = 50, ReferrerCap = 200, ASNCap = 200, CampaignCap = 100, EventCap = 50,
      PathLabels = Some [DimCountry, DimReferrer, DimSource, DimMedium, DimCampaign,
        DimBrowser, DimOS, DimDevice, DimScreen, DimEvent],
      UniqueVisitorsByPath = False, AdmitMinCount = 3, SessionTTL = 30 * minute_ns,
      DecayAfter = 7 * 24 * hour_ns, RegionEnabled = False, CityEnabled = False, Timezone = ''UTC''\<rparr>"

definition newConfig :: "'re config" where
  "newConfig =
     \<lparr>Server = \<lparr>IngestAddr = '':8080'', MetricsAddr = ''127.0.0.1:9090'', QueueSize = 8192, Workers = 4,
        MaxBodyD = 4 * 1024, RatePerMin = 600, SaltRotate = 24 * hour_ns, ServeJS = True, TrustProxy = False\<rparr>,
      Geo = \<lparr>gc_Provider = ''dbip'', gc_CityDB = [], gc_ASNDB = [], gc_CountryDB = []\<rparr>,
      cfg_Defaults = builtin_defaults\<lparr>PathLabels := None\<rparr>, Sites = [], cfg_sites = []\<rparr>"

definition fillZero :: "defaults \<Rightarrow> defaults \<Rightarrow> defaults" where
  "fillZero d def = d
     \<lparr>PathCap := if PathCap d = 0 then PathCap def else PathCap d,
      CrossPathCap := if CrossPathCap d = 0 then CrossPathCap def else CrossPathCap d,
      ReferrerCap := if ReferrerCap d = 0 then ReferrerCap def else ReferrerCap d,
      ASNCap := if ASNCap d = 0 then ASNCap def else ASNCap d,
      CampaignCap := if CampaignCap d = 0 then CampaignCap def else CampaignCap d,
      EventCap := if EventCap d = 0 then EventCap def else EventCap d,
      AdmitMinCount := if AdmitMinCount d = 0 then AdmitMinCount def else AdmitMinCount d,
      SessionTTL := if SessionTTL d = 0 then SessionTTL def else SessionTTL d,
      DecayAfter := if DecayAfter d = 0 then DecayAfter def else DecayAfter d,
      Timezone := if Timezone d = [] then Timezone def else Timezone d\<rparr>"

definition validDimension :: "string \<Rightarrow> bool" where
  "validDimension d = list_ex (\<lambda>k. k = d) AllDimensions"

datatype config_error =
    NoSites
  | EmptyDomain
  | DuplicateSite string
  | UnknownDimension string string
  | NoOrigins string
  | BadTimezone string string
  | BadRewrite string string
  | ReadError
  | ParseError
  | EnvErrors "(string \<times> string) list"

fun compile_rewrites :: "'re platform \<Rightarrow> string \<Rightarrow> 're rewrite list \<Rightarrow> config_error + 're rewrite list" where
  "compile_rewrites pf dm [] = Inr []"
| "compile_rewrites pf dm (r # rs) =
     (case pf_Compile pf (rw_Match r) of
        None \<Rightarrow> Inl (BadRewrite dm (rw_Match r))
      | Some re \<Rightarrow>
          (case compile_rewrites pf dm rs of
             Inl e \<Rightarrow> Inl e
           | Inr rs' \<Rightarrow> Inr (r\<lparr>rw_re := Some re\<rparr> # rs')))"

definition origin_key :: "'re platform \<Rightarrow> string \<Rightarrow> string" where
  "origin_key pf o' = ToLower (pf_lower pf) (TrimSuffix (TrimSpace o') ''/'')"

text \<open>The body of the loop over the sites in \<open>finalize\<close>, from the normalised domain on.\<close>

definition finalize_site ::
  "'re platform \<Rightarrow> defaults \<Rightarrow> (string, 're site) gomap \<Rightarrow> 're site \<Rightarrow> config_error + 're site" where
  "finalize_site pf def seen s =
     (let dm = ToLower (pf_lower pf) (TrimSpace (Domain s)) in
      if dm = [] then Inl EmptyDomain
      else if map_of seen dm \<noteq> None then Inl (DuplicateSite dm)
      else
        (let labels = (case PathLabels (Defaults s) of None \<Rightarrow> PathLabels def | Some ls \<Rightarrow> Some ls);
             d = fillZero ((Defaults s)\<lparr>PathLabels := labels\<rparr>) def in
         case List.find (\<lambda>l. \<not> validDimension l) (case labels of None \<Rightarrow> [] | Some ls \<Rightarrow> ls) of
           Some l \<Rightarrow> Inl (UnknownDimension dm l)
         | None \<Rightarrow>
             if Origins s = [] then Inl (NoOrigins dm)
             else
               (case pf_LoadLocation pf (Timezone d) of
                  None \<Rightarrow> Inl (BadTimezone dm (Timezone d))
                | Some l \<Rightarrow>
                    (case compile_rewrites pf dm (PathRewrites s) of
                       Inl e \<Rightarrow> Inl e
                     | Inr rs \<Rightarrow>
                         Inr (s\<lparr>Domain := dm, Defaults := d, PathRewrites := rs, site_loc := Some l,
                           originSet := fold (\<lambda>o' m. AList.update (origin_key pf o') () m) (Origins s) []\<rparr>)))))"

fun finalize_sites ::
  "'re platform \<Rightarrow> defaults \<Rightarrow> 're site list \<Rightarrow> (string, 're site) gomap \<Rightarrow>
     config_error + 're site list \<times> (string, 're site) gomap" where
  "finalize_sites pf def [] seen = Inr ([], seen)"
| "finalize_sites pf def (s # ss) seen =
     (case finalize_site pf def seen s of
        Inl e \<Rightarrow> Inl e
      | Inr s' \<Rightarrow>
          (case finalize_sites pf def ss (AList.update (Domain s') s' seen) of
             Inl e \<Rightarrow> Inl e
           | Inr (ss', seen') \<Rightarrow> Inr (s' # ss', seen')))"

definition finalize :: "'re platform \<Rightarrow> 're config \<Rightarrow> config_error + 're config" where
  "finalize pf c =
     (let d = cfg_Defaults c;
          d = (if PathLabels d = None then d\<lparr>PathLabels := PathLabels builtin_defaults\<rparr> else d);
          d = fillZero d builtin_defaults in
      if Sites c = [] then Inl NoSites
      else
        (case finalize_sites pf d (Sites c) [] of
           Inl e \<Rightarrow> Inl e
         | Inr (ss, m) \<Rightarrow> Inr (c\<lparr>cfg_Defaults := d, Sites := ss, cfg_sites := m\<rparr>)))"

section \<open>Knobs and their inheritance\<close>

lemma fillZero_sel [simp]:
  "PathCap (fillZero d g) = (if PathCap d = 0 then PathCap g else PathCap d)"
  "CrossPathCap (fillZero d g) = (if CrossPathCap d = 0 then CrossPathCap g else CrossPathCap d)"
  "ReferrerCap (fillZero d g) = (if ReferrerCap d = 0 then ReferrerCap g else ReferrerCap d)"
  "ASNCap (fillZero d g) = (if ASNCap d = 0 then ASNCap g else ASNCap d)"
  "CampaignCap (fillZero d g) = (if CampaignCap d = 0 then CampaignCap g else CampaignCap d)"
  "EventCap (fillZero d g) = (if EventCap d = 0 then EventCap g else EventCap d)"
  "AdmitMinCount (fillZero d g) = (if AdmitMinCount d = 0 then AdmitMinCount g else AdmitMinCount d)"
  "SessionTTL (fillZero d g) = (if SessionTTL d = 0 then SessionTTL g else SessionTTL d)"
  "DecayAfter (fillZero d g) = (if DecayAfter d = 0 then DecayAfter g else DecayAfter d)"
  "Timezone (fillZero d g) = (if Timezone d = [] then Timezone g else Timezone d)"
  "PathLabels (fillZero d g) = PathLabels d"
  "UniqueVisitorsByPath (fillZero d g) = UniqueVisitorsByPath d"
  "RegionEnabled (fillZero d g) = RegionEnabled d"
  "CityEnabled (fillZero d g) = CityEnabled d"
  by (simp_all add: fillZero_def)

definition knobs_set :: "defaults \<Rightarrow> bool" where
  "knobs_set d \<longleftrightarrow>
     PathCap d \<noteq> 0 \<and> CrossPathCap d \<noteq> 0 \<and> ReferrerCap d \<noteq> 0 \<and> ASNCap d \<noteq> 0 \<and> CampaignCap d \<noteq> 0 \<and>
     EventCap d \<noteq> 0 \<and> AdmitMinCount d \<noteq> 0 \<and> SessionTTL d \<noteq> 0 \<and> DecayAfter d \<noteq> 0 \<and> Timezone d \<noteq> []"

lemma knobs_set_builtin: "knobs_set builtin_defaults"
  by (simp add: knobs_set_def builtin_defaults_def)

lemma knobs_set_fillZero: "knobs_set g \<Longrightarrow> knobs_set (fillZero d g)"
  by (simp add: knobs_set_def)

text \<open>The global defaults \<open>finalize\<close> works with.\<close>

definition global_defaults :: "'re config \<Rightarrow> defaults" where
  "global_defaults c =
     fillZero (if PathLabels (cfg_Defaults c) = None
       then (cfg_Defaults c)\<lparr>PathLabels := PathLabels builtin_defaults\<rparr> else cfg_Defaults c) builtin_defaults"

lemma global_defaults_labels: "PathLabels (global_defaults c) \<noteq> None"
  by (simp add: global_defaults_def builtin_defaults_def)

lemma global_defaults_sel [simp]:
  "PathCap (global_defaults c) = (if PathCap (cfg_Defaults c) = 0 then PathCap builtin_defaults else PathCap (cfg_Defaults c))"
  "CrossPathCap (global_defaults c) =
     (if CrossPathCap (cfg_Defaults c) = 0 then CrossPathCap builtin_defaults else CrossPathCap (cfg_Defaults c))"
  "ReferrerCap (global_defaults c) =
     (if ReferrerCap (cfg_Defaults c) = 0 then ReferrerCap builtin_defaults else ReferrerCap (cfg_Defaults c))"
  "ASNCap (global_defaults c) = (if ASNCap (cfg_Defaults c) = 0 then ASNCap builtin_defaults else ASNCap (cfg_Defaults c))"
  "CampaignCap (global_defaults c) =
     (if CampaignCap (cfg_Defaults c) = 0 then CampaignCap builtin_defaults else CampaignCap (cfg_Defaults c))"
  "EventCap (global_defaults c) = (if EventCap (cfg_Defaults c) = 0 then EventCap builtin_defaults else EventCap (cfg_Defaults c))"
  "AdmitMinCount (global_defaults c) =
     (if AdmitMinCount (cfg_Defaults c) = 0 then AdmitMinCount builtin_defaults else AdmitMinCount (cfg_Defaults c))"
  "SessionTTL (global_defaults c) =
     (if SessionTTL (cfg_Defaults c) = 0 then SessionTTL builtin_defaults else SessionTTL (cfg_Defaults c))"
  "DecayAfter (global_defaults c) =
     (if DecayAfter (cfg_Defaults c) = 0 then DecayAfter builtin_defaults else DecayAfter (cfg_Defaults c))"
  "PathLabels (global_defaults c) =
     (case PathLabels (cfg_Defaults c) of None \<Rightarrow> PathLabels builtin_defaults | Some ls \<Rightarrow> Some ls)"
  by (simp_all add: global_defaults_def split: option.split)

lemma builtin_labels: "\<exists>ls. PathLabels builtin_defaults = Some ls"
  by (simp add: builtin_defaults_def)

lemma knobs_set_global: "knobs_set (global_defaults c)"
  unfolding global_defaults_def by (intro knobs_set_fillZero knobs_set_builtin)

definition site_labels :: "defaults \<Rightarrow> 're site \<Rightarrow> string list" where
  "site_labels g s = (case PathLabels (Defaults s) of Some ls \<Rightarrow> ls | None \<Rightarrow> the (PathLabels g))"

definition site_timezone :: "defaults \<Rightarrow> 're site \<Rightarrow> string" where
  "site_timezone g s = (if Timezone (Defaults s) = [] then Timezone g else Timezone (Defaults s))"

definition domain_key :: "'re platform \<Rightarrow> 're site \<Rightarrow> string" where
  "domain_key pf s = ToLower (pf_lower pf) (TrimSpace (Domain s))"

definition acceptable :: "'re platform \<Rightarrow> defaults \<Rightarrow> 're site \<Rightarrow> bool" where
  "acceptable pf g s \<longleftrightarrow>
     domain_key pf s \<noteq> [] \<and> (\<forall>l \<in> set (site_labels g s). l \<in> set AllDimensions) \<and> Origins s \<noteq> [] \<and>
     pf_LoadLocation pf (site_timezone g s) \<noteq> None \<and>
     (\<forall>r \<in> set (PathRewrites s). pf_Compile pf (rw_Match r) \<noteq> None)"

lemma validDimension_iff: "validDimension d \<longleftrightarrow> d \<in> set AllDimensions"
  by (auto simp: validDimension_def list_ex_iff)

lemma compile_rewrites_Inr:
  "compile_rewrites pf dm rs = Inr rs' \<longleftrightarrow>
     (\<forall>r \<in> set rs. pf_Compile pf (rw_Match r) \<noteq> None) \<and> rs' = map (\<lambda>r. r\<lparr>rw_re := pf_Compile pf (rw_Match r)\<rparr>) rs"
proof (rule result_iff)
  show "compile_rewrites pf dm rs = Inr (map (\<lambda>r. r\<lparr>rw_re := pf_Compile pf (rw_Match r)\<rparr>) rs)"
    if "\<forall>r \<in> set rs. pf_Compile pf (rw_Match r) \<noteq> None"
    using that by (induction rs) auto
  show "isl (compile_rewrites pf dm rs)" if "\<not> (\<forall>r \<in> set rs. pf_Compile pf (rw_Match r) \<noteq> None)"
    using that
  proof (induction rs)
    case (Cons r rs)
    then show ?case
      by (cases "pf_Compile pf (rw_Match r)") (auto simp: isl_def split: sum.split)
  qed simp
qed

definition origin_set :: "'re platform \<Rightarrow> 're site \<Rightarrow> (string, unit) gomap" where
  "origin_set pf s = fold (\<lambda>o' m. AList.update (origin_key pf o') () m) (Origins s) []"

definition built_site :: "'re platform \<Rightarrow> defaults \<Rightarrow> 're site \<Rightarrow> 're site" where
  "built_site pf g s = s\<lparr>Domain := domain_key pf s,
     Defaults := fillZero ((Defaults s)\<lparr>PathLabels := Some (site_labels g s)\<rparr>) g,
     PathRewrites := map (\<lambda>r. r\<lparr>rw_re := pf_Compile pf (rw_Match r)\<rparr>) (PathRewrites s),
     site_loc := pf_LoadLocation pf (site_timezone g s), originSet := origin_set pf s\<rparr>"

lemma finalize_site_Inr:
  assumes "PathLabels g \<noteq> None"
  shows "finalize_site pf g seen s = Inr s' \<longleftrightarrow>
    acceptable pf g s \<and> map_of seen (domain_key pf s) = None \<and> s' = built_site pf g s"
proof -
  obtain gl where gl: "PathLabels g = Some gl" using assms by blast
  define labels where "labels = (case PathLabels (Defaults s) of None \<Rightarrow> PathLabels g | Some ls \<Rightarrow> Some ls)"
  have labels: "labels = Some (site_labels g s)"
    by (simp add: labels_def site_labels_def gl split: option.split)
  have tz: "Timezone (fillZero ((Defaults s)\<lparr>PathLabels := x\<rparr>) g) = site_timezone g s" for x
    by (simp add: site_timezone_def)
  have valid: "List.find (\<lambda>l. \<not> validDimension l) (site_labels g s) = None \<longleftrightarrow>
      (\<forall>l \<in> set (site_labels g s). l \<in> set AllDimensions)"
    by (auto simp: find_None_iff validDimension_iff)
  note code = finalize_site_def Let_def labels_def [symmetric] labels tz
      domain_key_def [symmetric] origin_set_def [symmetric]
  note compile = compile_rewrites_Inr [of pf "domain_key pf s" "PathRewrites s"]
  show ?thesis
  proof (rule result_iff [where c = "acceptable pf g s \<and> map_of seen (domain_key pf s) = None", unfolded conj_assoc])
    assume c: "acceptable pf g s \<and> map_of seen (domain_key pf s) = None"
    then have "compile_rewrites pf (domain_key pf s) (PathRewrites s) =
        Inr (map (\<lambda>r. r\<lparr>rw_re := pf_Compile pf (rw_Match r)\<rparr>) (PathRewrites s))"
      by (simp add: compile acceptable_def)
    with c valid show "finalize_site pf g seen s = Inr (built_site pf g s)"
      unfolding code by (auto simp: acceptable_def built_site_def)
  next
    assume "\<not> (acceptable pf g s \<and> map_of seen (domain_key pf s) = None)"
    with valid compile show "isl (finalize_site pf g seen s)"
      unfolding code by (auto simp: acceptable_def split: option.split sum.split)
  qed
qed

lemma origin_set_dom: "map_of (origin_set pf s) k \<noteq> None \<longleftrightarrow> k \<in> origin_key pf ` set (Origins s)"
proof -
  have "map_of (fold (\<lambda>o' m. AList.update (origin_key pf o') () m) os m) k \<noteq> None \<longleftrightarrow>
      k \<in> origin_key pf ` set os \<or> map_of m k \<noteq> None" for os m
    by (induction os arbitrary: m) (auto simp: update_conv')
  then show ?thesis by (simp add: origin_set_def)
qed

lemma origin_set_nonempty: "Origins s \<noteq> [] \<Longrightarrow> origin_set pf s \<noteq> []"
proof -
  assume "Origins s \<noteq> []"
  then have "map_of (origin_set pf s) (origin_key pf (hd (Origins s))) \<noteq> None"
    by (simp only: origin_set_dom) simp
  then show ?thesis by auto
qed

lemma built_site_sel [simp]:
  "Domain (built_site pf g s) = domain_key pf s" "Origins (built_site pf g s) = Origins s"
  "originSet (built_site pf g s) = origin_set pf s" "HMACKey (built_site pf g s) = HMACKey s"
  "Defaults (built_site pf g s) = fillZero ((Defaults s)\<lparr>PathLabels := Some (site_labels g s)\<rparr>) g"
  "site_loc (built_site pf g s) = pf_LoadLocation pf (site_timezone g s)"
  by (simp_all add: built_site_def)

lemma finalize_sites_Inr:
  assumes "PathLabels g \<noteq> None"
  shows "finalize_sites pf g ss seen = Inr sm \<longleftrightarrow>
    ((\<forall>s \<in> set ss. acceptable pf g s \<and> map_of seen (domain_key pf s) = None) \<and> distinct (map (domain_key pf) ss)) \<and>
    sm = (map (built_site pf g) ss, fold (\<lambda>s. AList.update (Domain s) s) (map (built_site pf g) ss) seen)"
proof (rule result_iff)
  show "finalize_sites pf g ss seen =
      Inr (map (built_site pf g) ss, fold (\<lambda>s. AList.update (Domain s) s) (map (built_site pf g) ss) seen)"
    if "(\<forall>s \<in> set ss. acceptable pf g s \<and> map_of seen (domain_key pf s) = None) \<and> distinct (map (domain_key pf) ss)"
    using that
  proof (induction ss arbitrary: seen)
    case (Cons s ss)
    then have "finalize_site pf g seen s = Inr (built_site pf g s)"
      by (simp add: finalize_site_Inr [OF assms])
    moreover have "\<forall>s' \<in> set ss. domain_key pf s' \<noteq> domain_key pf s"
      using Cons.prems by (metis distinct.simps(2) image_eqI list.map(2) list.set_map)
    ultimately show ?case
      using Cons by (simp add: update_conv')
  qed simp
  show "isl (finalize_sites pf g ss seen)"
    if "\<not> ((\<forall>s \<in> set ss. acceptable pf g s \<and> map_of seen (domain_key pf s) = None) \<and> distinct (map (domain_key pf) ss))"
    using that
  proof (induction ss arbitrary: seen)
    case (Cons s ss)
    show ?case
    proof (cases "finalize_site pf g seen s")
      case (Inr s')
      then have s': "acceptable pf g s" "map_of seen (domain_key pf s) = None" "s' = built_site pf g s"
        using finalize_site_Inr [OF assms] by blast+
      let ?seen = "AList.update (domain_key pf s) (built_site pf g s) seen"
      have "\<not> ((\<forall>s \<in> set ss. acceptable pf g s \<and> map_of ?seen (domain_key pf s) = None) \<and>
          distinct (map (domain_key pf) ss))"
        using Cons.prems s' by (auto simp: update_conv' split: if_splits)
      from Cons.IH [OF this] Inr s'(3) show ?thesis
        by (auto split: sum.split)
    qed simp
  qed simp
qed

lemma finalize_Inr:
  "finalize pf c = Inr c' \<longleftrightarrow>
     Sites c \<noteq> [] \<and> (\<forall>s \<in> set (Sites c). acceptable pf (global_defaults c) s) \<and>
     distinct (map (domain_key pf) (Sites c)) \<and>
     c' = c\<lparr>cfg_Defaults := global_defaults c, Sites := map (built_site pf (global_defaults c)) (Sites c),
        cfg_sites := fold (\<lambda>s. AList.update (Domain s) s) (map (built_site pf (global_defaults c)) (Sites c)) []\<rparr>"
proof -
  have eq: "finalize pf c = (if Sites c = [] then Inl NoSites
      else (case finalize_sites pf (global_defaults c) (Sites c) [] of
           Inl e \<Rightarrow> Inl e
         | Inr (ss, m) \<Rightarrow> Inr (c\<lparr>cfg_Defaults := global_defaults c, Sites := ss, cfg_sites := m\<rparr>)))"
    unfolding finalize_def global_defaults_def Let_def ..
  note sites = finalize_sites_Inr [OF global_defaults_labels [of c], of pf "Sites c" "[]"]
  let ?ok = "Sites c \<noteq> [] \<and> (\<forall>s \<in> set (Sites c). acceptable pf (global_defaults c) s) \<and>
     distinct (map (domain_key pf) (Sites c))"
  show ?thesis
  proof (rule result_iff [where c = ?ok, unfolded conj_assoc])
    assume ?ok
    then have "finalize_sites pf (global_defaults c) (Sites c) [] = Inr (map (built_site pf (global_defaults c)) (Sites c),
        fold (\<lambda>s. AList.update (Domain s) s) (map (built_site pf (global_defaults c)) (Sites c)) [])"
      by (simp add: sites)
    with \<open>?ok\<close> show "finalize pf c = Inr (c\<lparr>cfg_Defaults := global_defaults c,
        Sites := map (built_site pf (global_defaults c)) (Sites c),
        cfg_sites := fold (\<lambda>s. AList.update (Domain s) s) (map (built_site pf (global_defaults c)) (Sites c)) []\<rparr>)"
      by (simp add: eq)
  next
    assume "\<not> ?ok"
    with sites show "isl (finalize pf c)"
      by (auto simp: eq split: sum.split)
  qed
qed

lemma fold_update_sites:
  "distinct (map Domain ss) \<Longrightarrow>
   map_of (fold (\<lambda>s. AList.update (Domain s) s) ss m) d =
     (case List.find (\<lambda>s. Domain s = d) ss of Some s \<Rightarrow> Some s | None \<Rightarrow> map_of m d)"
proof (induction ss arbitrary: m)
  case (Cons s ss)
  have "List.find (\<lambda>s'. Domain s' = d) ss = None" if "Domain s = d"
    using Cons.prems that by (auto simp: find_None_iff rev_image_eqI)
  with Cons show ?case by (auto simp: update_conv' split: option.split)
qed simp

lemma find_site:
  "distinct (map Domain ss) \<Longrightarrow> List.find (\<lambda>s. Domain s = d) ss = Some s \<longleftrightarrow> s \<in> set ss \<and> Domain s = d"
  by (induction ss) (auto simp: rev_image_eqI)

section \<open>Properties\<close>

text \<open>Built-in platform data for the witnesses: UTC only, and literal patterns.\<close>

definition plain_platform :: "string platform" where
  "plain_platform = \<lparr>pf_lower = id, pf_LoadLocation = (\<lambda>z. if z = ''UTC'' then Some UTC else None),
     pf_Compile = Some, pf_ReplaceAll = (\<lambda>re s r. if s = re then r else s)\<rparr>"

definition example_site :: "string site" where
  "example_site = \<lparr>Domain = ''Example.org '', Origins = [''https://Example.org/''], PathRewrites = [], HMACKey = [],
     Defaults = (builtin_defaults\<lparr>PathCap := 0, PathLabels := None, AdmitMinCount := 5\<rparr>), originSet = [], site_loc = None\<rparr>"

definition example_config :: "string config" where
  "example_config = newConfig\<lparr>Sites := [example_site]\<rparr>"

abbreviation example_built :: "string site" where
  "example_built \<equiv> built_site plain_platform (global_defaults example_config) example_site"

lemma example_finalized:
  "finalize plain_platform example_config = Inr (example_config\<lparr>cfg_Defaults := global_defaults example_config,
     Sites := [example_built], cfg_sites := [(domain_key plain_platform example_site, example_built)]\<rparr>)"
  unfolding finalize_Inr
  by (simp add: example_config_def newConfig_def example_site_def acceptable_def plain_platform_def
    domain_key_def site_labels_def site_timezone_def builtin_defaults_def AllDimensions_def
    global_defaults_def TrimSpace_ascii is_ascii_def is_space_def ToLower_def)

lemma example_in:
  "example_built \<in> set (Sites (example_config\<lparr>cfg_Defaults := global_defaults example_config,
     Sites := [example_built], cfg_sites := [(domain_key plain_platform example_site, example_built)]\<rparr>))"
  by simp

text \<open>
  C25: \<open>finalize\<close> accepts a configuration exactly when it should: there is a site, no two
  domains agree after trimming and lower-casing, and every site has a domain, at least one
  origin, known path-label dimensions, a time zone that loads and rewrites that compile.
\<close>

theorem finalize_accepts_iff:
  "(\<exists>c'. finalize pf c = Inr c') \<longleftrightarrow>
     Sites c \<noteq> [] \<and> distinct (map (domain_key pf) (Sites c)) \<and>
     (\<forall>s \<in> set (Sites c). acceptable pf (global_defaults c) s)"
  by (auto simp: finalize_Inr)

theorem finalize_accepts_iff_witness: "\<exists>c'. finalize plain_platform example_config = Inr c'"
  unfolding finalize_accepts_iff
  by (simp add: example_config_def newConfig_def example_site_def acceptable_def plain_platform_def
    domain_key_def site_labels_def site_timezone_def builtin_defaults_def AllDimensions_def
    global_defaults_def TrimSpace_ascii is_ascii_def is_space_def ToLower_def)

text \<open>
  What \<open>finalize\<close> returns is safe to serve: every site has every cap, count, timeout and
  time zone set (none is left zero), its own domain and origins, its rewrites compiled; and
  looking a domain up finds exactly the site that carries it.
\<close>

theorem finalized_sites_complete:
  assumes "finalize pf c = Inr c'" and "s \<in> set (Sites c')"
  shows "knobs_set (Defaults s) \<and> Domain s \<noteq> [] \<and> Origins s \<noteq> [] \<and> originSet s \<noteq> [] \<and>
    (\<exists>ls. PathLabels (Defaults s) = Some ls \<and> set ls \<subseteq> set AllDimensions) \<and>
    (\<forall>r \<in> set (PathRewrites s). rw_re r \<noteq> None) \<and> site_loc s \<noteq> None \<and>
    map_of (cfg_sites c') (Domain s) = Some s \<and>
    (\<forall>d s'. map_of (cfg_sites c') d = Some s' \<longrightarrow> s' \<in> set (Sites c') \<and> Domain s' = d)"
proof -
  let ?g = "global_defaults c"
  have c: "\<forall>s \<in> set (Sites c). acceptable pf ?g s" "distinct (map (domain_key pf) (Sites c))"
      "Sites c' = map (built_site pf ?g) (Sites c)"
      "cfg_sites c' = fold (\<lambda>s. AList.update (Domain s) s) (Sites c') []"
    using assms(1) unfolding finalize_Inr by auto
  then obtain s0 where s0: "s0 \<in> set (Sites c)" "s = built_site pf ?g s0" using assms(2) by auto
  have d: "distinct (map Domain (Sites c'))" using c(2) by (simp add: c(3) comp_def)
  have look: "map_of (cfg_sites c') k = Some x \<longleftrightarrow> x \<in> set (Sites c') \<and> Domain x = k" for k x
    using find_site [OF d, of k x] unfolding c(4) fold_update_sites [OF d] by (auto split: option.split)
  have "knobs_set (Defaults s)" using s0 by (simp add: knobs_set_fillZero knobs_set_global)
  moreover have "\<forall>r \<in> set (PathRewrites s). rw_re r \<noteq> None"
    using c(1) s0 by (auto simp: built_site_def acceptable_def)
  moreover have "origin_set pf s0 \<noteq> []"
    using c(1) s0(1) by (intro origin_set_nonempty) (auto simp: acceptable_def)
  then have "originSet s \<noteq> []" using s0(2) by simp
  moreover have "Domain s \<noteq> []" "Origins s \<noteq> []" "site_loc s \<noteq> None"
      "\<exists>ls. PathLabels (Defaults s) = Some ls \<and> set ls \<subseteq> set AllDimensions"
    using c(1) s0 by (auto simp: acceptable_def)
  ultimately show ?thesis using look assms(2) by blast
qed

theorem finalized_sites_complete_witness:
  "knobs_set (Defaults example_built)"
proof -
  from finalized_sites_complete [OF example_finalized example_in] show ?thesis by blast
qed

text \<open>
  C26: A finalized site's allowlist fails closed and ignores case and one trailing slash: an
  origin is allowed exactly when it equals a configured one after that normalisation.
\<close>

theorem origin_allowed_iff_listed:
  assumes "finalize pf c = Inr c'" and "s \<in> set (Sites c')"
  shows "AllowsOrigin pf s origin \<longleftrightarrow>
    (\<exists>o' \<in> set (Origins s). ToLower (pf_lower pf) (TrimSuffix (TrimSpace o') ''/'') =
       ToLower (pf_lower pf) (TrimSuffix origin ''/''))"
proof -
  obtain s0 where s: "s = built_site pf (global_defaults c) s0" "Origins s0 \<noteq> []"
    using assms unfolding finalize_Inr by (auto simp: acceptable_def)
  then have "origin_set pf s0 \<noteq> []" by (simp add: origin_set_nonempty)
  with s(1) show ?thesis
    using origin_set_dom [of pf s0 "ToLower (pf_lower pf) (TrimSuffix origin ''/'')"]
    by (auto simp: AllowsOrigin_def origin_key_def image_iff) metis
qed

theorem origin_allowed_iff_listed_witness:
  "AllowsOrigin plain_platform example_built ''https://example.ORG''"
proof -
  from origin_allowed_iff_listed [OF example_finalized example_in] show ?thesis
    by (simp add: example_site_def plain_platform_def TrimSpace_ascii is_ascii_def is_space_def ToLower_def
      TrimSuffix_def HasSuffix_def lower_byte_def char_of_def)
qed

text \<open>
  Inheritance: each numeric knob and the time zone of a finalized site is the site's own
  if it is not zero, else the global one, else the built-in one; path labels inherit when
  unset; the boolean flags are the site's own and are never inherited.
\<close>

theorem finalized_site_inherits:
  assumes "finalize pf c = Inr c'" and "s \<in> set (Sites c')"
  shows "\<exists>s0 \<in> set (Sites c).
    (let own = Defaults s0; glob = cfg_Defaults c; got = Defaults s in
     Domain s = domain_key pf s0 \<and>
     (\<forall>knob \<in> {PathCap, CrossPathCap, ReferrerCap, ASNCap, CampaignCap, EventCap, SessionTTL, DecayAfter}.
        knob got = (if knob own \<noteq> 0 then knob own else if knob glob \<noteq> 0 then knob glob else knob builtin_defaults)) \<and>
     AdmitMinCount got = (if AdmitMinCount own \<noteq> 0 then AdmitMinCount own
       else if AdmitMinCount glob \<noteq> 0 then AdmitMinCount glob else AdmitMinCount builtin_defaults) \<and>
     PathLabels got = (case PathLabels own of Some ls \<Rightarrow> Some ls
       | None \<Rightarrow> (case PathLabels glob of Some ls \<Rightarrow> Some ls | None \<Rightarrow> PathLabels builtin_defaults)) \<and>
     RegionEnabled got = RegionEnabled own \<and> CityEnabled got = CityEnabled own \<and>
     UniqueVisitorsByPath got = UniqueVisitorsByPath own)"
proof -
  obtain s0 where s: "s0 \<in> set (Sites c)" "s = built_site pf (global_defaults c) s0"
    using assms unfolding finalize_Inr by auto
  have "knob (Defaults s) = (if knob (Defaults s0) \<noteq> 0 then knob (Defaults s0)
      else if knob (cfg_Defaults c) \<noteq> 0 then knob (cfg_Defaults c) else knob builtin_defaults)"
    if "knob \<in> {PathCap, CrossPathCap, ReferrerCap, ASNCap, CampaignCap, EventCap, SessionTTL, DecayAfter}"
    for knob :: "defaults \<Rightarrow> int"
    using that by (elim insertE emptyE) (simp_all add: s(2))
  moreover have "PathLabels (Defaults s) = (case PathLabels (Defaults s0) of Some ls \<Rightarrow> Some ls
       | None \<Rightarrow> (case PathLabels (cfg_Defaults c) of Some ls \<Rightarrow> Some ls | None \<Rightarrow> PathLabels builtin_defaults))"
    using builtin_labels by (auto simp: s(2) site_labels_def split: option.split)
  moreover have "AdmitMinCount (Defaults s) = (if AdmitMinCount (Defaults s0) \<noteq> 0 then AdmitMinCount (Defaults s0)
       else if AdmitMinCount (cfg_Defaults c) \<noteq> 0 then AdmitMinCount (cfg_Defaults c) else AdmitMinCount builtin_defaults)"
      "Domain s = domain_key pf s0" "RegionEnabled (Defaults s) = RegionEnabled (Defaults s0)"
      "CityEnabled (Defaults s) = CityEnabled (Defaults s0)"
      "UniqueVisitorsByPath (Defaults s) = UniqueVisitorsByPath (Defaults s0)"
    by (simp_all add: s(2))
  ultimately show ?thesis
    unfolding Let_def using s(1) by blast
qed

theorem finalized_site_inherits_witness:
  "\<exists>s0 \<in> set (Sites example_config). Domain example_built =
     domain_key plain_platform s0"
proof -
  from finalized_site_inherits [OF example_finalized example_in] show ?thesis
    unfolding Let_def by blast
qed

end
