(* ===== verification/Registry.thy ===== *)
theory Registry
  imports Guard Sessions Config
begin

text \<open>
  The metric registry of \<open>internal/aggregate/registry.go\<close>: the per-site guards, windows and
  sessions, and \<open>Record\<close>, \<open>Maintain\<close> and \<open>Configure\<close>, which fold observations into metric
  families.

  \<^item> \<open>metric_call\<close>: the calls the code makes on the Prometheus client, in order. The client is
    a third-party package: \<open>accepts\<close> says which calls it takes, a call it refuses panics and
    ends the program (\<open>None\<close>).
  \<^item> \<open>observation\<close>, \<open>dimension\<close>, \<open>site_state\<close>, \<open>registry\<close>: the structs. \<open>Record\<close>,
    \<open>recordEngagement\<close>, \<open>recordPathUnique\<close>, \<open>Maintain\<close>, \<open>Configure\<close>: the code.
\<close>

section \<open>The metric families\<close>

datatype family =
    FPageviews | FEntries | FExits | FDim string | FRegions | FCities
  | FSessionsTotal | FBounces | FSessionDur | FTimeOnPage | FIngestEvents | FGeoLookups

text \<open>\<open>WithLabelValues(ls).Inc()\<close>, \<open>WithLabelValues(ls).Observe(d.Seconds())\<close> and the deletions.\<close>

datatype metric_call =
    Inc family "string list"
  | Observe family "string list" duration
  | DeleteLabelValues family "string list"
  | DeletePartialMatch family "(string \<times> string) list"

record dimension =
  d_dim :: string
  d_metric :: string
  d_labels :: "string list"

definition dimensions :: "dimension list" where
  "dimensions =
     [\<lparr>d_dim = DimCountry, d_metric = ''pageviews_by_country_total'', d_labels = [''country'']\<rparr>,
      \<lparr>d_dim = DimASN, d_metric = ''pageviews_by_asn_total'', d_labels = [''asn'', ''as_org'']\<rparr>,
      \<lparr>d_dim = DimReferrer, d_metric = ''pageviews_by_referrer_total'', d_labels = [''referrer'']\<rparr>,
      \<lparr>d_dim = DimSource, d_metric = ''pageviews_by_source_total'', d_labels = [''source'']\<rparr>,
      \<lparr>d_dim = DimMedium, d_metric = ''pageviews_by_medium_total'', d_labels = [''medium'']\<rparr>,
      \<lparr>d_dim = DimCampaign, d_metric = ''pageviews_by_campaign_total'', d_labels = [''campaign'']\<rparr>,
      \<lparr>d_dim = DimBrowser, d_metric = ''pageviews_by_browser_total'', d_labels = [''browser'']\<rparr>,
      \<lparr>d_dim = DimOS, d_metric = ''pageviews_by_os_total'', d_labels = [''os'']\<rparr>,
      \<lparr>d_dim = DimDevice, d_metric = ''pageviews_by_device_total'', d_labels = [''device'']\<rparr>,
      \<lparr>d_dim = DimScreen, d_metric = ''pageviews_by_screen_total'', d_labels = [''class'']\<rparr>,
      \<lparr>d_dim = DimEvent, d_metric = ''events_total'', d_labels = [''name'']\<rparr>]"

fun label_names :: "family \<Rightarrow> string list" where
  "label_names (FDim dim) =
     ''site'' # (case List.find (\<lambda>d. d_dim d = dim) dimensions of Some d \<Rightarrow> d_labels d | None \<Rightarrow> []) @ [''path'']"
| "label_names FRegions = [''site'', ''region'']"
| "label_names FCities = [''site'', ''city'']"
| "label_names FIngestEvents = [''site'', ''result'']"
| "label_names FGeoLookups = [''result'']"
| "label_names FSessionsTotal = [''site'']"
| "label_names FBounces = [''site'']"
| "label_names FSessionDur = [''site'']"
| "label_names _ = [''site'', ''path'']"

section \<open>The state\<close>

datatype kind = KindPageview | KindCustom | KindEngagement

record observation =
  o_Site :: string
  o_Kind :: kind
  o_Name :: string
  o_Path :: string
  o_Referrer :: string
  o_Source :: string
  o_Medium :: string
  o_Campaign :: string
  o_Country :: string
  o_Region :: string
  o_City :: string
  o_ASN :: string
  o_ASOrg :: string
  o_Browser :: string
  o_OS :: string
  o_Device :: string
  o_Screen :: string
  o_VisitorID :: u64
  o_TimeOnPage :: duration
  o_At :: time

record ('s, 're) site_state =
  st_cfg :: "'re site"
  st_pathCounter :: counter
  st_purePath :: guard
  st_crossPath :: guard
  st_guards :: "(string, guard \<times> counter) gomap"
  st_windows :: "'s windows"
  st_sessions :: sessions
  st_pathUniques :: "(string, 's rolling) gomap"

record ('s, 're) registry =
  rg_sites :: "(string, ('s, 're) site_state) gomap"
  rg_calls :: "metric_call list"

record 's env =
  ev_xx :: "string \<Rightarrow> u64"
  ev_hll :: "'s hll"
  ev_accepts :: "metric_call \<Rightarrow> bool"

definition minCountFor :: "'re site \<Rightarrow> string \<Rightarrow> u32" where
  "minCountFor s dim =
     (if dim = DimBrowser \<or> dim = DimOS \<or> dim = DimDevice \<or> dim = DimScreen \<or> dim = DimCountry then 1
      else AdmitMinCount (Defaults s))"

definition capFor :: "'re site \<Rightarrow> string \<Rightarrow> int" where
  "capFor s dim =
     (if dim = DimReferrer then ReferrerCap (Defaults s)
      else if dim = DimASN then ASNCap (Defaults s)
      else if dim = DimCampaign \<or> dim = DimSource \<or> dim = DimMedium then CampaignCap (Defaults s)
      else if dim = DimEvent then EventCap (Defaults s)
      else if dim = DimCountry then 300
      else 40)"

definition new_site_state :: "'s env \<Rightarrow> 're site \<Rightarrow> ('s, 're) site_state" where
  "new_site_state ev sc =
     \<lparr>st_cfg = sc, st_pathCounter = newCounter 4 4096,
      st_purePath = NewGuardWith (PathCap (Defaults sc)) (AdmitMinCount (Defaults sc)),
      st_crossPath = NewGuardWith (CrossPathCap (Defaults sc)) (AdmitMinCount (Defaults sc)),
      st_guards = fold (\<lambda>d. AList.update (d_dim d) (NewGuard (capFor sc (d_dim d)) (minCountFor sc (d_dim d))))
        dimensions [],
      st_windows = NewWindows (ev_hll ev),
      st_sessions = NewSessions (Domain sc) (SessionTTL (Defaults sc)) 200000,
      st_pathUniques = []\<rparr>"

definition configure_site :: "'s env \<Rightarrow> 're site \<Rightarrow> (string, ('s, 're) site_state) gomap \<Rightarrow> (string, ('s, 're) site_state) gomap" where
  "configure_site ev sc sites =
     (case map_of sites (Domain sc) of
        Some st \<Rightarrow> AList.update (Domain sc) (st\<lparr>st_cfg := sc\<rparr>) sites
      | None \<Rightarrow> AList.update (Domain sc) (new_site_state ev sc) sites)"

definition Configure :: "'s env \<Rightarrow> 're config \<Rightarrow> ('s, 're) registry \<Rightarrow> ('s, 're) registry" where
  "Configure ev cfg r = r\<lparr>rg_sites := fold (configure_site ev) (Sites cfg) (rg_sites r)\<rparr>"

definition New :: "'s env \<Rightarrow> 're config \<Rightarrow> ('s, 're) registry" where
  "New ev cfg = Configure ev cfg \<lparr>rg_sites = [], rg_calls = []\<rparr>"

section \<open>Recording\<close>

definition registry_sink :: "metric_call list sink" where
  "registry_sink =
     \<lparr>SessionStarted = (\<lambda>site entryPath calls. calls @ [Inc FSessionsTotal [site]]),
      SessionEnded = (\<lambda>site e calls. calls @
        [Observe FSessionDur [site] (e_duration e), Inc FExits [site, e_exit e]] @
        (if e_bounced e then [Inc FBounces [site]] else []))\<rparr>"

definition dimValue :: "observation \<Rightarrow> string \<Rightarrow> string" where
  "dimValue ob dim =
     (if dim = DimCountry then o_Country ob
      else if dim = DimReferrer then o_Referrer ob
      else if dim = DimSource then o_Source ob
      else if dim = DimMedium then o_Medium ob
      else if dim = DimCampaign then o_Campaign ob
      else if dim = DimBrowser then o_Browser ob
      else if dim = DimOS then o_OS ob
      else if dim = DimDevice then o_Device ob
      else if dim = DimScreen then o_Screen ob
      else [])"

definition recordEngagement ::
  "observation \<Rightarrow> ('s, 're) site_state \<times> metric_call list \<Rightarrow> ('s, 're) site_state \<times> metric_call list" where
  "recordEngagement ob stc =
     (let st = (fst stc)\<lparr>st_sessions := Extend (o_VisitorID ob) (o_At ob) (st_sessions (fst stc))\<rparr> in
      if o_TimeOnPage ob \<le> 0 then (st, snd stc)
      else (st, snd stc @ [Observe FTimeOnPage [o_Site ob, fst (Peek (st_crossPath st) (o_Path ob))] (o_TimeOnPage ob)]))"

definition recordPathUnique ::
  "'s env \<Rightarrow> string \<Rightarrow> observation \<Rightarrow> ('s, 're) site_state \<Rightarrow> ('s, 're) site_state option" where
  "recordPathUnique ev path ob st =
     (if \<not> UniqueVisitorsByPath (Defaults (st_cfg st)) \<or> path = OtherLabel \<or> path = NoneLabel then Some st
      else do {
        let roll = (case map_of (st_pathUniques st) path of
            Some roll \<Rightarrow> roll | None \<Rightarrow> NewRolling (ev_hll ev) hour_ns 24 True);
        roll' \<leftarrow> rolling_Insert (ev_hll ev) (o_VisitorID ob) (o_At ob) roll;
        Some (st\<lparr>st_pathUniques := AList.update path roll' (st_pathUniques st)\<rparr>)
      })"

text \<open>\<open>g := st.guards[dim]; g.Admit(v, now)\<close>; a missing guard is a nil dereference.\<close>

definition admit_dim ::
  "'s env \<Rightarrow> string \<Rightarrow> string \<Rightarrow> time \<Rightarrow> ('s, 're) site_state \<Rightarrow> (string \<times> ('s, 're) site_state) option" where
  "admit_dim ev dim v now st =
     do {
       gc \<leftarrow> map_of (st_guards st) dim;
       (label, gc') \<leftarrow> Admit (ev_xx ev) v now gc;
       Some (label, st\<lparr>st_guards := AList.update dim gc' (st_guards st)\<rparr>)
     }"

text \<open>The body of the loop over \<open>dimensions\<close> in \<open>Record\<close>.\<close>

definition record_dimension ::
  "'s env \<Rightarrow> observation \<Rightarrow> string \<Rightarrow> dimension \<Rightarrow> ('s, 're) site_state \<times> metric_call list \<Rightarrow>
     (('s, 're) site_state \<times> metric_call list) option" where
  "record_dimension ev ob crossPath d stc =
     (let dim = d_dim d;
          pathLabel = (if HasPathLabel (st_cfg (fst stc)) dim then crossPath else AllLabel) in
      if dim = DimEvent then
        (if o_Kind ob \<noteq> KindCustom then Some stc
         else do {
           (name, st) \<leftarrow> admit_dim ev dim (o_Name ob) (o_At ob) (fst stc);
           Some (st, snd stc @ [Inc (FDim dim) [o_Site ob, name, pathLabel]])
         })
      else if dim = DimASN then
        (if o_Kind ob \<noteq> KindPageview then Some stc
         else do {
           (asn, st) \<leftarrow> admit_dim ev dim (o_ASN ob) (o_At ob) (fst stc);
           let org = (if asn = OtherLabel \<or> asn = NoneLabel then asn
                      else if o_ASOrg ob = [] then NoneLabel else o_ASOrg ob);
           Some (st, snd stc @ [Inc (FDim dim) [o_Site ob, asn, org, pathLabel]])
         })
      else
        (if o_Kind ob \<noteq> KindPageview then Some stc
         else do {
           (v, st) \<leftarrow> admit_dim ev dim (dimValue ob dim) (o_At ob) (fst stc);
           Some (st, snd stc @ [Inc (FDim dim) [o_Site ob, v, pathLabel]])
         }))"

text \<open>The two calls \<open>Admit\<close> makes for the path, on guards that share one counter.\<close>

definition admit_paths ::
  "'s env \<Rightarrow> observation \<Rightarrow> ('s, 're) site_state \<Rightarrow> (string \<times> string \<times> ('s, 're) site_state) option" where
  "admit_paths ev ob st =
     do {
       (purePath, pg, c1) \<leftarrow> Admit (ev_xx ev) (o_Path ob) (o_At ob) (st_purePath st, st_pathCounter st);
       (crossPath, xg, c2) \<leftarrow> Admit (ev_xx ev) (o_Path ob) (o_At ob) (st_crossPath st, c1);
       Some (purePath, crossPath, st\<lparr>st_purePath := pg, st_crossPath := xg, st_pathCounter := c2\<rparr>)
     }"

definition record_pageview ::
  "'s env \<Rightarrow> observation \<Rightarrow> string \<Rightarrow> string \<Rightarrow> ('s, 're) site_state \<times> metric_call list \<Rightarrow>
     (('s, 're) site_state \<times> metric_call list) option" where
  "record_pageview ev ob purePath crossPath stc =
     (if o_Kind ob \<noteq> KindPageview then Some stc
      else
        (let (started, ss, calls) = Touch registry_sink (o_VisitorID ob) purePath (o_At ob)
               (st_sessions (fst stc), snd stc @ [Inc FPageviews [o_Site ob, purePath]]);
             calls = (if started then calls @ [Inc FEntries [o_Site ob, purePath]] else calls);
             st = (fst stc)\<lparr>st_sessions := ss\<rparr>
         in do {
           w \<leftarrow> windows_Insert (ev_hll ev) (Location (st_cfg st)) (o_VisitorID ob) (o_At ob) (st_windows st);
           st' \<leftarrow> recordPathUnique ev crossPath ob (st\<lparr>st_windows := w\<rparr>);
           Some (st', calls)
         }))"

definition geo_detail :: "observation \<Rightarrow> 're site \<Rightarrow> metric_call list" where
  "geo_detail ob cfg =
     (if o_Kind ob = KindPageview then
        (if RegionEnabled (Defaults cfg) \<and> o_Region ob \<noteq> [] then [Inc FRegions [o_Site ob, o_Region ob]] else []) @
        (if CityEnabled (Defaults cfg) \<and> o_City ob \<noteq> [] then [Inc FCities [o_Site ob, o_City ob]] else [])
      else [])"

definition record_site ::
  "'s env \<Rightarrow> observation \<Rightarrow> ('s, 're) site_state \<times> metric_call list \<Rightarrow>
     (('s, 're) site_state \<times> metric_call list) option" where
  "record_site ev ob stc =
     (if o_Kind ob = KindEngagement then Some (recordEngagement ob stc)
      else do {
        (purePath, crossPath, st) \<leftarrow> admit_paths ev ob (fst stc);
        stc1 \<leftarrow> record_pageview ev ob purePath crossPath (st, snd stc);
        stc2 \<leftarrow> loop_opt (record_dimension ev ob crossPath) dimensions stc1;
        Some (fst stc2, snd stc2 @ geo_detail ob (st_cfg (fst stc2)))
      })"

text \<open>The program survives when the client takes every call made since \<open>before\<close>.\<close>

definition survives :: "'s env \<Rightarrow> metric_call list \<Rightarrow> ('s, 're) registry \<Rightarrow> ('s, 're) registry option" where
  "survives ev before r = (if list_all (ev_accepts ev) (drop (length before) (rg_calls r)) then Some r else None)"

definition Record :: "'s env \<Rightarrow> time \<Rightarrow> observation \<Rightarrow> ('s, 're) registry \<Rightarrow> ('s, 're) registry option" where
  "Record ev clock ob r =
     (case map_of (rg_sites r) (o_Site ob) of
        None \<Rightarrow> survives ev (rg_calls r)
          (r\<lparr>rg_calls := rg_calls r @ [Inc FIngestEvents [''unknown'', ''unknown_site'']]\<rparr>)
      | Some st \<Rightarrow>
          (let ob = (if o_At ob = zero_time then ob\<lparr>o_At := clock\<rparr> else ob) in
           do {
             (st', calls) \<leftarrow> record_site ev ob (st, rg_calls r);
             survives ev (rg_calls r)
               (r\<lparr>rg_sites := AList.update (o_Site ob) st' (rg_sites r), rg_calls := calls\<rparr>)
           }))"

section \<open>Housekeeping\<close>

definition maintain_pure :: "time \<Rightarrow> ('s, 're) site_state \<times> metric_call list \<Rightarrow> ('s, 're) site_state \<times> metric_call list" where
  "maintain_pure now stc =
     (let st = fst stc; site = Domain (st_cfg st);
          (dropped, g, c) = Decay now (DecayAfter (Defaults (st_cfg st))) (st_purePath st, st_pathCounter st)
      in (st\<lparr>st_purePath := g, st_pathCounter := c\<rparr>,
          snd stc @ concat (map (\<lambda>p. [DeleteLabelValues FPageviews [site, p], DeleteLabelValues FEntries [site, p],
            DeleteLabelValues FExits [site, p]]) dropped)))"

definition maintain_cross :: "time \<Rightarrow> ('s, 're) site_state \<times> metric_call list \<Rightarrow> ('s, 're) site_state \<times> metric_call list" where
  "maintain_cross now stc =
     (let st = fst stc; site = Domain (st_cfg st);
          (dropped, g, c) = Decay now (DecayAfter (Defaults (st_cfg st))) (st_crossPath st, st_pathCounter st)
      in (st\<lparr>st_crossPath := g, st_pathCounter := c, st_pathUniques := fold AList.delete dropped (st_pathUniques st)\<rparr>,
          snd stc @ concat (map (\<lambda>p. map (\<lambda>d. DeletePartialMatch (FDim (d_dim d)) [(''site'', site), (''path'', p)]) dimensions @
            [DeletePartialMatch FTimeOnPage [(''site'', site), (''path'', p)]]) dropped)))"

definition maintain_dimension ::
  "time \<Rightarrow> dimension \<Rightarrow> ('s, 're) site_state \<times> metric_call list \<Rightarrow> (('s, 're) site_state \<times> metric_call list) option" where
  "maintain_dimension now d stc =
     (let st = fst stc; site = Domain (st_cfg st) in
      do {
        gc \<leftarrow> map_of (st_guards st) (d_dim d);
        let (dropped, gc') = Decay now (DecayAfter (Defaults (st_cfg st))) gc;
        Some (st\<lparr>st_guards := AList.update (d_dim d) gc' (st_guards st)\<rparr>,
          snd stc @ map (\<lambda>v. DeletePartialMatch (FDim (d_dim d)) [(''site'', site), (hd (d_labels d), v)]) dropped)
      })"

definition maintain_site ::
  "time \<Rightarrow> ('s, 're) site_state \<times> metric_call list \<Rightarrow> (('s, 're) site_state \<times> metric_call list) option" where
  "maintain_site now stc =
     (let (n, ss, calls) = Sweep registry_sink now (st_sessions (fst stc), snd stc)
      in loop_opt (maintain_dimension now) dimensions
           (maintain_cross now (maintain_pure now ((fst stc)\<lparr>st_sessions := ss\<rparr>, calls))))"

definition maintain_key :: "time \<Rightarrow> string \<Rightarrow> ('s, 're) registry \<Rightarrow> ('s, 're) registry option" where
  "maintain_key now k r =
     (case map_of (rg_sites r) k of
        None \<Rightarrow> Some r
      | Some st \<Rightarrow> do {
          (st', calls) \<leftarrow> maintain_site now (st, rg_calls r);
          Some (r\<lparr>rg_sites := AList.update k st' (rg_sites r), rg_calls := calls\<rparr>)
        })"

definition Maintain :: "'s env \<Rightarrow> time \<Rightarrow> ('s, 're) registry \<Rightarrow> ('s, 're) registry option" where
  "Maintain ev now r =
     do {
       r' \<leftarrow> loop_opt (maintain_key now) (map fst (rg_sites r)) r;
       survives ev (rg_calls r) r'
     }"

end
