(* ===== verification/Registry_Bounds.thy ===== *)
theory Registry_Bounds
  imports Registry
begin

text \<open>
  What the registry promises about its series: which exist (\<open>live\<close>), which label values they
  may carry (\<open>covered\<close>), and that \<open>Record\<close>, \<open>Maintain\<close> and \<open>Configure\<close> keep it so
  (\<open>site_inv\<close>, \<open>reg_inv\<close>). The cardinality bounds follow from the caps of the guards, the
  session accounting from the interface \<open>session_sink\<close>.
\<close>

section \<open>The series that exist after a sequence of calls\<close>

definition matches :: "family \<Rightarrow> (string \<times> string) list \<Rightarrow> string list \<Rightarrow> bool" where
  "matches f kvs ls \<longleftrightarrow> (\<forall>(k, v) \<in> set kvs. map_of (zip (label_names f) ls) k = Some v)"

fun live_step :: "family \<Rightarrow> metric_call \<Rightarrow> string list set \<Rightarrow> string list set" where
  "live_step f (Inc g ls) L = (if g = f then insert ls L else L)"
| "live_step f (Observe g ls _) L = (if g = f then insert ls L else L)"
| "live_step f (DeleteLabelValues g ls) L = (if g = f then L - {ls} else L)"
| "live_step f (DeletePartialMatch g kvs) L = (if g = f then {ls \<in> L. \<not> matches f kvs ls} else L)"

definition live :: "family \<Rightarrow> metric_call list \<Rightarrow> string list set" where
  "live f calls = fold (live_step f) calls {}"

fun call_labels :: "metric_call \<Rightarrow> (family \<times> string list) option" where
  "call_labels (Inc f ls) = Some (f, ls)"
| "call_labels (Observe f ls _) = Some (f, ls)"
| "call_labels _ = None"

lemma live_append: "live f (a @ b) = fold (live_step f) b (live f a)"
  by (simp add: live_def)

lemma live_grow_fold:
  "\<forall>c \<in> set new. call_labels c \<noteq> None \<Longrightarrow>
   fold (live_step f) new L = L \<union> {ls. \<exists>c \<in> set new. call_labels c = Some (f, ls)}"
proof (induction new arbitrary: L)
  case (Cons c new)
  then show ?case by (cases c) auto
qed simp

fun deletes :: "family \<Rightarrow> metric_call \<Rightarrow> string list \<Rightarrow> bool" where
  "deletes f (DeleteLabelValues g ls') ls = (g = f \<and> ls = ls')"
| "deletes f (DeletePartialMatch g kvs) ls = (g = f \<and> matches f kvs ls)"
| "deletes f _ ls = False"

lemma live_shrink_fold:
  "\<forall>c \<in> set new. call_labels c = None \<Longrightarrow>
   fold (live_step f) new L = {ls \<in> L. \<forall>c \<in> set new. \<not> deletes f c ls}"
proof (induction new arbitrary: L)
  case (Cons c new)
  then show ?case by (cases c) auto
qed simp

section \<open>The invariant of a site\<close>

definition glabels :: "guard \<Rightarrow> string set" where
  "glabels g = insert OtherLabel (insert NoneLabel (admitted g))"

lemma finite_glabels [simp]: "finite (glabels g)"
  by (simp add: glabels_def)

lemma card_glabels: "guard_ok g \<Longrightarrow> int (card (glabels g)) \<le> g_cap g + 2"
proof -
  assume "guard_ok g"
  have "card (glabels g) \<le> Suc (Suc (card (admitted g)))"
    by (simp add: glabels_def card_insert_if)
  with admitted_card [OF \<open>guard_ok g\<close>] show ?thesis by simp
qed

definition dim_guard :: "('s, 're) site_state \<Rightarrow> string \<Rightarrow> guard" where
  "dim_guard st dim = fst (the (map_of (st_guards st) dim))"

definition dims :: "string set" where
  "dims = d_dim ` set dimensions"

definition covered :: "('s, 're) site_state \<Rightarrow> family \<Rightarrow> string list \<Rightarrow> bool" where
  "covered st f ls \<longleftrightarrow>
     (case f of
        FPageviews \<Rightarrow> \<exists>s. \<exists>p \<in> glabels (st_purePath st). ls = [s, p]
      | FEntries \<Rightarrow> \<exists>s. \<exists>p \<in> glabels (st_purePath st). ls = [s, p]
      | FTimeOnPage \<Rightarrow> \<exists>s. \<exists>p \<in> glabels (st_crossPath st). ls = [s, p]
      | FDim dim \<Rightarrow> dim \<in> dims \<and>
          (\<exists>s. \<exists>v \<in> glabels (dim_guard st dim). \<exists>p \<in> insert AllLabel (glabels (st_crossPath st)).
            if dim = DimASN then \<exists>org. ls = [s, v, org, p] else ls = [s, v, p])
      | _ \<Rightarrow> True)"

definition state_ok :: "('s, 're) site_state \<Rightarrow> bool" where
  "state_ok st \<longleftrightarrow>
     counter_ok (st_pathCounter st) \<and> guard_ok (st_purePath st) \<and> guard_ok (st_crossPath st) \<and>
     (\<forall>dim \<in> dims. case map_of (st_guards st) dim of None \<Rightarrow> False | Some gc \<Rightarrow> pair_ok gc) \<and>
     sessions_ok (st_sessions st) \<and> windows_shape (st_windows st) \<and> gm_ok (st_pathUniques st) \<and>
     (\<forall>(p, roll) \<in> set (st_pathUniques st). ring_shape hour_ns 24 roll \<and> p \<in> admitted (st_crossPath st))"

definition site_inv :: "string \<Rightarrow> ('s, 're) site_state \<Rightarrow> metric_call list \<Rightarrow> bool" where
  "site_inv site st calls \<longleftrightarrow>
     state_ok st \<and> Domain (st_cfg st) = site \<and> ss_site (st_sessions st) = site \<and>
     (\<forall>f ls. site # ls \<in> live f calls \<longrightarrow> covered st f (site # ls))"

text \<open>What a step may do to a state without uncovering a series.\<close>

definition grows :: "('s, 're) site_state \<Rightarrow> ('s, 're) site_state \<Rightarrow> bool" where
  "grows st st' \<longleftrightarrow>
     admitted (st_purePath st) \<subseteq> admitted (st_purePath st') \<and>
     admitted (st_crossPath st) \<subseteq> admitted (st_crossPath st') \<and>
     (\<forall>dim. admitted (dim_guard st dim) \<subseteq> admitted (dim_guard st' dim)) \<and>
     st_cfg st' = st_cfg st \<and> ss_site (st_sessions st') = ss_site (st_sessions st) \<and>
     g_cap (st_purePath st') = g_cap (st_purePath st) \<and> g_cap (st_crossPath st') = g_cap (st_crossPath st) \<and>
     (\<forall>dim. g_cap (dim_guard st' dim) = g_cap (dim_guard st dim))"

lemma grows_refl [simp]: "grows st st"
  by (simp add: grows_def)

lemma grows_trans: "grows a b \<Longrightarrow> grows b c \<Longrightarrow> grows a c"
  unfolding grows_def by (metis (no_types, lifting) order_trans)

lemma covered_dimI:
  "dim \<in> dims \<Longrightarrow> v \<in> glabels (dim_guard st dim) \<Longrightarrow> p \<in> insert AllLabel (glabels (st_crossPath st)) \<Longrightarrow>
   (if dim = DimASN then \<exists>org. ls = [s, v, org, p] else ls = [s, v, p]) \<Longrightarrow> covered st (FDim dim) ls"
  unfolding covered_def family.case by (intro conjI exI [of _ s] bexI [of _ v] bexI [of _ p])

lemma covered_dimE:
  assumes "covered st (FDim dim) ls"
  obtains s v p where "dim \<in> dims" "v \<in> glabels (dim_guard st dim)" "p \<in> insert AllLabel (glabels (st_crossPath st))"
    "if dim = DimASN then \<exists>org. ls = [s, v, org, p] else ls = [s, v, p]"
  using assms unfolding covered_def family.case by blast

lemma covered_mono: "grows st st' \<Longrightarrow> covered st f ls \<Longrightarrow> covered st' f ls"
proof -
  assume g: "grows st st'" and c: "covered st f ls"
  have sub: "glabels (st_purePath st) \<subseteq> glabels (st_purePath st')"
      "glabels (st_crossPath st) \<subseteq> glabels (st_crossPath st')"
      "glabels (dim_guard st dim) \<subseteq> glabels (dim_guard st' dim)" for dim
    using g unfolding grows_def glabels_def by blast+
  show ?thesis
  proof (cases f)
    case (FDim dim)
    obtain s v p where vp: "dim \<in> dims" "v \<in> glabels (dim_guard st dim)" "p \<in> insert AllLabel (glabels (st_crossPath st))"
        "if dim = DimASN then \<exists>org. ls = [s, v, org, p] else ls = [s, v, p]"
      using c unfolding FDim by (rule covered_dimE)
    with sub have "v \<in> glabels (dim_guard st' dim)" "p \<in> insert AllLabel (glabels (st_crossPath st'))"
      by blast+
    with vp(1,4) show ?thesis unfolding FDim by (intro covered_dimI)
  qed (use c sub in \<open>auto simp: covered_def\<close>)
qed

text \<open>\<open>fits st c\<close>: the call labels a series of the site that \<open>st\<close> covers.\<close>

definition fits :: "('s, 're) site_state \<Rightarrow> metric_call \<Rightarrow> bool" where
  "fits st c \<longleftrightarrow> (\<exists>f ls. call_labels c = Some (f, Domain (st_cfg st) # ls) \<and> covered st f (Domain (st_cfg st) # ls))"

definition adds :: "('s, 're) site_state \<Rightarrow> metric_call list \<Rightarrow> metric_call list \<Rightarrow> bool" where
  "adds st a b \<longleftrightarrow> (\<exists>new. b = a @ new \<and> (\<forall>c \<in> set new. fits st c))"

lemma adds_refl [simp]: "adds st a a"
  by (simp add: adds_def)

lemma adds_one: "fits st c \<Longrightarrow> adds st a (a @ [c])"
  by (simp add: adds_def)

lemma fits_mono: "grows st st' \<Longrightarrow> fits st c \<Longrightarrow> fits st' c"
  unfolding fits_def using covered_mono by (metis grows_def)

lemma adds_trans: "adds st a b \<Longrightarrow> grows st st' \<Longrightarrow> adds st' b c \<Longrightarrow> adds st' a c"
  unfolding adds_def using fits_mono by (metis Un_iff append_assoc set_append)

lemma adds_inv:
  assumes "adds st' a b" and "grows st st'" and "site_inv site st a" and "state_ok st'"
  shows "site_inv site st' b"
proof -
  obtain new where new: "b = a @ new" "\<forall>c \<in> set new. fits st' c" using assms(1) by (auto simp: adds_def)
  then have "\<forall>c \<in> set new. call_labels c \<noteq> None" by (auto simp: fits_def)
  then have live: "live f b = live f a \<union> {ls. \<exists>c \<in> set new. call_labels c = Some (f, ls)}" for f
    by (simp add: new(1) live_append live_grow_fold)
  have site: "Domain (st_cfg st') = site" "ss_site (st_sessions st') = site"
    using assms(2,3) by (auto simp: site_inv_def grows_def)
  have "covered st' f (site # ls)" if "site # ls \<in> live f b" for f ls
    using that assms(3) covered_mono [OF assms(2)] new(2) by (auto simp: live site_inv_def fits_def site)
  with assms(4) site show ?thesis by (simp add: site_inv_def)
qed

section \<open>Sessions and their accounting\<close>

definition n_started :: "string \<Rightarrow> metric_call list \<Rightarrow> nat" where
  "n_started site calls = length (filter (\<lambda>c. c = Inc FSessionsTotal [site]) calls)"

definition n_ended :: "string \<Rightarrow> metric_call list \<Rightarrow> nat" where
  "n_ended site calls = length (filter (\<lambda>c. \<exists>d. c = Observe FSessionDur [site] d) calls)"

interpretation rs: session_sink registry_sink n_started n_ended
  by unfold_locales (auto simp: registry_sink_def n_started_def n_ended_def)

text \<open>The calls the tracker makes carry the labels of the session families only.\<close>

definition session_call :: "string \<Rightarrow> metric_call \<Rightarrow> bool" where
  "session_call site c \<longleftrightarrow>
     (\<exists>f ls. call_labels c = Some (f, site # ls) \<and> f \<in> {FSessionsTotal, FSessionDur, FExits, FBounces})"

definition session_adds :: "string \<Rightarrow> metric_call list \<Rightarrow> metric_call list \<Rightarrow> bool" where
  "session_adds site a b \<longleftrightarrow> (\<exists>new. b = a @ new \<and> (\<forall>c \<in> set new. session_call site c))"

lemma session_adds_trans: "session_adds site a b \<Longrightarrow> session_adds site b c \<Longrightarrow> session_adds site a c"
  unfolding session_adds_def by (metis Un_iff append_assoc set_append)

lemma session_adds_refl [simp]: "session_adds site a a"
  by (simp add: session_adds_def)

lemma sink_adds:
  "session_adds site k (SessionStarted registry_sink site p k)"
  "session_adds site k (SessionEnded registry_sink site e k)"
  by (auto simp: registry_sink_def session_adds_def session_call_def)

lemma report_adds: "session_adds site k (report_ended registry_sink site es k)"
  unfolding report_ended_def
proof (induction es arbitrary: k)
  case (Cons e es)
  show ?case
    using session_adds_trans [OF sink_adds(2) Cons.IH] by simp
qed simp

lemma evict_adds:
  assumes "sessions_ok s" and "evictOldest registry_sink (s, k) = (s', k')"
  shows "sessions_ok s' \<and> ss_site s' = ss_site s \<and> session_adds (ss_site s) k k'"
proof -
  obtain es where e: "evict_loop s = (es, s')" "k' = report_ended registry_sink (ss_site s') es k"
    using assms(2) by (auto simp: evictOldest_def split: prod.splits)
  with evict_loop_shape [OF assms(1) e(1)] report_adds show ?thesis by auto
qed

lemma Touch_adds:
  assumes ok: "sessions_ok s" and eq: "Touch registry_sink i p now (s, k) = (b, s', k')"
  shows "sessions_ok s' \<and> ss_site s' = ss_site s \<and> session_adds (ss_site s) k k'"
proof -
  obtain out s1 where f: "touch_first i p now s = (out, s1)" by force
  note s1 = touch_first_shape [OF f ok]
  show ?thesis
  proof (cases out)
    case Hit
    with eq f s1 show ?thesis by (simp add: Touch_def)
  next
    case (Idle e)
    obtain over s2 where o2: "touch_open i p now s1 = (over, s2)" by force
    note s2 = touch_open_shape [OF o2 conjunct1 [OF s1]]
    let ?k = "SessionStarted registry_sink (ss_site s2) p (SessionEnded registry_sink (ss_site s1) e k)"
    have k: "session_adds (ss_site s) k ?k"
      using s1 s2 session_adds_trans [OF sink_adds(2) sink_adds(1)] by simp
    obtain s3 k3 where e3: "evictOldest registry_sink (s2, ?k) = (s3, k3)" by force
    have "(s', k') = (if over then (s3, k3) else (s2, ?k))"
      using eq f o2 e3 by (auto simp: Touch_def Idle Let_def split: if_splits)
    with k s1 s2 evict_adds [OF _ e3] session_adds_trans [OF k] show ?thesis
      by (auto split: if_splits)
  next
    case Fresh
    obtain over s2 where o2: "touch_open i p now s1 = (over, s2)" by force
    note s2 = touch_open_shape [OF o2 conjunct1 [OF s1]]
    let ?k = "SessionStarted registry_sink (ss_site s2) p k"
    have k: "session_adds (ss_site s) k ?k"
      using s1 s2 sink_adds(1) by simp
    obtain s3 k3 where e3: "evictOldest registry_sink (s2, ?k) = (s3, k3)" by force
    have "(s', k') = (if over then (s3, k3) else (s2, ?k))"
      using eq f o2 e3 by (auto simp: Touch_def Fresh Let_def split: if_splits)
    with k s1 s2 evict_adds [OF _ e3] session_adds_trans [OF k] show ?thesis
      by (auto split: if_splits)
  qed
qed

lemma Sweep_adds:
  assumes ok: "sessions_ok s" and eq: "Sweep registry_sink now (s, k) = (n, s', k')"
  shows "sessions_ok s' \<and> ss_site s' = ss_site s \<and> session_adds (ss_site s) k k'"
proof -
  obtain es where e: "sweep_locked now s = (es, s')" "k' = report_ended registry_sink (ss_site s') es k"
    using eq by (auto simp: Sweep_def split: prod.splits)
  have "ss_site s' = ss_site s" using e(1) by (auto simp: sweep_locked_def split: prod.splits)
  with e sweep_entry(2) [OF ok, of now] report_adds show ?thesis by simp
qed

lemma session_fits: "session_call (Domain (st_cfg st)) c \<Longrightarrow> fits st c"
  by (auto simp: session_call_def fits_def covered_def)

lemma session_adds_fit: "session_adds (Domain (st_cfg st)) a b \<Longrightarrow> adds st a b"
  unfolding session_adds_def adds_def using session_fits by blast

section \<open>Recording keeps the invariant\<close>

lemma state_ok_sessions: "state_ok st \<Longrightarrow> sessions_ok ss \<Longrightarrow> state_ok (st\<lparr>st_sessions := ss\<rparr>)"
  by (simp add: state_ok_def)

lemma dim_guard_simps [simp]:
  "dim_guard (st\<lparr>st_sessions := ss\<rparr>) dim = dim_guard st dim"
  "dim_guard (st\<lparr>st_windows := w\<rparr>) dim = dim_guard st dim"
  "dim_guard (st\<lparr>st_pathUniques := u\<rparr>) dim = dim_guard st dim"
  "dim_guard (st\<lparr>st_purePath := pg\<rparr>) dim = dim_guard st dim"
  "dim_guard (st\<lparr>st_crossPath := xg\<rparr>) dim = dim_guard st dim"
  "dim_guard (st\<lparr>st_pathCounter := c\<rparr>) dim = dim_guard st dim"
  "dim_guard (st\<lparr>st_cfg := cfg\<rparr>) dim = dim_guard st dim"
  by (simp_all add: dim_guard_def)

lemma grows_sessions: "ss_site ss = ss_site (st_sessions st) \<Longrightarrow> grows st (st\<lparr>st_sessions := ss\<rparr>)"
  by (simp add: grows_def)

lemma admit_paths_ok:
  assumes "state_ok st"
  shows "\<exists>p x st'. admit_paths ev ob st = Some (p, x, st') \<and> state_ok st' \<and> grows st st' \<and>
    p \<in> glabels (st_purePath st') \<and> x \<in> glabels (st_crossPath st')"
proof -
  have "pair_ok (st_purePath st, st_pathCounter st)"
    using assms by (simp add: state_ok_def pair_ok_def)
  from ga.admit_total [OF this] obtain p pg c1 where
    a: "Admit (ev_xx ev) (o_Path ob) (o_At ob) (st_purePath st, st_pathCounter st) = Some (p, pg, c1)"
    by fastforce
  note a' = Admit_keeps [OF \<open>pair_ok (st_purePath st, st_pathCounter st)\<close> a]
  have x: "pair_ok (st_crossPath st, c1)"
    using assms a' by (simp add: state_ok_def pair_ok_def)
  from ga.admit_total [OF this] obtain q xg c2 where
    b: "Admit (ev_xx ev) (o_Path ob) (o_At ob) (st_crossPath st, c1) = Some (q, xg, c2)"
    by fastforce
  note b' = Admit_keeps [OF x b]
  have "\<forall>(q, roll) \<in> set (st_pathUniques st). ring_shape hour_ns 24 roll \<and> q \<in> admitted xg"
    using assms b' unfolding state_ok_def by auto
  then have "state_ok (st\<lparr>st_purePath := pg, st_crossPath := xg, st_pathCounter := c2\<rparr>)"
    using assms a' b' by (simp add: state_ok_def pair_ok_def)
  moreover have "grows st (st\<lparr>st_purePath := pg, st_crossPath := xg, st_pathCounter := c2\<rparr>)"
    using a' b' by (simp add: grows_def)
  ultimately show ?thesis
    using a b a' b' by (simp add: admit_paths_def glabels_def)
qed

lemma admit_dim_ok:
  assumes ok: "state_ok st" and dim: "dim \<in> dims"
  shows "\<exists>v st'. admit_dim ev dim x now st = Some (v, st') \<and> state_ok st' \<and> grows st st' \<and>
    v \<in> glabels (dim_guard st' dim) \<and> st_crossPath st' = st_crossPath st"
proof -
  obtain gc where gc: "map_of (st_guards st) dim = Some gc" "pair_ok gc"
    using assms by (auto simp: state_ok_def split: option.splits)
  from ga.admit_total [OF gc(2)] obtain v gc' where a: "Admit (ev_xx ev) x now gc = Some (v, gc')" by blast
  note a' = Admit_keeps [OF gc(2) a]
  let ?st = "st\<lparr>st_guards := AList.update dim gc' (st_guards st)\<rparr>"
  have g: "dim_guard ?st d = (if d = dim then fst gc' else dim_guard st d)" for d
    by (simp add: dim_guard_def update_conv')
  have "dim_guard st dim = fst gc" by (simp add: dim_guard_def gc)
  then have "grows st ?st" using a' by (simp add: grows_def g)
  moreover have "state_ok ?st"
    using ok a' by (simp add: state_ok_def update_conv')
  ultimately show ?thesis
    using a a' gc(1) by (auto simp: admit_dim_def g glabels_def)
qed

lemma recordPathUnique_ok:
  assumes ok: "state_ok st" and p: "path \<in> glabels (st_crossPath st)" and at: "0 \<le> o_At ob" "o_At ob \<le> max_duration"
  shows "\<exists>st'. recordPathUnique ev path ob st = Some st' \<and> state_ok st' \<and> grows st st'"
proof (cases "\<not> UniqueVisitorsByPath (Defaults (st_cfg st)) \<or> path = OtherLabel \<or> path = NoneLabel")
  case True
  with ok show ?thesis by (simp add: recordPathUnique_def)
next
  case False
  let ?roll = "case map_of (st_pathUniques st) path of
            Some roll \<Rightarrow> roll | None \<Rightarrow> NewRolling (ev_hll ev) hour_ns 24 True"
  have u: "gm_ok (st_pathUniques st)"
      "\<forall>(q, roll) \<in> set (st_pathUniques st). ring_shape hour_ns 24 roll \<and> q \<in> admitted (st_crossPath st)"
    using ok by (auto simp: state_ok_def)
  have "ring_shape hour_ns 24 ?roll"
    using u by (auto simp: ring_shape_new gm_get_iff split: option.split)
  then obtain r where r: "rolling_Insert (ev_hll ev) (o_VisitorID ob) (o_At ob) ?roll = Some r" "ring_shape hour_ns 24 r"
    using ring_shape_insert [of hour_ns 24 ?roll "o_At ob" "ev_hll ev" "o_VisitorID ob"] at by auto
  have "path \<in> admitted (st_crossPath st)" using p False by (auto simp: glabels_def)
  then have "\<forall>(q, roll) \<in> set (AList.update path r (st_pathUniques st)). ring_shape hour_ns 24 roll \<and> q \<in> admitted (st_crossPath st)"
    using u r(2) by (auto simp: gm_get_iff [symmetric] update_conv' split: if_splits)
  then have "state_ok (st\<lparr>st_pathUniques := AList.update path r (st_pathUniques st)\<rparr>)"
    using ok u(1) by (simp add: state_ok_def)
  moreover have "grows st (st\<lparr>st_pathUniques := AList.update path r (st_pathUniques st)\<rparr>)"
    by (simp add: grows_def)
  ultimately show ?thesis using False r(1) by (auto simp: recordPathUnique_def Let_def)
qed

lemma record_pageview_ok:
  assumes ok: "state_ok st" and site: "Domain (st_cfg st) = o_Site ob" "ss_site (st_sessions st) = o_Site ob"
    and p: "p \<in> glabels (st_purePath st)" and x: "x \<in> glabels (st_crossPath st)"
    and at: "0 \<le> o_At ob" "o_At ob \<le> max_duration"
  shows "\<exists>st' calls'. record_pageview ev ob p x (st, calls) = Some (st', calls') \<and> state_ok st' \<and> grows st st' \<and>
    adds st' calls calls'"
proof (cases "o_Kind ob = KindPageview")
  case False
  with ok show ?thesis by (simp add: record_pageview_def)
next
  case True
  define pv where "pv = calls @ [Inc FPageviews [o_Site ob, p]]"
  obtain b ss k where t: "Touch registry_sink (o_VisitorID ob) p (o_At ob) (st_sessions st, pv) = (b, ss, k)"
    by (metis prod.collapse)
  have t': "sessions_ok ss" "ss_site ss = o_Site ob" "session_adds (o_Site ob) pv k"
    using Touch_adds [OF _ t] ok site by (auto simp: state_ok_def)
  define k' where "k' = (if b then k @ [Inc FEntries [o_Site ob, p]] else k)"
  have fp: "fits st (Inc FPageviews [o_Site ob, p])" "fits st (Inc FEntries [o_Site ob, p])"
    using p site by (auto simp: fits_def covered_def)
  have "adds st calls k'"
    using adds_trans [OF adds_trans [OF adds_one [OF fp(1)] grows_refl session_adds_fit] grows_refl]
      adds_one [OF fp(2)] t'(3) site by (auto simp: k'_def pv_def)
  obtain w where w: "windows_Insert (ev_hll ev) (Location (st_cfg st)) (o_VisitorID ob) (o_At ob) (st_windows st) = Some w"
      "windows_shape w"
    using windows_shape_insert [OF _ at] ok by (metis state_ok_def)
  let ?st = "st\<lparr>st_sessions := ss, st_windows := w\<rparr>"
  have "state_ok ?st" using ok t' w(2) by (simp add: state_ok_def)
  moreover have "x \<in> glabels (st_crossPath ?st)" using x by simp
  ultimately obtain st' where u: "recordPathUnique ev x ob ?st = Some st'" "state_ok st'" "grows ?st st'"
    using recordPathUnique_ok [OF _ _ at] by blast
  have "grows st ?st" using t'(2) site by (simp add: grows_def)
  then have g: "grows st st'" using u(3) grows_trans by blast
  have "adds st' calls k'"
    using adds_trans [OF adds_refl g] \<open>adds st calls k'\<close> fits_mono [OF g] by (auto simp: adds_def)
  with u g w t True show ?thesis
    by (auto simp: record_pageview_def k'_def pv_def)
qed

lemma fits_dim:
  "v \<in> glabels (dim_guard st dim) \<Longrightarrow> p \<in> insert AllLabel (glabels (st_crossPath st)) \<Longrightarrow>
   Domain (st_cfg st) = site \<Longrightarrow> dim \<in> dims \<Longrightarrow>
   (if dim = DimASN then \<exists>org. ls = [v, org, p] else ls = [v, p]) \<Longrightarrow> fits st (Inc (FDim dim) (site # ls))"
  unfolding fits_def covered_def call_labels.simps by (auto split: if_splits)

lemma record_dimension_ok:
  assumes ok: "state_ok st" and site: "Domain (st_cfg st) = o_Site ob"
    and x: "x \<in> glabels (st_crossPath st)" and d: "d \<in> set dimensions"
  shows "\<exists>st' calls'. record_dimension ev ob x d (st, calls) = Some (st', calls') \<and> state_ok st' \<and> grows st st' \<and>
    adds st' calls calls' \<and> st_crossPath st' = st_crossPath st"
proof -
  have dim: "d_dim d \<in> dims" using d by (simp add: dims_def)
  define p where "p = (if HasPathLabel (st_cfg st) (d_dim d) then x else AllLabel)"
  have p: "p \<in> insert AllLabel (glabels (st_crossPath st))" using x by (simp add: p_def)
  have step: "\<exists>v st'. admit_dim ev (d_dim d) w (o_At ob) st = Some (v, st') \<and> state_ok st' \<and> grows st st' \<and>
      st_crossPath st' = st_crossPath st \<and> Domain (st_cfg st') = o_Site ob \<and>
      v \<in> glabels (dim_guard st' (d_dim d)) \<and> p \<in> insert AllLabel (glabels (st_crossPath st'))" for w
    using admit_dim_ok [OF ok dim, of ev w "o_At ob"] p site by (auto simp: grows_def)
  consider (event) "d_dim d = DimEvent" | (asn) "d_dim d = DimASN" | (other) "d_dim d \<noteq> DimEvent" "d_dim d \<noteq> DimASN"
    by blast
  then show ?thesis
  proof cases
    case event
    then have ne: "DimEvent \<noteq> DimASN" by (simp add: dim_defs)
    show ?thesis
    proof (cases "o_Kind ob = KindCustom")
      case True
      obtain v st' where v: "admit_dim ev (d_dim d) (o_Name ob) (o_At ob) st = Some (v, st')" "state_ok st'" "grows st st'"
          "st_crossPath st' = st_crossPath st" "Domain (st_cfg st') = o_Site ob"
          "v \<in> glabels (dim_guard st' (d_dim d))" "p \<in> insert AllLabel (glabels (st_crossPath st'))"
        using step by blast
      have "fits st' (Inc (FDim DimEvent) [o_Site ob, v, p])"
        using fits_dim [OF v(6,7,5) dim, of "[v, p]"] event ne by simp
      with v event True show ?thesis
        by (cases "HasPathLabel (st_cfg st) (d_dim d)") (simp_all add: record_dimension_def Let_def adds_one p_def)
    next
      case False
      with event ok show ?thesis by (simp add: record_dimension_def)
    qed
  next
    case asn
    then have ne: "DimASN \<noteq> DimEvent" by (simp add: dim_defs)
    show ?thesis
    proof (cases "o_Kind ob = KindPageview")
      case True
      obtain v st' where v: "admit_dim ev (d_dim d) (o_ASN ob) (o_At ob) st = Some (v, st')" "state_ok st'" "grows st st'"
          "st_crossPath st' = st_crossPath st" "Domain (st_cfg st') = o_Site ob"
          "v \<in> glabels (dim_guard st' (d_dim d))" "p \<in> insert AllLabel (glabels (st_crossPath st'))"
        using step by blast
      have "fits st' (Inc (FDim DimASN) [o_Site ob, v, org, p])" for org
        using fits_dim [OF v(6,7,5) dim, of "[v, org, p]"] asn by simp
      with v asn ne True show ?thesis
        by (cases "HasPathLabel (st_cfg st) (d_dim d)") (simp_all add: record_dimension_def Let_def adds_one p_def)
    next
      case False
      with asn ne ok show ?thesis by (simp add: record_dimension_def)
    qed
  next
    case other
    show ?thesis
    proof (cases "o_Kind ob = KindPageview")
      case True
      obtain v st' where v: "admit_dim ev (d_dim d) (dimValue ob (d_dim d)) (o_At ob) st = Some (v, st')" "state_ok st'"
          "grows st st'" "st_crossPath st' = st_crossPath st" "Domain (st_cfg st') = o_Site ob"
          "v \<in> glabels (dim_guard st' (d_dim d))" "p \<in> insert AllLabel (glabels (st_crossPath st'))"
        using step by blast
      have "fits st' (Inc (FDim (d_dim d)) [o_Site ob, v, p])"
        using fits_dim [OF v(6,7,5) dim, of "[v, p]"] other by simp
      with v other True show ?thesis
        by (cases "HasPathLabel (st_cfg st) (d_dim d)") (simp_all add: record_dimension_def Let_def adds_one p_def)
    next
      case False
      with other ok show ?thesis by (simp add: record_dimension_def)
    qed
  qed
qed

lemma record_dimensions_ok:
  assumes "state_ok st" and "Domain (st_cfg st) = o_Site ob" and "x \<in> glabels (st_crossPath st)"
    and "set ds \<subseteq> set dimensions"
  shows "\<exists>st' calls'. loop_opt (record_dimension ev ob x) ds (st, calls) = Some (st', calls') \<and> state_ok st' \<and> grows st st' \<and>
    adds st' calls calls'"
  using assms
proof (induction ds arbitrary: st calls)
  case Nil
  then show ?case by simp
next
  case (Cons d ds)
  obtain st1 calls1 where s: "record_dimension ev ob x d (st, calls) = Some (st1, calls1)" "state_ok st1" "grows st st1"
      "adds st1 calls calls1" "st_crossPath st1 = st_crossPath st"
    using record_dimension_ok [of st ob x d ev calls] Cons.prems by auto
  have "Domain (st_cfg st1) = o_Site ob" using s(3) Cons.prems(2) by (simp add: grows_def)
  then obtain st2 calls2 where r: "loop_opt (record_dimension ev ob x) ds (st1, calls1) = Some (st2, calls2)" "state_ok st2"
      "grows st1 st2" "adds st2 calls1 calls2"
    using Cons.IH [of st1 calls1] s Cons.prems by auto
  have "grows st st2" "adds st2 calls calls2"
    using grows_trans [OF s(3) r(3)] adds_trans [OF s(4) r(3,4)] by blast+
  with s(1) r show ?case by simp
qed

lemma geo_detail_adds: "Domain (st_cfg st) = o_Site ob \<Longrightarrow> adds st calls (calls @ geo_detail ob cfg)"
  by (auto simp: adds_def geo_detail_def fits_def covered_def)

lemma recordEngagement_ok:
  assumes ok: "state_ok st" and site: "Domain (st_cfg st) = o_Site ob" "ss_site (st_sessions st) = o_Site ob"
    and eq: "recordEngagement ob (st, calls) = (st', calls')"
  shows "state_ok st' \<and> grows st st' \<and> adds st' calls calls'"
proof -
  let ?ss = "Extend (o_VisitorID ob) (o_At ob) (st_sessions st)"
  have st': "st' = st\<lparr>st_sessions := ?ss\<rparr>"
    using eq by (auto simp: recordEngagement_def Let_def split: if_splits)
  have ss: "sessions_ok ?ss" "ss_site ?ss = ss_site (st_sessions st)"
    using ok by (auto simp: Extend_def state_ok_def split: option.split)
  have ok': "state_ok st'" "grows st st'"
    using ok ss by (simp_all add: st' state_ok_def grows_def)
  have "fst (Peek (st_crossPath st) v) \<in> glabels (st_crossPath st)" for v
    by (auto simp: Peek_def glabels_def admitted_def)
  then have "fits st' (Observe FTimeOnPage [o_Site ob, fst (Peek (st_crossPath st) (o_Path ob))] t)" for t
    using site by (simp add: st' fits_def covered_def)
  then have "adds st' calls calls'"
    using eq adds_one by (auto simp: recordEngagement_def Let_def split: if_splits)
  with ok' show ?thesis by blast
qed

lemma record_site_ok:
  assumes ok: "state_ok st" and site: "Domain (st_cfg st) = o_Site ob" "ss_site (st_sessions st) = o_Site ob"
    and at: "0 \<le> o_At ob" "o_At ob \<le> max_duration"
  shows "\<exists>st' calls'. record_site ev ob (st, calls) = Some (st', calls') \<and> state_ok st' \<and> grows st st' \<and>
    adds st' calls calls'"
proof (cases "o_Kind ob = KindEngagement")
  case True
  then show ?thesis
    using recordEngagement_ok [OF ok site] by (auto simp: record_site_def) (metis prod.collapse)
next
  case False
  obtain p x st1 where a: "admit_paths ev ob st = Some (p, x, st1)" "state_ok st1" "grows st st1"
      "p \<in> glabels (st_purePath st1)" "x \<in> glabels (st_crossPath st1)"
    using admit_paths_ok [OF ok] by blast
  have site1: "Domain (st_cfg st1) = o_Site ob" "ss_site (st_sessions st1) = o_Site ob"
    using site a(3) by (simp_all add: grows_def)
  obtain st2 calls2 where b: "record_pageview ev ob p x (st1, calls) = Some (st2, calls2)" "state_ok st2" "grows st1 st2"
      "adds st2 calls calls2"
    using record_pageview_ok [OF a(2) site1 a(4,5) at] by blast
  have "x \<in> glabels (st_crossPath st2)" "Domain (st_cfg st2) = o_Site ob"
    using a(5) b(3) site1 by (auto simp: grows_def glabels_def)
  then obtain st3 calls3 where c: "loop_opt (record_dimension ev ob x) dimensions (st2, calls2) = Some (st3, calls3)"
      "state_ok st3" "grows st2 st3" "adds st3 calls2 calls3"
    using record_dimensions_ok [OF b(2)] by blast
  have g: "grows st st3" using a(3) b(3) c(3) grows_trans by blast
  have "Domain (st_cfg st3) = o_Site ob" using g site by (simp add: grows_def)
  then have "adds st3 calls (calls3 @ geo_detail ob (st_cfg st3))"
    using adds_trans [OF adds_trans [OF b(4) c(3,4)] grows_refl geo_detail_adds] by blast
  with g c(2) False a(1) b(1) c(1) show ?thesis by (simp add: record_site_def)
qed

section \<open>Housekeeping keeps the invariant\<close>

lemma live_pure_delete:
  "ls \<in> live f (calls @ concat (map (\<lambda>p. [DeleteLabelValues FPageviews [site, p], DeleteLabelValues FEntries [site, p],
            DeleteLabelValues FExits [site, p]]) ps)) \<longleftrightarrow>
   ls \<in> live f calls \<and> (f \<in> {FPageviews, FEntries, FExits} \<longrightarrow> (\<forall>p \<in> set ps. ls \<noteq> [site, p]))"
  unfolding live_append by (subst live_shrink_fold) auto

lemma dimension_table:
  "list_all (\<lambda>d. label_names (FDim (d_dim d)) = ''site'' # d_labels d @ [''path''] \<and>
     (if d_dim d = DimASN then d_labels d = [''asn'', ''as_org''] else d_labels d = [hd (d_labels d)]) \<and>
     hd (d_labels d) \<noteq> ''site'' \<and> ''path'' \<notin> set (d_labels d)) dimensions"
  by code_simp

lemma dimension_labels:
  assumes "d \<in> set dimensions"
  shows "label_names (FDim (d_dim d)) = ''site'' # d_labels d @ [''path'']"
    and "d_dim d = DimASN \<Longrightarrow> d_labels d = [''asn'', ''as_org'']"
    and "d_dim d \<noteq> DimASN \<Longrightarrow> d_labels d = [hd (d_labels d)]"
    and "hd (d_labels d) \<noteq> ''site''" and "''path'' \<notin> set (d_labels d)"
  using dimension_table assms by (simp_all add: list_all_iff)

lemma series_match:
  assumes "d \<in> set dimensions" and "d_dim d = DimASN \<longrightarrow> ls = [site, v, org, p]" and "d_dim d \<noteq> DimASN \<longrightarrow> ls = [site, v, p]"
  shows "matches (FDim (d_dim d)) [(''site'', site'), (''path'', p')] ls \<longleftrightarrow> site = site' \<and> p = p'"
    and "matches (FDim (d_dim d)) [(''site'', site'), (hd (d_labels d), v')] ls \<longleftrightarrow> site = site' \<and> v = v'"
proof -
  note l = dimension_labels [OF assms(1)]
  show "matches (FDim (d_dim d)) [(''site'', site'), (''path'', p')] ls \<longleftrightarrow> site = site' \<and> p = p'"
  proof (cases "d_dim d = DimASN")
    case True
    with assms(2) l(2) show ?thesis unfolding matches_def l(1) by auto
  next
    case False
    obtain a where "d_labels d = [a]" using l(3) False by blast
    with False assms(3) l(5) show ?thesis unfolding matches_def l(1) by auto
  qed
  show "matches (FDim (d_dim d)) [(''site'', site'), (hd (d_labels d), v')] ls \<longleftrightarrow> site = site' \<and> v = v'"
  proof (cases "d_dim d = DimASN")
    case True
    with assms(2) l(2) show ?thesis unfolding matches_def l(1) by auto
  next
    case False
    obtain a where "d_labels d = [a]" using l(3) False by blast
    with False assms(3) l(4) show ?thesis unfolding matches_def l(1) by auto
  qed
qed

lemma time_match: "matches FTimeOnPage [(''site'', site'), (''path'', p')] [site, p] \<longleftrightarrow> site = site' \<and> p = p'"
  by (auto simp: matches_def)

text \<open>\<open>keeps site a b\<close>: between the logs \<open>a\<close> and \<open>b\<close> nothing changed for other sites, and
  nothing appeared for \<open>site\<close> that is not covered.\<close>

definition others_kept :: "string \<Rightarrow> metric_call list \<Rightarrow> metric_call list \<Rightarrow> bool" where
  "others_kept site a b \<longleftrightarrow> (\<forall>f s ls. s \<noteq> site \<longrightarrow> (s # ls \<in> live f b \<longleftrightarrow> s # ls \<in> live f a))"

lemma others_kept_refl [simp]: "others_kept site a a"
  by (simp add: others_kept_def)

lemma others_kept_trans: "others_kept site a b \<Longrightarrow> others_kept site b c \<Longrightarrow> others_kept site a c"
  by (simp add: others_kept_def)

lemma adds_others: "adds st a b \<Longrightarrow> others_kept (Domain (st_cfg st)) a b"
proof -
  assume "adds st a b"
  then obtain new where new: "b = a @ new" "\<forall>c \<in> set new. fits st c" by (auto simp: adds_def)
  then have "\<forall>c \<in> set new. call_labels c \<noteq> None" by (auto simp: fits_def)
  then have "live f b = live f a \<union> {ls. \<exists>c \<in> set new. call_labels c = Some (f, ls)}" for f
    by (simp add: new(1) live_append live_grow_fold)
  then show ?thesis using new(2) by (fastforce simp: others_kept_def fits_def)
qed

definition same_frame :: "('s, 're) site_state \<Rightarrow> ('s, 're) site_state \<Rightarrow> bool" where
  "same_frame st st' \<longleftrightarrow>
     st_cfg st' = st_cfg st \<and>
     g_cap (st_purePath st') = g_cap (st_purePath st) \<and> g_cap (st_crossPath st') = g_cap (st_crossPath st) \<and>
     (\<forall>dim. g_cap (dim_guard st' dim) = g_cap (dim_guard st dim))"

lemma same_frame_refl [simp]: "same_frame st st"
  by (simp add: same_frame_def)

lemma same_frame_trans: "same_frame a b \<Longrightarrow> same_frame b c \<Longrightarrow> same_frame a c"
  by (simp add: same_frame_def)

lemma grows_same_frame: "grows st st' \<Longrightarrow> same_frame st st'"
  by (simp add: grows_def same_frame_def)

lemma maintain_pure_ok:
  assumes inv: "site_inv site st a" and eq: "maintain_pure now (st, a) = (st', b)"
  shows "site_inv site st' b \<and> same_frame st st' \<and> others_kept site a b"
proof -
  obtain gone g c where d: "Decay now (DecayAfter (Defaults (st_cfg st))) (st_purePath st, st_pathCounter st) = (gone, g, c)"
    by (metis prod.collapse)
  have ok: "state_ok st" "Domain (st_cfg st) = site" using inv by (simp_all add: site_inv_def)
  then have "pair_ok (st_purePath st, st_pathCounter st)" by (simp add: state_ok_def pair_ok_def)
  note d' = Decay_keeps [OF this d]
  have st': "st' = st\<lparr>st_purePath := g, st_pathCounter := c\<rparr>"
    and b: "b = a @ concat (map (\<lambda>p. [DeleteLabelValues FPageviews [site, p], DeleteLabelValues FEntries [site, p],
            DeleteLabelValues FExits [site, p]]) gone)"
    using eq ok(2) by (auto simp: maintain_pure_def Let_def d)
  have "state_ok st'" using ok(1) d' by (simp add: state_ok_def pair_ok_def st')
  moreover have "covered st' f (site # ls)" if "site # ls \<in> live f b" for f ls
  proof -
    have l: "site # ls \<in> live f a" "f \<in> {FPageviews, FEntries, FExits} \<longrightarrow> (\<forall>p \<in> set gone. site # ls \<noteq> [site, p])"
      using that unfolding b live_pure_delete by blast+
    then have "covered st f (site # ls)" using inv by (simp add: site_inv_def)
    then show ?thesis
      using l(2) d' by (cases f) (auto simp: covered_def st' glabels_def)
  qed
  moreover have "same_frame st st'" using d' by (simp add: same_frame_def st')
  moreover have "others_kept site a b"
    unfolding others_kept_def b live_pure_delete by auto
  ultimately show ?thesis using inv by (simp add: site_inv_def st')
qed

lemma fold_delete_entries: "gm_ok m \<Longrightarrow> fold AList.delete ks m = filter (\<lambda>(k, v). k \<notin> set ks) m"
proof (induction ks arbitrary: m)
  case (Cons k ks)
  have "fold AList.delete (k # ks) m = filter (\<lambda>(j, v). j \<notin> set ks) (AList.delete k m)"
    using Cons by simp
  also have "\<dots> = filter (\<lambda>(j, v). j \<notin> set (k # ks)) m"
    by (auto simp: gm_delete_filter intro!: filter_cong)
  finally show ?case .
qed (simp add: case_prod_beta')

lemma live_cross_delete:
  "ls \<in> live f (calls @ concat (map (\<lambda>p. map (\<lambda>d. DeletePartialMatch (FDim (d_dim d)) [(''site'', site), (''path'', p)]) dimensions @
            [DeletePartialMatch FTimeOnPage [(''site'', site), (''path'', p)]]) ps)) \<longleftrightarrow>
   ls \<in> live f calls \<and>
   (\<forall>p \<in> set ps. (f \<in> insert FTimeOnPage (FDim ` dims) \<longrightarrow> \<not> matches f [(''site'', site), (''path'', p)] ls))"
  unfolding live_append dims_def by (subst live_shrink_fold) auto

lemma series_path_match:
  assumes "dim \<in> dims" and "if dim = DimASN then \<exists>org. ls = [s, v, org, p] else ls = [s, v, p]"
  shows "matches (FDim dim) [(''site'', site'), (''path'', p')] ls \<longleftrightarrow> s = site' \<and> p = p'"
proof -
  obtain d where d: "d \<in> set dimensions" "dim = d_dim d" using assms(1) by (auto simp: dims_def)
  then obtain org where "d_dim d = DimASN \<longrightarrow> ls = [s, v, org, p]" "d_dim d \<noteq> DimASN \<longrightarrow> ls = [s, v, p]"
    using assms(2) by (auto split: if_splits)
  then show ?thesis using series_match(1) [OF d(1)] d(2) by blast
qed

lemma matches_site: "matches f ((''site'', site) # kvs) (s # ls) \<Longrightarrow> f \<in> insert FTimeOnPage (FDim ` dims) \<Longrightarrow> s = site"
  by (auto simp: matches_def)

lemma maintain_cross_ok:
  assumes inv: "site_inv site st a" and eq: "maintain_cross now (st, a) = (st', b)"
  shows "site_inv site st' b \<and> same_frame st st' \<and> others_kept site a b"
proof -
  obtain gone g c where d: "Decay now (DecayAfter (Defaults (st_cfg st))) (st_crossPath st, st_pathCounter st) = (gone, g, c)"
    by (metis prod.collapse)
  have ok: "state_ok st" "Domain (st_cfg st) = site" using inv by (simp_all add: site_inv_def)
  then have "pair_ok (st_crossPath st, st_pathCounter st)" by (simp add: state_ok_def pair_ok_def)
  note d' = Decay_keeps [OF this d]
  have uniq: "gm_ok (st_pathUniques st)" using ok(1) by (simp add: state_ok_def)
  have st': "st' = st\<lparr>st_crossPath := g, st_pathCounter := c,
        st_pathUniques := filter (\<lambda>(p, roll). p \<notin> set gone) (st_pathUniques st)\<rparr>"
    and b: "b = a @ concat (map (\<lambda>p. map (\<lambda>d. DeletePartialMatch (FDim (d_dim d)) [(''site'', site), (''path'', p)]) dimensions @
            [DeletePartialMatch FTimeOnPage [(''site'', site), (''path'', p)]]) gone)"
    using eq ok(2) fold_delete_entries [OF uniq] by (auto simp: maintain_cross_def Let_def d)
  have "state_ok st'" using ok(1) d' uniq by (auto simp: state_ok_def pair_ok_def st')
  moreover have "covered st' f (site # ls)" if "site # ls \<in> live f b" for f ls
  proof -
    have l: "site # ls \<in> live f a"
        "\<forall>p \<in> set gone. f \<in> insert FTimeOnPage (FDim ` dims) \<longrightarrow> \<not> matches f [(''site'', site), (''path'', p)] (site # ls)"
      using that unfolding b live_cross_delete by blast+
    have cov: "covered st f (site # ls)" using inv l(1) by (simp add: site_inv_def)
    have kept: "q \<in> glabels g" if "q \<in> glabels (st_crossPath st)" "q \<notin> set gone" for q
      using that d' by (auto simp: glabels_def)
    show ?thesis
    proof (cases f)
      case (FDim dim)
      then obtain v p where vp: "dim \<in> dims" "v \<in> glabels (dim_guard st dim)" "p \<in> insert AllLabel (glabels (st_crossPath st))"
          "if dim = DimASN then \<exists>org. site # ls = [site, v, org, p] else site # ls = [site, v, p]"
        using cov by (auto simp: covered_def split: if_splits)
      have "p \<notin> set gone" using l(2) series_path_match [OF vp(1,4)] vp(1) FDim by blast
      then have "p \<in> insert AllLabel (glabels g)" using kept vp(3) by blast
      with vp show ?thesis unfolding FDim by (intro covered_dimI [of dim v _ p _ site]) (simp_all add: st')
    next
      case FTimeOnPage
      then obtain p where p: "p \<in> glabels (st_crossPath st)" "ls = [p]" using cov by (auto simp: covered_def)
      then have "p \<notin> set gone" using l(2) FTimeOnPage by (auto simp: time_match)
      with kept p show ?thesis by (simp add: covered_def FTimeOnPage st')
    qed (use cov in \<open>auto simp: covered_def st'\<close>)
  qed
  moreover have "same_frame st st'" using d' by (simp add: same_frame_def st')
  moreover have "others_kept site a b"
    unfolding others_kept_def b live_cross_delete using matches_site by blast
  ultimately show ?thesis using inv by (simp add: site_inv_def st')
qed

lemma live_dim_delete:
  "ls \<in> live f (calls @ map (\<lambda>v. DeletePartialMatch (FDim dim) [(''site'', site), (k, v)]) vs) \<longleftrightarrow>
   ls \<in> live f calls \<and> (f = FDim dim \<longrightarrow> (\<forall>v \<in> set vs. \<not> matches f [(''site'', site), (k, v)] ls))"
  unfolding live_append by (subst live_shrink_fold) auto

lemma maintain_dimension_ok:
  assumes inv: "site_inv site st a" and dd: "d \<in> set dimensions"
  shows "\<exists>st' b. maintain_dimension now d (st, a) = Some (st', b) \<and>
    site_inv site st' b \<and> same_frame st st' \<and> others_kept site a b"
proof -
  let ?dim = "d_dim d"
  have dim: "?dim \<in> dims" using dd by (simp add: dims_def)
  have ok: "state_ok st" "Domain (st_cfg st) = site" using inv by (simp_all add: site_inv_def)
  then obtain gc where gc: "map_of (st_guards st) ?dim = Some gc" "pair_ok gc"
    using dim by (auto simp: state_ok_def split: option.splits)
  obtain gone gc' where dc: "Decay now (DecayAfter (Defaults (st_cfg st))) gc = (gone, gc')"
    by (metis prod.collapse)
  note d' = Decay_keeps [OF gc(2) dc]
  define st' where "st' = st\<lparr>st_guards := AList.update ?dim gc' (st_guards st)\<rparr>"
  define b where "b = a @ map (\<lambda>v. DeletePartialMatch (FDim ?dim) [(''site'', site), (hd (d_labels d), v)]) gone"
  have "maintain_dimension now d (st, a) = Some (st', b)"
    using gc(1) ok(2) by (simp add: maintain_dimension_def Let_def dc st'_def b_def)
  moreover have g: "dim_guard st' x = (if x = ?dim then fst gc' else dim_guard st x)" for x
    by (simp add: dim_guard_def st'_def update_conv')
  have gst: "dim_guard st ?dim = fst gc" by (simp add: dim_guard_def gc)
  have "state_ok st'" using ok(1) d' by (simp add: state_ok_def st'_def update_conv')
  moreover have "covered st' f (site # ls)" if "site # ls \<in> live f b" for f ls
  proof -
    have l: "site # ls \<in> live f a"
        "f = FDim ?dim \<longrightarrow> (\<forall>v \<in> set gone. \<not> matches f [(''site'', site), (hd (d_labels d), v)] (site # ls))"
      using that unfolding b_def live_dim_delete by blast+
    have cov: "covered st f (site # ls)" using inv l(1) by (simp add: site_inv_def)
    show ?thesis
    proof (cases f)
      case (FDim x)
      then obtain v p where vp: "x \<in> dims" "v \<in> glabels (dim_guard st x)" "p \<in> insert AllLabel (glabels (st_crossPath st))"
          "if x = DimASN then \<exists>org. site # ls = [site, v, org, p] else site # ls = [site, v, p]"
        using cov by (auto simp: covered_def split: if_splits)
      have "v \<in> glabels (dim_guard st' x)"
      proof (cases "x = ?dim")
        case True
        then obtain org where "d_dim d = DimASN \<longrightarrow> site # ls = [site, v, org, p]"
            "d_dim d \<noteq> DimASN \<longrightarrow> site # ls = [site, v, p]"
          using vp(4) by (auto split: if_splits)
        then have "v \<notin> set gone" using series_match(2) [OF dd] l(2) FDim True by blast
        then show ?thesis using vp(2) d' True by (auto simp: g gst glabels_def)
      next
        case False
        with vp(2) show ?thesis by (simp add: g)
      qed
      with vp show ?thesis unfolding FDim by (intro covered_dimI [of x v _ p _ site]) (simp_all add: st'_def)
    qed (use cov in \<open>auto simp: covered_def st'_def\<close>)
  qed
  moreover have "same_frame st st'" using d' by (simp add: same_frame_def g gst) (simp add: st'_def)
  moreover have "others_kept site a b"
    unfolding others_kept_def b_def live_dim_delete using matches_site dim by blast
  ultimately show ?thesis using inv by (auto simp: site_inv_def st'_def)
qed

lemma maintain_dimensions_ok:
  assumes "site_inv site st a" and "set ds \<subseteq> set dimensions"
  shows "\<exists>st' b. loop_opt (maintain_dimension now) ds (st, a) = Some (st', b) \<and>
    site_inv site st' b \<and> same_frame st st' \<and> others_kept site a b"
  using assms
proof (induction ds arbitrary: st a)
  case Nil
  then show ?case by simp
next
  case (Cons d ds)
  obtain st1 a1 where s: "maintain_dimension now d (st, a) = Some (st1, a1)" "site_inv site st1 a1"
      "same_frame st st1" "others_kept site a a1"
    using maintain_dimension_ok [of site st a d now] Cons.prems by auto
  from Cons.IH [OF s(2)] Cons.prems obtain st2 b where
    r: "loop_opt (maintain_dimension now) ds (st1, a1) = Some (st2, b)" "site_inv site st2 b"
      "same_frame st1 st2" "others_kept site a1 b" by auto
  with s same_frame_trans [OF s(3) r(3)] others_kept_trans [OF s(4) r(4)] show ?case by simp
qed

lemma maintain_site_ok:
  assumes inv: "site_inv site st a"
  shows "\<exists>st' b. maintain_site now (st, a) = Some (st', b) \<and>
    site_inv site st' b \<and> same_frame st st' \<and> others_kept site a b"
proof -
  obtain n ss k where sw: "Sweep registry_sink now (st_sessions st, a) = (n, ss, k)" by (metis prod.collapse)
  have ok: "state_ok st" "Domain (st_cfg st) = site" "ss_site (st_sessions st) = site"
    using inv by (simp_all add: site_inv_def)
  then have "sessions_ok (st_sessions st)" by (simp add: state_ok_def)
  note sw' = Sweep_adds [OF this sw]
  let ?st = "st\<lparr>st_sessions := ss\<rparr>"
  have g: "grows st ?st" and "state_ok ?st" using sw' ok by (auto intro: grows_sessions state_ok_sessions)
  moreover have ad: "adds ?st a k" using sw' ok by (auto intro: session_adds_fit)
  ultimately have i1: "site_inv site ?st k" using adds_inv inv by blast
  obtain st1 a1 where p: "maintain_pure now (?st, k) = (st1, a1)" by force
  note p' = maintain_pure_ok [OF i1 p]
  obtain st2 a2 where x: "maintain_cross now (st1, a1) = (st2, a2)" by force
  note x' = maintain_cross_ok [OF conjunct1 [OF p'] x]
  obtain st3 b where r: "loop_opt (maintain_dimension now) dimensions (st2, a2) = Some (st3, b)" "site_inv site st3 b"
      "same_frame st2 st3" "others_kept site a2 b"
    using maintain_dimensions_ok [OF conjunct1 [OF x'] order_refl] by blast
  have "same_frame st st3"
    using grows_same_frame [OF g] p' x' r(3) same_frame_trans by blast
  moreover have "others_kept site a b"
    using adds_others [OF ad] p' x' r(4) ok(2) by (auto intro: others_kept_trans)
  ultimately show ?thesis
    using r(1,2) sw p x by (simp add: maintain_site_def)
qed

section \<open>The registry\<close>

definition reg_inv :: "('s, 're) registry \<Rightarrow> bool" where
  "reg_inv r \<longleftrightarrow>
     (\<forall>k st. map_of (rg_sites r) k = Some st \<longrightarrow> site_inv k st (rg_calls r)) \<and>
     (\<forall>f s ls. s # ls \<in> live f (rg_calls r) \<longrightarrow> map_of (rg_sites r) s \<noteq> None \<or> f = FIngestEvents)"

lemma reg_orphan:
  "reg_inv r \<Longrightarrow> s # ls \<in> live f (rg_calls r) \<Longrightarrow> map_of (rg_sites r) s = None \<Longrightarrow> f = FIngestEvents"
  unfolding reg_inv_def by blast

lemma reg_site: "reg_inv r \<Longrightarrow> map_of (rg_sites r) k = Some st \<Longrightarrow> site_inv k st (rg_calls r)"
  unfolding reg_inv_def by blast

lemma reg_invI:
  assumes "\<And>k st. map_of (rg_sites r) k = Some st \<Longrightarrow> site_inv k st (rg_calls r)"
    and "\<And>f s ls. s # ls \<in> live f (rg_calls r) \<Longrightarrow> map_of (rg_sites r) s = None \<Longrightarrow> f = FIngestEvents"
  shows "reg_inv r"
  using assms unfolding reg_inv_def by blast

text \<open>\<open>evolves r r'\<close>: every site survives with the caps it was created with.\<close>

definition same_caps :: "('s, 're) site_state \<Rightarrow> ('s, 're) site_state \<Rightarrow> bool" where
  "same_caps st st' \<longleftrightarrow>
     g_cap (st_purePath st') = g_cap (st_purePath st) \<and> g_cap (st_crossPath st') = g_cap (st_crossPath st) \<and>
     (\<forall>dim. g_cap (dim_guard st' dim) = g_cap (dim_guard st dim))"

definition evolves :: "('s, 're) registry \<Rightarrow> ('s, 're) registry \<Rightarrow> bool" where
  "evolves r r' \<longleftrightarrow> (\<forall>k st. map_of (rg_sites r) k = Some st \<longrightarrow>
     (\<exists>st'. map_of (rg_sites r') k = Some st' \<and> same_caps st st'))"

lemma same_caps_refl [simp]: "same_caps st st"
  by (simp add: same_caps_def)

lemma evolves_refl [simp]: "evolves r r"
  by (simp add: evolves_def)

lemma evolves_trans: "evolves a b \<Longrightarrow> evolves b c \<Longrightarrow> evolves a c"
  unfolding evolves_def same_caps_def by metis

lemma same_frame_caps: "same_frame st st' \<Longrightarrow> same_caps st st'"
  by (simp add: same_frame_def same_caps_def)

lemma reg_inv_set_site:
  assumes inv: "reg_inv r" and st: "map_of (rg_sites r) k = Some st"
    and new: "site_inv k st' b" "same_caps st st'" "others_kept k (rg_calls r) b"
  shows "reg_inv (r\<lparr>rg_sites := AList.update k st' (rg_sites r), rg_calls := b\<rparr>)"
    and "evolves r (r\<lparr>rg_sites := AList.update k st' (rg_sites r), rg_calls := b\<rparr>)"
proof -
  have "site_inv j sj b" if "map_of (rg_sites r) j = Some sj" "j \<noteq> k" for j sj
    using inv that new(3) by (simp add: reg_inv_def site_inv_def others_kept_def)
  moreover have "f = FIngestEvents" if "s # ls \<in> live f b" "s \<noteq> k" "map_of (rg_sites r) s = None" for f s ls
    using reg_orphan [OF inv _ that(3)] that(1,2) new(3) unfolding others_kept_def by blast
  ultimately show "reg_inv (r\<lparr>rg_sites := AList.update k st' (rg_sites r), rg_calls := b\<rparr>)"
    using new(1) by (intro reg_invI) (auto simp: update_conv' split: if_splits)
  show "evolves r (r\<lparr>rg_sites := AList.update k st' (rg_sites r), rg_calls := b\<rparr>)"
    using st new(2) by (auto simp: evolves_def update_conv')
qed

definition record_time :: "time \<Rightarrow> observation \<Rightarrow> time" where
  "record_time clock ob = (if o_At ob = zero_time then clock else o_At ob)"

definition timely :: "time \<Rightarrow> bool" where
  "timely t \<longleftrightarrow> 0 \<le> t \<and> t \<le> max_duration"

text \<open>\<open>Record\<close> up to the question whether the client takes the calls.\<close>

lemma Record_shape:
  assumes inv: "reg_inv r" and t: "timely (record_time clock ob)"
  obtains r' where "Record ev clock ob r = survives ev (rg_calls r) r'" "reg_inv r'" "evolves r r'"
proof (cases "map_of (rg_sites r) (o_Site ob)")
  case None
  let ?r = "r\<lparr>rg_calls := rg_calls r @ [Inc FIngestEvents [''unknown'', ''unknown_site'']]\<rparr>"
  have live: "live f (rg_calls ?r) = live f (rg_calls r) \<union>
      (if f = FIngestEvents then {[''unknown'', ''unknown_site'']} else {})" for f
    by (simp add: live_append)
  have kept: "site_inv k st (rg_calls ?r)" if "site_inv k st (rg_calls r)" for k st
    using that unfolding site_inv_def live by (auto simp: covered_def split: if_splits)
  have orphan: "f = FIngestEvents" if "s # ls \<in> live f (rg_calls ?r)" "map_of (rg_sites r) s = None" for f s ls
    using reg_orphan [OF inv _ that(2), of ls f] that(1) unfolding live by (auto split: if_splits)
  have "reg_inv ?r"
  proof (rule reg_invI)
    fix k st assume "map_of (rg_sites ?r) k = Some st"
    then have "map_of (rg_sites r) k = Some st" by simp
    then show "site_inv k st (rg_calls ?r)" by (intro kept reg_site [OF inv])
  next
    fix f s ls assume "s # ls \<in> live f (rg_calls ?r)" "map_of (rg_sites ?r) s = None"
    then have "map_of (rg_sites r) s = None" by simp
    then show "f = FIngestEvents" by (rule orphan [OF \<open>s # ls \<in> live f (rg_calls ?r)\<close>])
  qed
  moreover have "evolves r ?r" by (simp add: evolves_def)
  ultimately show ?thesis using None by (intro that [of ?r]) (simp_all add: Record_def)
next
  case (Some st)
  define ob' where "ob' = (if o_At ob = zero_time then ob\<lparr>o_At := clock\<rparr> else ob)"
  have ob': "o_Site ob' = o_Site ob" "0 \<le> o_At ob'" "o_At ob' \<le> max_duration"
    using t by (simp_all add: ob'_def timely_def record_time_def split: if_splits)
  have site: "site_inv (o_Site ob) st (rg_calls r)" using inv Some by (simp add: reg_inv_def)
  then have st: "state_ok st" "Domain (st_cfg st) = o_Site ob'" "ss_site (st_sessions st) = o_Site ob'"
    by (simp_all add: site_inv_def ob')
  obtain st' calls' where r: "record_site ev ob' (st, rg_calls r) = Some (st', calls')" "state_ok st'" "grows st st'"
      "adds st' (rg_calls r) calls'"
    using record_site_ok [OF st ob'(2,3)] by blast
  have "others_kept (o_Site ob) (rg_calls r) calls'"
    using adds_others [OF r(4)] r(3) st(2) ob'(1) by (simp add: grows_def)
  note set = reg_inv_set_site [OF inv Some adds_inv [OF r(4,3) site r(2)] same_frame_caps [OF grows_same_frame [OF r(3)]] this]
  show ?thesis
    by (rule that [OF _ set]) (use Some r(1) in \<open>simp add: Record_def Let_def ob'(1) flip: ob'_def\<close>)
qed

lemma maintain_key_ok:
  assumes inv: "reg_inv r"
  shows "\<exists>r'. maintain_key now k r = Some r' \<and> reg_inv r' \<and> evolves r r'"
proof (cases "map_of (rg_sites r) k")
  case None
  then show ?thesis using inv by (simp add: maintain_key_def)
next
  case (Some st)
  then have "site_inv k st (rg_calls r)" using inv by (simp add: reg_inv_def)
  from maintain_site_ok [OF this] obtain st' b where
    m: "maintain_site now (st, rg_calls r) = Some (st', b)" "site_inv k st' b" "same_frame st st'"
      "others_kept k (rg_calls r) b" by blast
  from reg_inv_set_site [OF inv Some m(2) same_frame_caps [OF m(3)] m(4)] m(1) Some show ?thesis
    by (simp add: maintain_key_def)
qed

lemma Maintain_shape:
  assumes inv: "reg_inv r"
  obtains r' where "Maintain ev now r = survives ev (rg_calls r) r'" "reg_inv r'" "evolves r r'"
proof -
  have "\<exists>r'. loop_opt (maintain_key now) ks r = Some r' \<and> (reg_inv r' \<and> evolves r r')" for ks
  proof (rule loop_opt_total)
    show "reg_inv r \<and> evolves r r" using inv by simp
    show "\<exists>t'. maintain_key now k t = Some t' \<and> reg_inv t' \<and> evolves r t'" if "reg_inv t \<and> evolves r t" for k t
      using maintain_key_ok [of t now k] that evolves_trans by blast
  qed
  then obtain r' where "loop_opt (maintain_key now) (map fst (rg_sites r)) r = Some r'" "reg_inv r'" "evolves r r'"
    by blast
  then show ?thesis by (intro that [of r']) (simp_all add: Maintain_def)
qed

lemma fold_guards:
  "map_of (fold (\<lambda>d. AList.update (d_dim d) (f (d_dim d))) ds m) dim =
     (if dim \<in> d_dim ` set ds then Some (f dim) else map_of m dim)"
  by (induction ds arbitrary: m) (auto simp: update_conv')

lemma new_site_guards:
  "map_of (st_guards (new_site_state ev sc)) dim =
     (if dim \<in> dims then Some (NewGuard (capFor sc dim) (minCountFor sc dim)) else None)"
  using fold_guards [of "\<lambda>dim. NewGuard (capFor sc dim) (minCountFor sc dim)" dimensions "[]" dim]
  by (simp add: new_site_state_def dims_def)

lemma new_site_inv:
  assumes "\<And>f ls. Domain sc # ls \<in> live f calls \<Longrightarrow> f = FIngestEvents"
  shows "site_inv (Domain sc) (new_site_state ev sc) calls"
proof -
  have "state_ok (new_site_state ev sc)"
    by (simp add: state_ok_def new_site_guards)
      (simp add: new_site_state_def NewGuardWith_ok windows_shape_new NewSessions_def)
  moreover have "covered (new_site_state ev sc) f (Domain sc # ls)" if "Domain sc # ls \<in> live f calls" for f ls
    using assms [OF that] by (simp add: covered_def)
  ultimately show ?thesis
    by (simp add: site_inv_def) (simp add: new_site_state_def NewSessions_def)
qed

lemma configure_site_ok:
  assumes inv: "reg_inv r"
  shows "reg_inv (r\<lparr>rg_sites := configure_site ev sc (rg_sites r)\<rparr>)"
    and "evolves r (r\<lparr>rg_sites := configure_site ev sc (rg_sites r)\<rparr>)"
proof -
  define new where "new = (case map_of (rg_sites r) (Domain sc) of
      Some st \<Rightarrow> st\<lparr>st_cfg := sc\<rparr> | None \<Rightarrow> new_site_state ev sc)"
  have eq: "configure_site ev sc (rg_sites r) = AList.update (Domain sc) new (rg_sites r)"
    by (simp add: configure_site_def new_def split: option.split)
  have "site_inv (Domain sc) new (rg_calls r)"
  proof (cases "map_of (rg_sites r) (Domain sc)")
    case None
    then show ?thesis
      using reg_orphan [OF inv _ None] by (simp add: new_def new_site_inv)
  next
    case (Some st)
    have "site_inv (Domain sc) st (rg_calls r)" by (rule reg_site [OF inv Some])
    then show ?thesis
      by (simp add: new_def Some site_inv_def state_ok_def covered_def cong: family.case_cong)
  qed
  then show "reg_inv (r\<lparr>rg_sites := configure_site ev sc (rg_sites r)\<rparr>)"
    using reg_site [OF inv] reg_orphan [OF inv] unfolding eq
    by (intro reg_invI) (auto simp: update_conv' split: if_splits)
  show "evolves r (r\<lparr>rg_sites := configure_site ev sc (rg_sites r)\<rparr>)"
    unfolding evolves_def eq by (auto simp: update_conv' new_def same_caps_def)
qed

lemma Configure_ok:
  assumes "reg_inv r"
  shows "reg_inv (Configure ev cfg r) \<and> evolves r (Configure ev cfg r)"
proof -
  have "reg_inv (r\<lparr>rg_sites := fold (configure_site ev) ss (rg_sites r)\<rparr>) \<and>
      evolves r (r\<lparr>rg_sites := fold (configure_site ev) ss (rg_sites r)\<rparr>)" for ss
    using assms
  proof (induction ss arbitrary: r)
    case (Cons sc ss)
    let ?r = "r\<lparr>rg_sites := configure_site ev sc (rg_sites r)\<rparr>"
    note c = configure_site_ok [OF Cons.prems, of ev sc]
    from Cons.IH [OF c(1)] evolves_trans [OF c(2)] show ?case by simp
  qed simp
  then show ?thesis by (simp add: Configure_def)
qed

lemma New_ok: "reg_inv (New ev cfg)"
  unfolding New_def by (rule conjunct1 [OF Configure_ok]) (simp add: reg_inv_def live_def)

text \<open>The caps a site is created with.\<close>

definition caps_of :: "'re site \<Rightarrow> ('s, 're) site_state \<Rightarrow> bool" where
  "caps_of sc st \<longleftrightarrow>
     g_cap (st_purePath st) = max 1 (PathCap (Defaults sc)) \<and>
     g_cap (st_crossPath st) = max 1 (CrossPathCap (Defaults sc)) \<and>
     (\<forall>dim \<in> dims. g_cap (dim_guard st dim) = max 1 (capFor sc dim))"

lemma New_caps:
  assumes "distinct (map Domain (Sites cfg))" and "sc \<in> set (Sites cfg)"
  shows "\<exists>st. map_of (rg_sites (New ev cfg)) (Domain sc) = Some st \<and> caps_of sc st"
proof -
  have keep: "map_of (fold (configure_site ev) ss m) k = map_of m k" if "k \<notin> Domain ` set ss" for ss m k
    using that by (induction ss arbitrary: m) (auto simp: configure_site_def update_conv' split: option.split)
  have "map_of (fold (configure_site ev) ss m) (Domain sc) = Some (new_site_state ev sc)"
    if "distinct (map Domain ss)" "sc \<in> set ss" "\<forall>s \<in> set ss. map_of m (Domain s) = None" for ss m
    using that
  proof (induction ss arbitrary: m)
    case (Cons s ss)
    show ?case
    proof (cases "s = sc")
      case True
      have "Domain sc \<notin> Domain ` set ss" using Cons.prems(1) True by simp
      moreover have "configure_site ev s m = AList.update (Domain sc) (new_site_state ev sc) m"
        using Cons.prems(3) True by (simp add: configure_site_def)
      ultimately show ?thesis by (simp add: keep update_conv')
    next
      case False
      have ne: "\<forall>x \<in> set ss. Domain x \<noteq> Domain s"
        using Cons.prems(1) by (metis distinct.simps(2) image_eqI list.map(2) list.set_map)
      have "\<forall>x \<in> set ss. map_of (configure_site ev s m) (Domain x) = None"
        using Cons.prems(3) ne by (simp add: configure_site_def update_conv')
      from Cons.IH [OF _ _ this] Cons.prems False show ?thesis by simp
    qed
  qed simp
  from this [of "Sites cfg" "[]"] assms
  have "map_of (rg_sites (New ev cfg)) (Domain sc) = Some (new_site_state ev sc)"
    by (simp add: New_def Configure_def)
  moreover have "caps_of sc (new_site_state ev sc)"
    unfolding caps_of_def dim_guard_def new_site_guards
    by (simp add: NewGuard_def) (simp add: new_site_state_def NewGuardWith_def)
  ultimately show ?thesis by blast
qed

section \<open>Runs\<close>

datatype 're reg_op = ORecord time observation | OMaintain time | OConfigure "'re config"

fun reg_step :: "'s env \<Rightarrow> 're reg_op \<Rightarrow> ('s, 're) registry \<Rightarrow> ('s, 're) registry option" where
  "reg_step ev (ORecord clock ob) r = Record ev clock ob r"
| "reg_step ev (OMaintain now) r = Maintain ev now r"
| "reg_step ev (OConfigure cfg) r = Some (Configure ev cfg r)"

fun op_timely :: "'re reg_op \<Rightarrow> bool" where
  "op_timely (ORecord clock ob) = timely (record_time clock ob)"
| "op_timely _ = True"

lemma survives_Some: "survives ev a r = Some r' \<Longrightarrow> r' = r"
  by (simp add: survives_def split: if_splits)

lemma reg_step_ok:
  assumes "reg_step ev op r = Some r'" and "reg_inv r" and "op_timely op"
  shows "reg_inv r' \<and> evolves r r'"
proof (cases op)
  case (ORecord clock ob)
  then have "timely (record_time clock ob)" using assms(3) by simp
  from Record_shape [OF assms(2) this, of ev] assms(1) ORecord survives_Some show ?thesis by (metis reg_step.simps(1))
next
  case (OMaintain now)
  from Maintain_shape [OF assms(2), of ev now] assms(1) OMaintain survives_Some show ?thesis by (metis reg_step.simps(2))
next
  case (OConfigure cfg)
  with assms Configure_ok [OF assms(2), of ev cfg] show ?thesis by simp
qed

lemma reg_run_ok:
  assumes "loop_opt (reg_step ev) ops r = Some r'" and "reg_inv r" and "\<forall>op \<in> set ops. op_timely op"
  shows "reg_inv r' \<and> evolves r r'"
  by (rule loop_opt_invariant [OF assms(1), where I = "\<lambda>x. reg_inv x \<and> evolves r x"])
    (use assms reg_step_ok evolves_trans in \<open>simp, blast\<close>)

lemma reg_run_total:
  assumes "\<And>c. ev_accepts ev c" and "reg_inv r" and "\<forall>op \<in> set ops. op_timely op"
  shows "\<exists>r'. loop_opt (reg_step ev) ops r = Some r'"
proof -
  have surv: "survives ev a x = Some x" for a x
    using assms(1) by (simp add: survives_def list_all_iff)
  have "\<exists>x'. reg_step ev op x = Some x' \<and> reg_inv x'" if "reg_inv x" "op_timely op" for op x
  proof (cases op)
    case (ORecord clock ob)
    with that(2) have "timely (record_time clock ob)" by simp
    from Record_shape [OF that(1) this, of ev] obtain r' where "Record ev clock ob x = survives ev (rg_calls x) r'" "reg_inv r'" by blast
    then show ?thesis by (simp add: ORecord surv)
  next
    case (OMaintain now)
    from Maintain_shape [OF that(1), of ev now] obtain r' where "Maintain ev now x = survives ev (rg_calls x) r'" "reg_inv r'" by blast
    then show ?thesis by (simp add: OMaintain surv)
  next
    case (OConfigure cfg)
    with Configure_ok [OF that(1), of ev cfg] show ?thesis by simp
  qed
  then have "\<exists>r'. loop_opt (reg_step ev) ops r = Some r' \<and> reg_inv r'"
    using assms(2,3) by (intro loop_opt_total) auto
  then show ?thesis by blast
qed

end
