(* ===== verification/Registry_Counts.thy ===== *)
theory Registry_Counts
  imports Registry_Bounds
begin

text \<open>
  What the registry counts: the calls each operation makes (\<open>record_site_calls\<close>,
  \<open>maintain_site_calls\<close>), what they add to the totals of a family (\<open>tally\<close>), and the
  properties of whole runs of \<open>Record\<close>, \<open>Maintain\<close> and \<open>Configure\<close> from \<open>New\<close>: the
  number of series stays bounded, every pageview is counted once in every family, and every
  session that was started is live or has ended.
\<close>

section \<open>The number of series\<close>

definition at_most :: "'a set \<Rightarrow> int \<Rightarrow> bool" where
  "at_most S n \<longleftrightarrow> finite S \<and> int (card S) \<le> n"

lemma at_most_subset: "S \<subseteq> f ` T \<Longrightarrow> at_most T n \<Longrightarrow> at_most S n"
  using surj_card_le [of T S f] finite_subset [of S "f ` T"] by (auto simp: at_most_def)

lemma at_most_times: "at_most S m \<Longrightarrow> at_most T n \<Longrightarrow> 0 \<le> m \<Longrightarrow> at_most (S \<times> T) (m * n)"
  unfolding at_most_def by (simp add: card_cartesian_product mult_mono)

lemma at_most_insert: "at_most S n \<Longrightarrow> at_most (insert x S) (n + 1)"
  unfolding at_most_def by (cases "x \<in> S") (simp_all add: insert_absorb)

lemma at_most_glabels: "guard_ok g \<Longrightarrow> g_cap g = n \<Longrightarrow> at_most (glabels g) (n + 2)"
  using card_glabels by (auto simp: at_most_def)

text \<open>The series of one site in one family.\<close>

definition series :: "family \<Rightarrow> string \<Rightarrow> metric_call list \<Rightarrow> string list set" where
  "series f site calls = {ls. site # ls \<in> live f calls}"

lemma series_bounds:
  assumes inv: "site_inv (Domain sc) st calls" and caps: "caps_of sc st"
  shows "at_most (series FPageviews (Domain sc) calls) (max 1 (PathCap (Defaults sc)) + 2)"
    and "at_most (series FEntries (Domain sc) calls) (max 1 (PathCap (Defaults sc)) + 2)"
    and "at_most (series FTimeOnPage (Domain sc) calls) (max 1 (CrossPathCap (Defaults sc)) + 2)"
    and "dim \<noteq> DimASN \<Longrightarrow> at_most (series (FDim dim) (Domain sc) calls)
      ((max 1 (capFor sc dim) + 2) * (max 1 (CrossPathCap (Defaults sc)) + 3))"
    and "at_most ((\<lambda>ls. (hd ls, last ls)) ` series (FDim DimASN) (Domain sc) calls)
      ((max 1 (ASNCap (Defaults sc)) + 2) * (max 1 (CrossPathCap (Defaults sc)) + 3))"
    and "int (length (st_pathUniques st)) \<le> max 1 (CrossPathCap (Defaults sc))"
proof -
  have ok: "guard_ok (st_purePath st)" "guard_ok (st_crossPath st)" "gm_ok (st_pathUniques st)"
      "\<forall>(p, roll) \<in> set (st_pathUniques st). p \<in> admitted (st_crossPath st)"
    and cov: "\<And>f ls. Domain sc # ls \<in> live f calls \<Longrightarrow> covered st f (Domain sc # ls)"
    using inv by (auto simp: site_inv_def state_ok_def)
  have pg: "at_most (glabels (st_purePath st)) (max 1 (PathCap (Defaults sc)) + 2)"
    and xg: "at_most (glabels (st_crossPath st)) (max 1 (CrossPathCap (Defaults sc)) + 2)"
    using ok caps by (auto intro: at_most_glabels simp: caps_of_def)
  have "series FPageviews (Domain sc) calls \<subseteq> (\<lambda>p. [p]) ` glabels (st_purePath st)"
      "series FEntries (Domain sc) calls \<subseteq> (\<lambda>p. [p]) ` glabels (st_purePath st)"
      "series FTimeOnPage (Domain sc) calls \<subseteq> (\<lambda>p. [p]) ` glabels (st_crossPath st)"
    using cov by (fastforce simp: series_def covered_def)+
  then show "at_most (series FPageviews (Domain sc) calls) (max 1 (PathCap (Defaults sc)) + 2)"
    "at_most (series FEntries (Domain sc) calls) (max 1 (PathCap (Defaults sc)) + 2)"
    "at_most (series FTimeOnPage (Domain sc) calls) (max 1 (CrossPathCap (Defaults sc)) + 2)"
    using pg xg at_most_subset by blast+
  define labels where "labels dim = glabels (dim_guard st dim) \<times> insert AllLabel (glabels (st_crossPath st))" for dim
  have bound: "at_most (labels dim) ((max 1 (capFor sc dim) + 2) * (max 1 (CrossPathCap (Defaults sc)) + 3))"
    if "dim \<in> dims" for dim
  proof -
    have "guard_ok (dim_guard st dim)"
      using inv that by (force simp: site_inv_def state_ok_def dim_guard_def pair_ok_def split: option.splits)
    moreover have "g_cap (dim_guard st dim) = max 1 (capFor sc dim)"
      using caps that by (simp add: caps_of_def)
    ultimately have "at_most (glabels (dim_guard st dim)) (max 1 (capFor sc dim) + 2)" by (rule at_most_glabels)
    moreover have "at_most (insert AllLabel (glabels (st_crossPath st))) (max 1 (CrossPathCap (Defaults sc)) + 3)"
      using at_most_insert [OF xg] by (simp add: add.assoc)
    ultimately show ?thesis unfolding labels_def by (rule at_most_times) simp
  qed
  have shape: "dim \<in> dims \<and> (\<exists>(v, p) \<in> labels dim. if dim = DimASN then \<exists>org. ls = [v, org, p] else ls = [v, p])"
    if l: "ls \<in> series (FDim dim) (Domain sc) calls" for dim ls
  proof -
    from l have "covered st (FDim dim) (Domain sc # ls)" by (auto simp: series_def intro: cov)
    then obtain s v p where "dim \<in> dims" "v \<in> glabels (dim_guard st dim)" "p \<in> insert AllLabel (glabels (st_crossPath st))"
        "if dim = DimASN then \<exists>org. Domain sc # ls = [s, v, org, p] else Domain sc # ls = [s, v, p]"
      by (rule covered_dimE)
    then show ?thesis by (intro conjI bexI [of _ "(v, p)"]) (auto simp: labels_def split: if_splits)
  qed
  show "at_most (series (FDim dim) (Domain sc) calls)
      ((max 1 (capFor sc dim) + 2) * (max 1 (CrossPathCap (Defaults sc)) + 3))" if "dim \<noteq> DimASN"
  proof (cases "dim \<in> dims")
    case False
    then have "series (FDim dim) (Domain sc) calls = {}" using shape by blast
    then show ?thesis by (simp add: at_most_def)
  next
    case True
    have "series (FDim dim) (Domain sc) calls \<subseteq> (\<lambda>(v, p). [v, p]) ` labels dim"
    proof
      fix ls assume "ls \<in> series (FDim dim) (Domain sc) calls"
      from shape [OF this] that obtain v p where "(v, p) \<in> labels dim" "ls = [v, p]" by auto
      then show "ls \<in> (\<lambda>(v, p). [v, p]) ` labels dim" by (intro image_eqI [of _ _ "(v, p)"]) simp_all
    qed
    from at_most_subset [OF this bound [OF True]] show ?thesis .
  qed
  have "DimASN \<in> dims" by (simp add: dims_def dimensions_def)
  from bound [OF this] have "at_most (labels DimASN) ((max 1 (ASNCap (Defaults sc)) + 2) * (max 1 (CrossPathCap (Defaults sc)) + 3))"
    by (simp add: capFor_def dim_defs)
  moreover have "(\<lambda>ls. (hd ls, last ls)) ` series (FDim DimASN) (Domain sc) calls \<subseteq> id ` labels DimASN"
    using shape [of _ DimASN] by fastforce
  ultimately show "at_most ((\<lambda>ls. (hd ls, last ls)) ` series (FDim DimASN) (Domain sc) calls)
      ((max 1 (ASNCap (Defaults sc)) + 2) * (max 1 (CrossPathCap (Defaults sc)) + 3))"
    using at_most_subset by blast
  have "int (length (st_pathUniques st)) = int (card (fst ` set (st_pathUniques st)))"
    using distinct_card [of "map fst (st_pathUniques st)"] ok(3) by (simp add: gm_ok_def)
  also have "\<dots> \<le> int (card (admitted (st_crossPath st)))"
    using ok(4) by (intro of_nat_mono card_mono) auto
  also have "\<dots> \<le> max 1 (CrossPathCap (Defaults sc))"
    using admitted_card [OF ok(2)] caps by (simp add: caps_of_def)
  finally show "int (length (st_pathUniques st)) \<le> max 1 (CrossPathCap (Defaults sc))" .
qed

lemma run_site:
  assumes "distinct (map Domain (Sites cfg))" and "sc \<in> set (Sites cfg)"
    and "\<forall>op \<in> set ops. op_timely op" and "loop_opt (reg_step ev) ops (New ev cfg) = Some r"
  obtains st where "map_of (rg_sites r) (Domain sc) = Some st" "site_inv (Domain sc) st (rg_calls r)" "caps_of sc st"
proof -
  have run: "reg_inv r" "evolves (New ev cfg) r"
    using reg_run_ok [OF assms(4) New_ok assms(3)] by simp_all
  obtain st where st: "map_of (rg_sites (New ev cfg)) (Domain sc) = Some st" "caps_of sc st"
    using New_caps [OF assms(1,2)] by blast
  with run(2) obtain st' where st': "map_of (rg_sites r) (Domain sc) = Some st'" "same_caps st st'"
    unfolding evolves_def by blast
  then have "caps_of sc st'" using st(2) by (auto simp: caps_of_def same_caps_def)
  with st'(1) reg_site [OF run(1)] that show ?thesis by blast
qed

section \<open>The calls one operation makes\<close>

definition tally :: "family \<Rightarrow> string \<Rightarrow> metric_call list \<Rightarrow> nat" where
  "tally f site calls = length (filter (\<lambda>c. \<exists>ls. c = Inc f (site # ls)) calls)"

lemma tally_append [simp]: "tally f site (a @ b) = tally f site a + tally f site b"
  by (simp add: tally_def)

lemma tally_Cons [simp]: "tally f site (c # b) = (if \<exists>ls. c = Inc f (site # ls) then 1 else 0) + tally f site b"
  by (simp add: tally_def)

lemma tally_Nil [simp]: "tally f site [] = 0"
  by (simp add: tally_def)

lemma n_append [simp]:
  "n_started site (a @ b) = n_started site a + n_started site b"
  "n_ended site (a @ b) = n_ended site a + n_ended site b"
  by (simp_all add: n_started_def n_ended_def)

lemma n_Nil [simp]: "n_started site [] = 0" "n_ended site [] = 0"
  by (simp_all add: n_started_def n_ended_def)

lemma n_Cons [simp]:
  "n_started site (c # b) = (if c = Inc FSessionsTotal [site] then 1 else 0) + n_started site b"
  "n_ended site (c # b) = (if \<exists>d. c = Observe FSessionDur [site] d then 1 else 0) + n_ended site b"
  by (simp_all add: n_started_def n_ended_def)

text \<open>Calls of the tracker leave the tallies of the pageview families and other sites alone.\<close>

definition pageview_family :: "family \<Rightarrow> bool" where
  "pageview_family f \<longleftrightarrow> f = FPageviews \<or> (\<exists>dim. f = FDim dim)"

lemma session_call_tally: "session_call site c \<Longrightarrow> pageview_family f \<Longrightarrow> c \<noteq> Inc f ls"
  by (auto simp: session_call_def pageview_family_def)

lemma session_calls_tally:
  "\<forall>c \<in> set new. session_call site c \<Longrightarrow> pageview_family f \<Longrightarrow> tally f s new = 0"
  by (induction new) (auto dest: session_call_tally)

lemma session_calls_elsewhere:
  "\<forall>c \<in> set new. session_call site c \<Longrightarrow> s \<noteq> site \<Longrightarrow> n_started s new = 0 \<and> n_ended s new = 0"
  by (induction new) (auto simp: session_call_def)

text \<open>The other calls leave the session counts alone.\<close>

definition plain_call :: "metric_call \<Rightarrow> bool" where
  "plain_call c \<longleftrightarrow> (\<forall>f ls. call_labels c = Some (f, ls) \<longrightarrow> f \<noteq> FSessionsTotal \<and> f \<noteq> FSessionDur)"

lemma plain_calls_n: "\<forall>c \<in> set new. plain_call c \<Longrightarrow> n_started s new = 0 \<and> n_ended s new = 0"
  by (induction new) (auto simp: plain_call_def)

lemma deletions_tally: "\<forall>c \<in> set new. call_labels c = None \<Longrightarrow> tally f s new = 0"
  by (induction new) auto

lemma deletion_plain: "call_labels c = None \<Longrightarrow> plain_call c"
  by (simp add: plain_call_def)

text \<open>Which dimensions an observation reaches.\<close>

definition wanted :: "kind \<Rightarrow> string \<Rightarrow> bool" where
  "wanted k dim \<longleftrightarrow> k = (if dim = DimEvent then KindCustom else KindPageview)"

definition dim_call :: "string \<Rightarrow> dimension \<Rightarrow> metric_call \<Rightarrow> bool" where
  "dim_call site d c \<longleftrightarrow> (\<exists>ls. c = Inc (FDim (d_dim d)) (site # ls))"

lemma admit_dim_sessions: "admit_dim ev dim v now st = Some (l, st') \<Longrightarrow> st_sessions st' = st_sessions st"
  by (auto simp: admit_dim_def split: bind_splits)

lemma record_dimension_calls:
  assumes "record_dimension ev ob x d (st, calls) = Some (st', calls')"
  shows "st_sessions st' = st_sessions st \<and>
    (\<exists>new. calls' = calls @ new \<and> list_all2 (dim_call (o_Site ob)) (filter (\<lambda>d. wanted (o_Kind ob) (d_dim d)) [d]) new)"
  using assms
  by (auto simp: record_dimension_def Let_def wanted_def dim_call_def split: if_splits bind_splits
    dest: admit_dim_sessions)

lemma record_dimensions_calls:
  assumes "loop_opt (record_dimension ev ob x) ds (st, calls) = Some (st', calls')"
  shows "st_sessions st' = st_sessions st \<and>
    (\<exists>new. calls' = calls @ new \<and> list_all2 (dim_call (o_Site ob)) (filter (\<lambda>d. wanted (o_Kind ob) (d_dim d)) ds) new)"
  using assms
proof (induction ds arbitrary: st calls)
  case (Cons d ds)
  then obtain st1 calls1 where 1: "record_dimension ev ob x d (st, calls) = Some (st1, calls1)"
      "loop_opt (record_dimension ev ob x) ds (st1, calls1) = Some (st', calls')"
    by (auto split: bind_splits)
  obtain n1 n2 where n: "calls1 = calls @ n1" "calls' = calls1 @ n2"
      "list_all2 (dim_call (o_Site ob)) (filter (\<lambda>d. wanted (o_Kind ob) (d_dim d)) [d]) n1"
      "list_all2 (dim_call (o_Site ob)) (filter (\<lambda>d. wanted (o_Kind ob) (d_dim d)) ds) n2"
    using record_dimension_calls [OF 1(1)] Cons.IH [OF 1(2)] by blast
  have "list_all2 (dim_call (o_Site ob)) (filter (\<lambda>d. wanted (o_Kind ob) (d_dim d)) ([d] @ ds)) (n1 @ n2)"
    unfolding filter_append by (rule list_all2_appendI [OF n(3,4)])
  with n(1,2) record_dimension_calls [OF 1(1)] Cons.IH [OF 1(2)] show ?case by auto
qed simp

lemma dim_calls_tally:
  "list_all2 (dim_call site) ds new \<Longrightarrow>
   tally f s new = (if s = site then length (filter (\<lambda>d. f = FDim (d_dim d)) ds) else 0) \<and> (\<forall>c \<in> set new. plain_call c)"
  by (induction rule: list_all2_induct) (auto simp: dim_call_def plain_call_def)

lemma filter_unique:
  "distinct (map g xs) \<Longrightarrow>
   length (filter (\<lambda>x. y = g x) (filter (\<lambda>x. P (g x)) xs)) = (if y \<in> g ` set xs \<and> P y then 1 else 0)"
  by (induction xs) auto

lemma dimensions_distinct: "distinct (map d_dim dimensions)"
  by (simp add: dimensions_def dim_defs)

lemma wanted_dimensions:
  "length (filter (\<lambda>d. FDim dim = FDim (d_dim d)) (filter (\<lambda>d. wanted k (d_dim d)) dimensions)) =
     (if dim \<in> dims \<and> wanted k dim then 1 else 0)"
  using filter_unique [OF dimensions_distinct, of dim "wanted k"] by (simp add: dims_def del: filter_filter)

lemma geo_detail_calls:
  "(\<forall>c \<in> set (geo_detail ob cfg). plain_call c) \<and> (pageview_family f \<longrightarrow> tally f s (geo_detail ob cfg) = 0)"
  by (auto simp: geo_detail_def plain_call_def pageview_family_def)

text \<open>What an observation adds to the tally of a pageview family.\<close>

definition expect :: "observation \<Rightarrow> family \<Rightarrow> string \<Rightarrow> nat" where
  "expect ob f site =
     (if site = o_Site ob \<and>
         (f = FPageviews \<and> o_Kind ob = KindPageview \<or> (\<exists>dim \<in> dims. f = FDim dim \<and> wanted (o_Kind ob) dim))
      then 1 else 0)"

lemma accounted_plain:
  "\<forall>c \<in> set new. plain_call c \<Longrightarrow> rs.accounted (s, calls) \<Longrightarrow> rs.accounted (s, calls @ new)"
  using plain_calls_n [of new] by (simp add: rs.accounted_def)

text \<open>\<open>sessions_step site s a s' b\<close>: a step of one site that keeps the books.\<close>

definition sessions_step :: "string \<Rightarrow> sessions \<Rightarrow> metric_call list \<Rightarrow> sessions \<Rightarrow> metric_call list \<Rightarrow> bool" where
  "sessions_step site s a s' b \<longleftrightarrow>
     (rs.accounted (s, a) \<and> ss_site s = site \<and> gm_len (ss_map s) \<le> max 0 (ss_cap s) \<longrightarrow>
        rs.accounted (s', b) \<and> ss_site s' = site \<and> ss_cap s' = ss_cap s \<and> gm_len (ss_map s') \<le> max 0 (ss_cap s))"

lemma sessions_step_plain:
  "\<forall>c \<in> set new. plain_call c \<Longrightarrow> sessions_step site s a s (a @ new)"
  using accounted_plain by (simp add: sessions_step_def)

lemma sessions_step_trans: "sessions_step site s a t b \<Longrightarrow> sessions_step site t b u c \<Longrightarrow> sessions_step site s a u c"
  unfolding sessions_step_def by metis

lemma record_pageview_calls:
  assumes r: "record_pageview ev ob p x (st, calls) = Some (st', calls')"
    and site: "ss_site (st_sessions st) = o_Site ob" "sessions_ok (st_sessions st)"
  shows "sessions_step (o_Site ob) (st_sessions st) calls (st_sessions st') calls' \<and>
    (\<exists>new. calls' = calls @ new \<and> (\<forall>s. s \<noteq> o_Site ob \<longrightarrow> n_started s new = 0 \<and> n_ended s new = 0) \<and>
       (\<forall>f s. pageview_family f \<longrightarrow> tally f s new =
          (if s = o_Site ob \<and> f = FPageviews \<and> o_Kind ob = KindPageview then 1 else 0)))"
proof (cases "o_Kind ob = KindPageview")
  case False
  with r have "st' = st" "calls' = calls" by (auto simp: record_pageview_def)
  with False show ?thesis by (auto simp: sessions_step_def)
next
  case True
  define pv where "pv = calls @ [Inc FPageviews [o_Site ob, p]]"
  obtain b ss k where t: "Touch registry_sink (o_VisitorID ob) p (o_At ob) (st_sessions st, pv) = (b, ss, k)"
    by (metis prod.collapse)
  define fin where "fin = (if b then [Inc FEntries [o_Site ob, p]] else [])"
  have st': "st_sessions st' = ss" "calls' = k @ fin"
    using r True t by (auto simp: record_pageview_def pv_def fin_def recordPathUnique_def Let_def split: bind_splits if_splits)
  obtain new where new: "k = pv @ new" "\<forall>c \<in> set new. session_call (o_Site ob) c"
    using Touch_adds [OF site(2) t] site(1) by (auto simp: session_adds_def)
  have pv: "sessions_step (o_Site ob) (st_sessions st) calls (st_sessions st) pv"
    unfolding pv_def by (rule sessions_step_plain) (simp add: plain_call_def)
  have fin: "sessions_step (o_Site ob) ss k ss (k @ fin)"
    by (rule sessions_step_plain) (simp add: fin_def plain_call_def)
  have "sessions_step (o_Site ob) (st_sessions st) pv ss k"
    using rs.touch_accounted [OF _ t] by (cases b) (auto simp: sessions_step_def)
  with pv fin have "sessions_step (o_Site ob) (st_sessions st) calls ss (k @ fin)"
    using sessions_step_trans by blast
  moreover have "calls' = calls @ [Inc FPageviews [o_Site ob, p]] @ new @ fin"
    by (simp add: st'(2) new(1) pv_def)
  ultimately show ?thesis
    using session_calls_tally [OF new(2)] session_calls_elsewhere [OF new(2)] True
    by (auto simp: st' fin_def pageview_family_def)
qed

lemma record_site_calls:
  assumes r: "record_site ev ob (st, calls) = Some (st', calls')"
    and ok: "state_ok st" "ss_site (st_sessions st) = o_Site ob"
  shows "sessions_step (o_Site ob) (st_sessions st) calls (st_sessions st') calls' \<and>
    (\<exists>new. calls' = calls @ new \<and> (\<forall>s. s \<noteq> o_Site ob \<longrightarrow> n_started s new = 0 \<and> n_ended s new = 0) \<and>
       (\<forall>f s. pageview_family f \<longrightarrow> tally f s new = expect ob f s))"
proof (cases "o_Kind ob = KindEngagement")
  case True
  let ?new = "if o_TimeOnPage ob \<le> 0 then []
      else [Observe FTimeOnPage [o_Site ob, fst (Peek (st_crossPath st) (o_Path ob))] (o_TimeOnPage ob)]"
  have st': "st_sessions st' = Extend (o_VisitorID ob) (o_At ob) (st_sessions st)" "calls' = calls @ ?new"
    using r True by (auto simp: record_site_def recordEngagement_def Let_def split: if_splits)
  have plain: "\<forall>c \<in> set ?new. plain_call c" by (simp add: plain_call_def)
  have "sessions_step (o_Site ob) (st_sessions st) calls (st_sessions st') calls'"
    using rs.extend_accounted accounted_plain [OF plain] by (auto simp: sessions_step_def st')
  moreover have "n_started s ?new = 0 \<and> n_ended s ?new = 0" for s
    using plain_calls_n [OF plain] .
  moreover have "tally f s ?new = expect ob f s" for f s
    using True by (simp add: expect_def wanted_def)
  ultimately show ?thesis using st'(2) by blast
next
  case False
  then obtain p x st1 st2 calls2 st3 calls3 where
    a: "admit_paths ev ob st = Some (p, x, st1)" and
    b: "record_pageview ev ob p x (st1, calls) = Some (st2, calls2)" and
    c: "loop_opt (record_dimension ev ob x) dimensions (st2, calls2) = Some (st3, calls3)" and
    e: "st' = st3" "calls' = calls3 @ geo_detail ob (st_cfg st3)"
    using r by (auto simp: record_site_def split: bind_splits)
  have st1: "st_sessions st1 = st_sessions st" using a by (auto simp: admit_paths_def split: bind_splits)
  have ok1: "ss_site (st_sessions st1) = o_Site ob" "sessions_ok (st_sessions st1)"
    using ok by (simp_all add: st1 state_ok_def)
  obtain n1 where n1: "calls2 = calls @ n1" "sessions_step (o_Site ob) (st_sessions st1) calls (st_sessions st2) calls2"
      "\<And>s. s \<noteq> o_Site ob \<Longrightarrow> n_started s n1 = 0 \<and> n_ended s n1 = 0"
      "\<And>f s. pageview_family f \<Longrightarrow> tally f s n1 =
          (if s = o_Site ob \<and> f = FPageviews \<and> o_Kind ob = KindPageview then 1 else 0)"
    using record_pageview_calls [OF b ok1] by blast
  obtain n2 where n2: "calls3 = calls2 @ n2" "st_sessions st3 = st_sessions st2"
      "list_all2 (dim_call (o_Site ob)) (filter (\<lambda>d. wanted (o_Kind ob) (d_dim d)) dimensions) n2"
    using record_dimensions_calls [OF c] by blast
  note t2 = dim_calls_tally [OF n2(3)]
  let ?g = "geo_detail ob (st_cfg st3)"
  note t3 = geo_detail_calls [of ob "st_cfg st3"]
  have plain: "\<forall>c \<in> set (n2 @ ?g). plain_call c" using t2 t3 by auto
  have calls': "calls' = calls2 @ (n2 @ ?g)" using e n2(1) by simp
  have "sessions_step (o_Site ob) (st_sessions st) calls (st_sessions st') calls'"
    using sessions_step_trans [OF n1(2) sessions_step_plain [OF plain]] by (simp add: calls' e n2(2) st1)
  moreover have "calls' = calls @ (n1 @ (n2 @ ?g))" using calls' n1(1) by simp
  moreover have "n_started s (n1 @ (n2 @ ?g)) = 0 \<and> n_ended s (n1 @ (n2 @ ?g)) = 0" if "s \<noteq> o_Site ob" for s
    using n1(3) [OF that] plain_calls_n [OF plain, of s] by simp
  moreover have "tally f s (n1 @ (n2 @ ?g)) = expect ob f s" if "pageview_family f" for f s
  proof -
    have "length (filter (\<lambda>d. f = FDim (d_dim d)) (filter (\<lambda>d. wanted (o_Kind ob) (d_dim d)) dimensions)) =
        (if \<exists>dim \<in> dims. f = FDim dim \<and> wanted (o_Kind ob) dim then 1 else 0)"
    proof (cases "f = FPageviews")
      case False
      with that obtain dim where "f = FDim dim" by (auto simp: pageview_family_def)
      then show ?thesis unfolding \<open>f = FDim dim\<close> wanted_dimensions by (simp add: Bex_def)
    qed simp
    with n1(4) [OF that] t2 t3 that show ?thesis by (auto simp: expect_def)
  qed
  ultimately show ?thesis by blast
qed

section \<open>The calls of a sweep\<close>

definition only_deletes :: "metric_call list \<Rightarrow> metric_call list \<Rightarrow> bool" where
  "only_deletes a b \<longleftrightarrow> (\<exists>new. b = a @ new \<and> (\<forall>c \<in> set new. call_labels c = None))"

lemma only_deletes_trans: "only_deletes a b \<Longrightarrow> only_deletes b c \<Longrightarrow> only_deletes a c"
  unfolding only_deletes_def by (metis Un_iff append_assoc set_append)

lemma maintain_pure_calls:
  "maintain_pure now (st, a) = (st', b) \<Longrightarrow> st_sessions st' = st_sessions st \<and> only_deletes a b"
  by (auto simp: maintain_pure_def Let_def only_deletes_def split: prod.splits)

lemma maintain_cross_calls:
  "maintain_cross now (st, a) = (st', b) \<Longrightarrow> st_sessions st' = st_sessions st \<and> only_deletes a b"
  by (auto simp: maintain_cross_def Let_def only_deletes_def split: prod.splits)

lemma maintain_dimension_calls:
  "maintain_dimension now d (st, a) = Some (st', b) \<Longrightarrow> st_sessions st' = st_sessions st \<and> only_deletes a b"
  by (auto simp: maintain_dimension_def Let_def only_deletes_def split: bind_splits prod.splits)

lemma maintain_dimensions_calls:
  assumes "loop_opt (maintain_dimension now) ds (st, a) = Some (st', b)"
  shows "st_sessions st' = st_sessions st \<and> only_deletes a b"
proof -
  have "(\<lambda>(t, c). st_sessions t = st_sessions st \<and> only_deletes a c) (st', b)"
  proof (rule loop_opt_invariant [OF assms])
    show "case (st, a) of (t, c) \<Rightarrow> st_sessions t = st_sessions st \<and> only_deletes a c"
      by (simp add: only_deletes_def)
    show "case x' of (t, c) \<Rightarrow> st_sessions t = st_sessions st \<and> only_deletes a c"
      if "case x of (t, c) \<Rightarrow> st_sessions t = st_sessions st \<and> only_deletes a c"
        and "maintain_dimension now d x = Some x'" for d x x'
    proof -
      obtain t c t' c' where x: "x = (t, c)" "x' = (t', c')" by (metis prod.collapse)
      with that maintain_dimension_calls [of now d t c t' c'] only_deletes_trans show ?thesis by auto
    qed
  qed
  then show ?thesis by simp
qed

lemma maintain_site_calls:
  assumes m: "maintain_site now (st, calls) = Some (st', calls')"
    and ok: "ss_site (st_sessions st) = site" "sessions_ok (st_sessions st)"
  shows "sessions_step site (st_sessions st) calls (st_sessions st') calls' \<and>
    (\<exists>new. calls' = calls @ new \<and> (\<forall>s. s \<noteq> site \<longrightarrow> n_started s new = 0 \<and> n_ended s new = 0) \<and>
       (\<forall>f s. pageview_family f \<longrightarrow> tally f s new = 0))"
proof -
  obtain n ss k where sw: "Sweep registry_sink now (st_sessions st, calls) = (n, ss, k)" by (metis prod.collapse)
  obtain st1 a1 where p: "maintain_pure now (st\<lparr>st_sessions := ss\<rparr>, k) = (st1, a1)" by (metis prod.collapse)
  obtain st2 a2 where x: "maintain_cross now (st1, a1) = (st2, a2)" by (metis prod.collapse)
  have d: "loop_opt (maintain_dimension now) dimensions (st2, a2) = Some (st', calls')"
    using m by (simp add: maintain_site_def sw p x)
  note p' = maintain_pure_calls [OF p] and x' = maintain_cross_calls [OF x] and d' = maintain_dimensions_calls [OF d]
  have st': "st_sessions st' = ss" using p' x' d' by simp
  have "only_deletes k calls'"
    by (rule only_deletes_trans [OF only_deletes_trans [OF conjunct2 [OF p'] conjunct2 [OF x']] conjunct2 [OF d']])
  then obtain dels where dels: "calls' = k @ dels" "\<forall>c \<in> set dels. call_labels c = None"
    unfolding only_deletes_def by blast
  then have plain: "\<forall>c \<in> set dels. plain_call c" using deletion_plain by blast
  obtain new where new: "k = calls @ new" "\<forall>c \<in> set new. session_call site c"
    using Sweep_adds [OF ok(2) sw] ok(1) by (auto simp: session_adds_def)
  have "0 \<le> n" using sw by (auto simp: Sweep_def sweep_locked_def split: prod.splits)
  then have "sessions_step site (st_sessions st) calls ss k"
    using rs.sweep_accounted [OF _ sw] by (force simp: sessions_step_def)
  then have "sessions_step site (st_sessions st) calls ss (k @ dels)"
    using sessions_step_plain [OF plain] sessions_step_trans by blast
  moreover have "calls' = calls @ (new @ dels)" by (simp add: dels(1) new(1))
  moreover have "n_started s (new @ dels) = 0 \<and> n_ended s (new @ dels) = 0" if "s \<noteq> site" for s
    using session_calls_elsewhere [OF new(2) that] plain_calls_n [OF plain, of s] by simp
  moreover have "tally f s (new @ dels) = 0" if "pageview_family f" for f s
    using session_calls_tally [OF new(2) that, of s] deletions_tally [OF dels(2), of f s] by simp
  ultimately show ?thesis unfolding st' dels(1) by blast
qed

section \<open>The books of the registry\<close>

definition books :: "('s, 're) registry \<Rightarrow> bool" where
  "books r \<longleftrightarrow> reg_inv r \<and>
     (\<forall>k st. map_of (rg_sites r) k = Some st \<longrightarrow>
        rs.accounted (st_sessions st, rg_calls r) \<and> ss_cap (st_sessions st) = 200000 \<and>
        gm_len (ss_map (st_sessions st)) \<le> 200000) \<and>
     (\<forall>k. map_of (rg_sites r) k = None \<longrightarrow> n_started k (rg_calls r) = n_ended k (rg_calls r))"

lemma books_set_site:
  assumes b: "books r" and st: "map_of (rg_sites r) k = Some st"
    and inv: "reg_inv (r\<lparr>rg_sites := AList.update k st' (rg_sites r), rg_calls := calls'\<rparr>)"
    and step: "sessions_step k (st_sessions st) (rg_calls r) (st_sessions st') calls'"
    and new: "calls' = rg_calls r @ new" "\<And>s. s \<noteq> k \<Longrightarrow> n_started s new = 0 \<and> n_ended s new = 0"
  shows "books (r\<lparr>rg_sites := AList.update k st' (rg_sites r), rg_calls := calls'\<rparr>)"
proof -
  have site: "ss_site (st_sessions t) = j" if "map_of (rg_sites r) j = Some t" for j t
    using b that unfolding books_def reg_inv_def site_inv_def by blast
  have here: "rs.accounted (st_sessions st', calls') \<and> ss_cap (st_sessions st') = 200000 \<and>
      gm_len (ss_map (st_sessions st')) \<le> 200000"
    using b st step site [OF st] by (auto simp: books_def sessions_step_def)
  have other: "rs.accounted (st_sessions t, calls')" if "map_of (rg_sites r) j = Some t" "j \<noteq> k" for j t
  proof -
    have "rs.accounted (st_sessions t, rg_calls r)" using b that(1) unfolding books_def by blast
    with new(2) [OF that(2)] site [OF that(1)] show ?thesis by (simp add: rs.accounted_def new(1))
  qed
  have none: "n_started j calls' = n_ended j calls'" if "map_of (rg_sites r) j = None" for j
  proof -
    have "j \<noteq> k" using st that by auto
    with b that new show ?thesis by (simp add: books_def)
  qed
  show ?thesis
    unfolding books_def
  proof (intro conjI allI impI)
    fix j t assume "map_of (rg_sites (r\<lparr>rg_sites := AList.update k st' (rg_sites r), rg_calls := calls'\<rparr>)) j = Some t"
    then have jt: "(if j = k then Some st' else map_of (rg_sites r) j) = Some t" by (simp add: update_conv')
    then have "rs.accounted (st_sessions t, calls') \<and> ss_cap (st_sessions t) = 200000 \<and>
        gm_len (ss_map (st_sessions t)) \<le> 200000"
      using here other b by (cases "j = k") (auto simp: books_def)
    then show "rs.accounted (st_sessions t, rg_calls (r\<lparr>rg_sites := AList.update k st' (rg_sites r), rg_calls := calls'\<rparr>))"
        "ss_cap (st_sessions t) = 200000" "gm_len (ss_map (st_sessions t)) \<le> 200000" by simp_all
  next
    fix j assume "map_of (rg_sites (r\<lparr>rg_sites := AList.update k st' (rg_sites r), rg_calls := calls'\<rparr>)) j = None"
    then have "map_of (rg_sites r) j = None" by (simp add: update_conv' split: if_splits)
    from none [OF this] show "n_started j (rg_calls (r\<lparr>rg_sites := AList.update k st' (rg_sites r), rg_calls := calls'\<rparr>)) =
        n_ended j (rg_calls (r\<lparr>rg_sites := AList.update k st' (rg_sites r), rg_calls := calls'\<rparr>))" by simp
  qed (rule inv)
qed

lemma books_Record:
  assumes b: "books r" and t: "timely (record_time clock ob)" and rec: "Record ev clock ob r = Some r'"
  shows "books r' \<and> map_of (rg_sites r') k \<noteq> None = (map_of (rg_sites r) k \<noteq> None) \<and>
    (pageview_family f \<longrightarrow> tally f s (rg_calls r') =
       tally f s (rg_calls r) + (if map_of (rg_sites r) (o_Site ob) = None then 0 else expect ob f s)) \<and>
    (\<exists>new. rg_calls r' = rg_calls r @ new)"
proof -
  have inv: "reg_inv r" using b by (simp add: books_def)
  obtain r0 where "Record ev clock ob r = survives ev (rg_calls r) r0" "reg_inv r0"
    using Record_shape [OF inv t, of ev] by blast
  with rec have inv': "reg_inv r'" by (auto simp: survives_def split: if_splits)
  show ?thesis
  proof (cases "map_of (rg_sites r) (o_Site ob)")
    case None
    then have r': "r' = r\<lparr>rg_calls := rg_calls r @ [Inc FIngestEvents [''unknown'', ''unknown_site'']]\<rparr>"
      using rec by (simp add: Record_def survives_def split: if_splits)
    have "rs.accounted (st_sessions st, rg_calls r')" if "map_of (rg_sites r) j = Some st" for j st
      using b that by (auto simp: books_def r' intro: accounted_plain [of "[_]"] simp: plain_call_def)
    then have "books r'" using b inv' by (auto simp: books_def r')
    then show ?thesis using None by (auto simp: r' pageview_family_def)
  next
    case (Some st)
    define ob' where "ob' = (if o_At ob = zero_time then ob\<lparr>o_At := clock\<rparr> else ob)"
    have ob': "o_Site ob' = o_Site ob" "expect ob' = expect ob"
      by (auto simp: ob'_def expect_def fun_eq_iff)
    obtain st' calls' where r: "record_site ev ob' (st, rg_calls r) = Some (st', calls')"
        "r' = r\<lparr>rg_sites := AList.update (o_Site ob) st' (rg_sites r), rg_calls := calls'\<rparr>"
      using rec Some ob'(1)
      by (auto simp: Record_def Let_def survives_def simp flip: ob'_def split: bind_splits if_splits)
    have "state_ok st" "ss_site (st_sessions st) = o_Site ob'"
      using reg_site [OF inv Some] ob' by (simp_all add: site_inv_def)
    note calls = record_site_calls [OF r(1) this, unfolded ob']
    obtain new where new: "calls' = rg_calls r @ new"
        "\<And>s. s \<noteq> o_Site ob \<Longrightarrow> n_started s new = 0 \<and> n_ended s new = 0"
        "\<And>f s. pageview_family f \<Longrightarrow> tally f s new = expect ob f s"
      using calls by blast
    have "books r'"
      unfolding r(2) by (rule books_set_site [OF b Some inv' [unfolded r(2)] conjunct1 [OF calls] new(1,2)])
    then show ?thesis using Some new(1,3) by (simp add: r(2) update_conv')
  qed
qed

lemma books_maintain_key:
  assumes b: "books r" and m: "maintain_key now k r = Some r'"
  shows "books r' \<and> dom (map_of (rg_sites r')) = dom (map_of (rg_sites r)) \<and>
    (pageview_family f \<longrightarrow> tally f s (rg_calls r') = tally f s (rg_calls r)) \<and>
    (\<exists>new. rg_calls r' = rg_calls r @ new)"
proof (cases "map_of (rg_sites r) k")
  case None
  with b m show ?thesis by (simp add: maintain_key_def)
next
  case (Some st)
  have inv: "reg_inv r" using b by (simp add: books_def)
  have inv': "reg_inv r'" using maintain_key_ok [OF inv, of now k] m by simp
  obtain st' calls' where r: "maintain_site now (st, rg_calls r) = Some (st', calls')"
      "r' = r\<lparr>rg_sites := AList.update k st' (rg_sites r), rg_calls := calls'\<rparr>"
    using m Some by (auto simp: maintain_key_def split: bind_splits)
  have "ss_site (st_sessions st) = k" "sessions_ok (st_sessions st)"
    using reg_site [OF inv Some] by (simp_all add: site_inv_def state_ok_def)
  note calls = maintain_site_calls [OF r(1) this]
  obtain new where new: "calls' = rg_calls r @ new"
      "\<And>s. s \<noteq> k \<Longrightarrow> n_started s new = 0 \<and> n_ended s new = 0"
      "\<And>f s. pageview_family f \<Longrightarrow> tally f s new = 0"
    using calls by blast
  have "books r'"
    unfolding r(2) by (rule books_set_site [OF b Some inv' [unfolded r(2)] conjunct1 [OF calls] new(1,2)])
  then show ?thesis using Some new(1,3) by (auto simp: r(2) update_conv' split: if_splits)
qed

lemma books_Maintain:
  assumes b: "books r" and m: "Maintain ev now r = Some r'"
  shows "books r' \<and> dom (map_of (rg_sites r')) = dom (map_of (rg_sites r)) \<and>
    (pageview_family f \<longrightarrow> tally f s (rg_calls r') = tally f s (rg_calls r)) \<and>
    (\<exists>new. rg_calls r' = rg_calls r @ new)"
proof -
  have "loop_opt (maintain_key now) (map fst (rg_sites r)) r = Some r'"
    using m by (auto simp: Maintain_def survives_def split: bind_splits if_splits)
  then show ?thesis
  proof (rule loop_opt_invariant)
    show "books r \<and> dom (map_of (rg_sites r)) = dom (map_of (rg_sites r)) \<and>
        (pageview_family f \<longrightarrow> tally f s (rg_calls r) = tally f s (rg_calls r)) \<and>
        (\<exists>new. rg_calls r = rg_calls r @ new)" using b by simp
    show "books t' \<and> dom (map_of (rg_sites t')) = dom (map_of (rg_sites r)) \<and>
        (pageview_family f \<longrightarrow> tally f s (rg_calls t') = tally f s (rg_calls r)) \<and>
        (\<exists>new. rg_calls t' = rg_calls r @ new)"
      if "books t \<and> dom (map_of (rg_sites t)) = dom (map_of (rg_sites r)) \<and>
        (pageview_family f \<longrightarrow> tally f s (rg_calls t) = tally f s (rg_calls r)) \<and>
        (\<exists>new. rg_calls t = rg_calls r @ new)"
        and "maintain_key now k t = Some t'" for k t t'
      using books_maintain_key [OF _ that(2), of f s] that(1) by auto
  qed
qed

lemma books_configure_site:
  assumes b: "books r"
  shows "books (r\<lparr>rg_sites := configure_site ev sc (rg_sites r)\<rparr>)"
proof -
  have eq: "configure_site ev sc (rg_sites r) = AList.update (Domain sc)
      (case map_of (rg_sites r) (Domain sc) of Some st \<Rightarrow> st\<lparr>st_cfg := sc\<rparr> | None \<Rightarrow> new_site_state ev sc) (rg_sites r)"
    by (simp add: configure_site_def split: option.split)
  have new: "ss_site (st_sessions (new_site_state ev sc)) = Domain sc" "ss_cap (st_sessions (new_site_state ev sc)) = 200000"
      "ss_map (st_sessions (new_site_state ev sc)) = []" "sessions_ok (st_sessions (new_site_state ev sc))"
    by (simp_all add: new_site_state_def NewSessions_def)
  have "reg_inv (r\<lparr>rg_sites := configure_site ev sc (rg_sites r)\<rparr>)"
    using b by (intro configure_site_ok) (simp add: books_def)
  with b show ?thesis
    unfolding books_def eq by (auto simp: update_conv' rs.accounted_def new split: option.splits if_splits)
qed

lemma books_Configure:
  assumes "books r"
  shows "books (Configure ev cfg r) \<and> dom (map_of (rg_sites r)) \<subseteq> dom (map_of (rg_sites (Configure ev cfg r)))"
proof -
  have "books (r\<lparr>rg_sites := fold (configure_site ev) ss (rg_sites r)\<rparr>) \<and>
      dom (map_of (rg_sites r)) \<subseteq> dom (map_of (fold (configure_site ev) ss (rg_sites r)))" for ss
    using assms
  proof (induction ss arbitrary: r)
    case (Cons sc ss)
    let ?r = "r\<lparr>rg_sites := configure_site ev sc (rg_sites r)\<rparr>"
    have "dom (map_of (rg_sites r)) \<subseteq> dom (map_of (rg_sites ?r))"
      by (auto simp: configure_site_def update_conv' split: option.split)
    with Cons.IH [OF books_configure_site [OF Cons.prems, of ev sc]] show ?case by auto
  qed simp
  then show ?thesis by (simp add: Configure_def)
qed

lemma books_New: "books (New ev cfg)"
  unfolding New_def by (rule conjunct1 [OF books_Configure]) (simp add: books_def reg_inv_def live_def)

section \<open>Runs\<close>

fun is_record :: "kind \<Rightarrow> string \<Rightarrow> 're reg_op \<Rightarrow> bool" where
  "is_record k site (ORecord clock ob) = (o_Kind ob = k \<and> o_Site ob = site)"
| "is_record k site _ = False"

text \<open>How many observations of a kind were recorded for a site.\<close>

definition recorded :: "kind \<Rightarrow> string \<Rightarrow> 're reg_op list \<Rightarrow> nat" where
  "recorded k site ops = length (filter (is_record k site) ops)"

definition family_kind :: "family \<Rightarrow> kind" where
  "family_kind f = (if f = FDim DimEvent then KindCustom else KindPageview)"

definition counted_family :: "family \<Rightarrow> bool" where
  "counted_family f \<longleftrightarrow> f = FPageviews \<or> (\<exists>dim \<in> dims. f = FDim dim)"

lemma expect_family:
  "counted_family f \<Longrightarrow> expect ob f s = (if o_Site ob = s \<and> o_Kind ob = family_kind f then 1 else 0)"
  by (auto simp: expect_def counted_family_def family_kind_def wanted_def)

lemma books_step:
  assumes step: "reg_step ev op r = Some r'" and b: "books r" and t: "op_timely op" and s: "map_of (rg_sites r) s \<noteq> None"
    and f: "counted_family f"
  shows "books r' \<and> map_of (rg_sites r') s \<noteq> None \<and>
    tally f s (rg_calls r') = tally f s (rg_calls r) + (if is_record (family_kind f) s op then 1 else 0)"
proof -
  have pf: "pageview_family f" using f by (auto simp: counted_family_def pageview_family_def)
  show ?thesis
  proof (cases op)
    case (ORecord clock ob)
    with step t have rec: "Record ev clock ob r = Some r'" and "timely (record_time clock ob)" by simp_all
    from books_Record [OF b this(2,1), of s f s] s pf show ?thesis
      by (cases "o_Site ob = s") (auto simp: ORecord expect_family [OF f])
  next
    case (OMaintain now)
    with step have "Maintain ev now r = Some r'" by simp
    from books_Maintain [OF b this, of f s] s pf show ?thesis by (auto simp: OMaintain)
  next
    case (OConfigure cfg)
    with step have "r' = Configure ev cfg r" by simp
    with books_Configure [OF b, of ev cfg] s show ?thesis by (auto simp: OConfigure Configure_def)
  qed
qed

lemma books_run:
  assumes "loop_opt (reg_step ev) ops r = Some r'" and "books r" and "\<forall>op \<in> set ops. op_timely op"
    and "map_of (rg_sites r) s \<noteq> None" and "counted_family f"
  shows "books r' \<and> tally f s (rg_calls r') = tally f s (rg_calls r) + recorded (family_kind f) s ops"
  using assms
proof (induction ops arbitrary: r)
  case (Cons op ops)
  then obtain r1 where r1: "reg_step ev op r = Some r1" "loop_opt (reg_step ev) ops r1 = Some r'"
    by (auto split: bind_splits)
  from books_step [OF r1(1) Cons.prems(2) _ Cons.prems(4,5)] Cons.prems(3)
  have b: "books r1" "map_of (rg_sites r1) s \<noteq> None"
      "tally f s (rg_calls r1) = tally f s (rg_calls r) + (if is_record (family_kind f) s op then 1 else 0)"
    by simp_all
  from Cons.IH [OF r1(2) b(1) _ b(2) Cons.prems(5)] Cons.prems(3) b(3) show ?case
    by (simp add: recorded_def)
qed (simp add: recorded_def)

lemma New_calls [simp]: "rg_calls (New ev cfg) = []"
  by (simp add: New_def Configure_def)

text \<open>
  The configuration of a site that made its state: the first in the order of the configurations, the one of
  the start and those of the reloads. A later one changes the settings but not the guards.
\<close>

fun reloads :: "'re reg_op list \<Rightarrow> 're config list" where
  "reloads [] = []"
| "reloads (OConfigure c # ops) = c # reloads ops"
| "reloads (_ # ops) = reloads ops"

definition made_by :: "'re config list \<Rightarrow> string \<Rightarrow> 're site option" where
  "made_by cs k = List.find (\<lambda>s. Domain s = k) (concat (map Sites cs))"

definition makers :: "'re site list \<Rightarrow> (string, ('s, 're) site_state) gomap \<Rightarrow> bool" where
  "makers ss m \<longleftrightarrow>
     (\<forall>k. case List.find (\<lambda>s. Domain s = k) ss of
        None \<Rightarrow> map_of m k = None
      | Some sc \<Rightarrow> \<exists>st. map_of m k = Some st \<and> caps_of sc st)"

lemma caps_of_new: "caps_of sc (new_site_state ev sc)"
  unfolding caps_of_def dim_guard_def new_site_guards
  by (simp add: NewGuard_def) (simp add: new_site_state_def NewGuardWith_def)

lemma caps_of_cfg: "caps_of c (st\<lparr>st_cfg := x\<rparr>) \<longleftrightarrow> caps_of c st"
  by (simp add: caps_of_def)

lemma find_append: "List.find P (xs @ ys) = (case List.find P xs of None \<Rightarrow> List.find P ys | Some x \<Rightarrow> Some x)"
  by (induction xs) simp_all

lemma makers_site: "makers ss m \<Longrightarrow> makers (ss @ [sc]) (configure_site ev sc m)"
proof -
  assume m: "makers ss m"
  show ?thesis
    unfolding makers_def
  proof
    fix k
    from m have k: "case List.find (\<lambda>s. Domain s = k) ss of None \<Rightarrow> map_of m k = None | Some c \<Rightarrow> \<exists>st. map_of m k = Some st \<and> caps_of c st"
      by (simp add: makers_def)
    show "case List.find (\<lambda>s. Domain s = k) (ss @ [sc]) of None \<Rightarrow> map_of (configure_site ev sc m) k = None
        | Some c \<Rightarrow> \<exists>st. map_of (configure_site ev sc m) k = Some st \<and> caps_of c st"
      using k by (cases "k = Domain sc")
        (auto simp: find_append configure_site_def update_conv' caps_of_cfg caps_of_new split: option.splits)
  qed
qed

lemma makers_Configure: "makers ss (rg_sites r) \<Longrightarrow> makers (ss @ Sites cfg) (rg_sites (Configure ev cfg r))"
proof -
  have "makers (ss @ ts) (fold (configure_site ev) ts m)" if "makers ss m" for ss ts m
    using that
  proof (induction ts arbitrary: ss m)
    case (Cons t ts)
    from Cons.IH [OF makers_site [OF Cons.prems, of t ev]] show ?case by simp
  qed simp
  then show "makers ss (rg_sites r) \<Longrightarrow> makers (ss @ Sites cfg) (rg_sites (Configure ev cfg r))"
    by (simp add: Configure_def)
qed

lemma makers_evolves:
  assumes "makers ss (rg_sites r)" and "evolves r r'" and "\<And>k. map_of (rg_sites r') k = None \<longleftrightarrow> map_of (rg_sites r) k = None"
  shows "makers ss (rg_sites r')"
  unfolding makers_def
proof
  fix k
  from assms(1) have k: "case List.find (\<lambda>s. Domain s = k) ss of None \<Rightarrow> map_of (rg_sites r) k = None
      | Some sc \<Rightarrow> \<exists>st. map_of (rg_sites r) k = Some st \<and> caps_of sc st"
    by (simp add: makers_def)
  show "case List.find (\<lambda>s. Domain s = k) ss of None \<Rightarrow> map_of (rg_sites r') k = None
      | Some sc \<Rightarrow> \<exists>st. map_of (rg_sites r') k = Some st \<and> caps_of sc st"
  proof (cases "List.find (\<lambda>s. Domain s = k) ss")
    case None
    with k assms(3) [of k] show ?thesis by simp
  next
    case (Some sc)
    with k obtain st where st: "map_of (rg_sites r) k = Some st" "caps_of sc st" by auto
    then obtain st' where "map_of (rg_sites r') k = Some st'" "same_caps st st'"
      using assms(2) unfolding evolves_def by blast
    with st(2) Some show ?thesis by (auto simp: caps_of_def same_caps_def)
  qed
qed

lemma makers_run:
  assumes "loop_opt (reg_step ev) ops r = Some r'" and "books r" and "\<forall>op \<in> set ops. op_timely op" and "makers ss (rg_sites r)"
  shows "books r' \<and> makers (ss @ concat (map Sites (reloads ops))) (rg_sites r')"
  using assms
proof (induction ops arbitrary: r ss)
  case (Cons op ops)
  then obtain r1 where r1: "reg_step ev op r = Some r1" "loop_opt (reg_step ev) ops r1 = Some r'"
    by (auto split: bind_splits)
  have t: "op_timely op" "\<forall>op \<in> set ops. op_timely op" using Cons.prems(3) by simp_all
  have inv: "reg_inv r" using Cons.prems(2) by (simp add: books_def)
  note ev = conjunct2 [OF reg_step_ok [OF r1(1) inv t(1)]]
  show ?case
  proof (cases op)
    case (OConfigure c)
    with r1(1) have "r1 = Configure ev c r" by simp
    with books_Configure [OF Cons.prems(2), of ev c] makers_Configure [OF Cons.prems(4), of c ev]
    have "books r1" "makers (ss @ Sites c) (rg_sites r1)" by simp_all
    from Cons.IH [OF r1(2) this(1) t(2) this(2)] show ?thesis by (simp add: OConfigure)
  next
    case (ORecord clock ob)
    with r1(1) t(1) have "Record ev clock ob r = Some r1" "timely (record_time clock ob)" by simp_all
    from books_Record [OF Cons.prems(2) this(2,1)] have b: "books r1" "map_of (rg_sites r1) k = None \<longleftrightarrow> map_of (rg_sites r) k = None" for k
      by blast+
    from Cons.IH [OF r1(2) b(1) t(2) makers_evolves [OF Cons.prems(4) ev b(2)]] show ?thesis by (simp add: ORecord)
  next
    case (OMaintain now)
    with r1(1) have "Maintain ev now r = Some r1" by simp
    from books_Maintain [OF Cons.prems(2) this] have b: "books r1" "map_of (rg_sites r1) k = None \<longleftrightarrow> map_of (rg_sites r) k = None" for k
      by (blast, metis domIff)
    from Cons.IH [OF r1(2) b(1) t(2) makers_evolves [OF Cons.prems(4) ev b(2)]] show ?thesis by (simp add: OMaintain)
  qed
qed simp

text \<open>A site that some configuration names, at the end of a run.\<close>

lemma run_made:
  assumes "made_by (cfg # reloads ops) k = Some sc" and "\<forall>op \<in> set ops. op_timely op"
    and "loop_opt (reg_step ev) ops (New ev cfg) = Some r"
  obtains st where "Domain sc = k" "map_of (rg_sites r) k = Some st" "site_inv k st (rg_calls r)" "caps_of sc st" "books r"
proof -
  have "makers [] (rg_sites \<lparr>rg_sites = [], rg_calls = []\<rparr>)" by (simp add: makers_def)
  from makers_Configure [OF this, of cfg ev] have "makers (Sites cfg) (rg_sites (New ev cfg))" by (simp add: New_def)
  from makers_run [OF assms(3) books_New assms(2) this] have b: "books r"
      "makers (Sites cfg @ concat (map Sites (reloads ops))) (rg_sites r)" by simp_all
  then obtain st where st: "map_of (rg_sites r) k = Some st" "caps_of sc st"
    using assms(1) by (auto simp: makers_def made_by_def dest!: spec [of _ k])
  have "Domain sc = k" using assms(1) by (auto simp: made_by_def find_Some_iff)
  then show thesis using that st reg_site [of r k st] b(1) by (simp add: books_def)
qed

section \<open>Properties\<close>

text \<open>An installation for the witnesses: the example site, an exact sketch, a client that takes all.\<close>

definition example_env :: "u64 set env" where
  "example_env = \<lparr>ev_xx = (\<lambda>v. word_of_nat (length v)), ev_hll = exact_hll, ev_accepts = (\<lambda>_. True)\<rparr>"

definition example_live :: "string config" where
  "example_live = example_config\<lparr>Sites := [example_built]\<rparr>"

definition visit :: "kind \<Rightarrow> string \<Rightarrow> u64 \<Rightarrow> time \<Rightarrow> observation" where
  "visit k path i t = \<lparr>o_Site = Domain example_built, o_Kind = k, o_Name = ''signup'', o_Path = path, o_Referrer = [],
     o_Source = [], o_Medium = [], o_Campaign = [], o_Country = ''DE'', o_Region = [], o_City = [], o_ASN = [], o_ASOrg = [],
     o_Browser = ''firefox'', o_OS = ''linux'', o_Device = ''desktop'', o_Screen = ''lg'', o_VisitorID = i,
     o_TimeOnPage = 5, o_At = t\<rparr>"

definition example_ops :: "string reg_op list" where
  "example_ops = [ORecord 10 (visit KindPageview ''/a'' 1 10), ORecord 20 (visit KindPageview ''/a'' 2 20),
     ORecord 30 (visit KindCustom ''/a'' 1 30), OMaintain (2 * hour_ns), ORecord 40 (visit KindEngagement ''/a'' 2 40),
     OConfigure example_live]"

lemma example_run:
  "\<exists>r. loop_opt (reg_step example_env) example_ops (New example_env example_live) = Some r"
  "\<forall>op \<in> set example_ops. op_timely op"
  "distinct (map Domain (Sites example_live))" "example_built \<in> set (Sites example_live)"
proof -
  show t: "\<forall>op \<in> set example_ops. op_timely op"
    by (simp add: example_ops_def visit_def timely_def record_time_def zero_time_def)
  show "\<exists>r. loop_opt (reg_step example_env) example_ops (New example_env example_live) = Some r"
    using New_ok t by (intro reg_run_total) (simp_all add: example_env_def)
qed (simp_all add: example_live_def)

text \<open>
  C1: However hostile the traffic, the series a site owns stay bounded by its caps. Take any sequence of
  observations, sweeps and reloads, one after the other, and any site that was configured at the start
  or by one of the reloads; its caps are those of the configuration that introduced it, a cap below one counting as one. Then
  \<open>pageviews_total\<close> and \<open>entries_total\<close> have at most \<open>path_cap\<close> plus the two sentinel series, time on page
  at most \<open>cross_path_cap\<close> plus two, each dimension other than the network at most (its cap + 2) times (\<open>cross_path_cap\<close> + 3),
  and at most \<open>cross_path_cap\<close> paths own a unique sketch. The network family has that bound on its pairs of
  network and path; its series also carry the name the database gives the network, which nothing bounds. The
  exits, and the regions and cities, which the code never caps, are not covered.
\<close>

theorem registry_series_bounded:
  assumes "made_by (cfg # reloads ops) k = Some sc"
    and "\<forall>op \<in> set ops. op_timely op" and "loop_opt (reg_step ev) ops (New ev cfg) = Some r"
  shows "at_most (series FPageviews k (rg_calls r)) (max 1 (PathCap (Defaults sc)) + 2) \<and>
    at_most (series FEntries k (rg_calls r)) (max 1 (PathCap (Defaults sc)) + 2) \<and>
    at_most (series FTimeOnPage k (rg_calls r)) (max 1 (CrossPathCap (Defaults sc)) + 2) \<and>
    (\<forall>dim. dim \<noteq> DimASN \<longrightarrow> at_most (series (FDim dim) k (rg_calls r))
      ((max 1 (capFor sc dim) + 2) * (max 1 (CrossPathCap (Defaults sc)) + 3))) \<and>
    at_most ((\<lambda>ls. (hd ls, last ls)) ` series (FDim DimASN) k (rg_calls r))
      ((max 1 (ASNCap (Defaults sc)) + 2) * (max 1 (CrossPathCap (Defaults sc)) + 3)) \<and>
    (\<exists>st. map_of (rg_sites r) k = Some st \<and> int (length (st_pathUniques st)) \<le> max 1 (CrossPathCap (Defaults sc)))"
proof -
  obtain st where st: "Domain sc = k" "map_of (rg_sites r) k = Some st" "site_inv k st (rg_calls r)" "caps_of sc st"
    using run_made [OF assms] .
  from series_bounds [OF st(3) [folded st(1)] st(4), unfolded st(1)] st(2) show ?thesis by simp
qed

lemma example_made: "made_by (example_live # reloads example_ops) (Domain example_built) = Some example_built"
  by (simp add: made_by_def example_live_def)

theorem registry_series_bounded_witness:
  "\<exists>r. loop_opt (reg_step example_env) example_ops (New example_env example_live) = Some r \<and>
     at_most (series FPageviews (Domain example_built) (rg_calls r)) (max 1 (PathCap (Defaults example_built)) + 2)"
proof -
  obtain r where "loop_opt (reg_step example_env) example_ops (New example_env example_live) = Some r"
    using example_run(1) by blast
  from this registry_series_bounded [OF example_made example_run(2) this] show ?thesis by blast
qed

text \<open>
  C2: Folding never loses a pageview. Over any run, each pageview recorded for a known site adds
  exactly one to \<open>pageviews_total\<close> and exactly one to every dimension other than events, and each
  custom event adds one to the event family: all the marginals of a site agree, whatever was folded
  into \<open>__other__\<close>, and engagement pings and sweeps add nothing.
\<close>

theorem marginals_agree:
  assumes "distinct (map Domain (Sites cfg))" and "sc \<in> set (Sites cfg)"
    and "\<forall>op \<in> set ops. op_timely op" and "loop_opt (reg_step ev) ops (New ev cfg) = Some r"
  shows "tally FPageviews (Domain sc) (rg_calls r) = recorded KindPageview (Domain sc) ops \<and>
    (\<forall>dim \<in> dims. tally (FDim dim) (Domain sc) (rg_calls r) =
       recorded (if dim = DimEvent then KindCustom else KindPageview) (Domain sc) ops)"
proof -
  have "map_of (rg_sites (New ev cfg)) (Domain sc) \<noteq> None"
    using New_caps [OF assms(1,2)] by blast
  from books_run [OF assms(4) books_New assms(3) this]
  have "tally f (Domain sc) (rg_calls r) = recorded (family_kind f) (Domain sc) ops" if "counted_family f" for f
    using that by simp
  then show ?thesis by (simp add: counted_family_def family_kind_def)
qed

theorem marginals_agree_witness:
  "\<exists>r. loop_opt (reg_step example_env) example_ops (New example_env example_live) = Some r \<and>
     tally FPageviews (Domain example_built) (rg_calls r) = 2"
proof -
  obtain r where r: "loop_opt (reg_step example_env) example_ops (New example_env example_live) = Some r"
    using example_run(1) by blast
  have "recorded KindPageview (Domain example_built) example_ops = 2"
    by (simp add: recorded_def example_ops_def visit_def)
  with r marginals_agree [OF example_run(3,4,2) r] show ?thesis by auto
qed

text \<open>
  C3: Used by one caller at a time, the registry never loses a session. After any sequence of observations,
  sweeps and reloads that run one after the other, for every site of the start or of a reload the sessions
  counted as started are the ones whose duration was observed plus the ones still live, and a site has at
  most 200000 live sessions. The daemon's workers share the registry; that two of them inside \<open>Touch\<close> at
  once can lose a session is \<open>Sessions.concurrent_touch_loses_a_session\<close>.
\<close>

theorem sessions_balance:
  assumes "made_by (cfg # reloads ops) k = Some sc"
    and "\<forall>op \<in> set ops. op_timely op" and "loop_opt (reg_step ev) ops (New ev cfg) = Some r"
  shows "\<exists>st. map_of (rg_sites r) k = Some st \<and>
    n_started k (rg_calls r) = n_ended k (rg_calls r) + length (ss_map (st_sessions st)) \<and>
    gm_len (ss_map (st_sessions st)) \<le> 200000"
proof -
  obtain st where st: "map_of (rg_sites r) k = Some st" "site_inv k st (rg_calls r)" "books r"
    using run_made [OF assms] .
  then have "rs.accounted (st_sessions st, rg_calls r)" "gm_len (ss_map (st_sessions st)) \<le> 200000"
    unfolding books_def by blast+
  moreover have "ss_site (st_sessions st) = k" using st(2) by (simp add: site_inv_def)
  ultimately show ?thesis using st(1) by (simp add: rs.accounted_def)
qed

theorem sessions_balance_witness:
  "\<exists>r st. loop_opt (reg_step example_env) example_ops (New example_env example_live) = Some r \<and>
     map_of (rg_sites r) (Domain example_built) = Some st \<and>
     n_started (Domain example_built) (rg_calls r) =
       n_ended (Domain example_built) (rg_calls r) + length (ss_map (st_sessions st))"
proof -
  obtain r where r: "loop_opt (reg_step example_env) example_ops (New example_env example_live) = Some r"
    using example_run(1) by blast
  from r sessions_balance [OF example_made example_run(2) r] show ?thesis by blast
qed

end
