(* ===== verification/UA.thy ===== *)
theory UA
  imports GoStrings Guard
begin

text \<open>
  User-agent classification, \<open>internal/enrich/ua.go\<close>: \<open>ParseUA\<close> reduces a header to one of a few
  browsers, operating systems and device classes. The vocabularies (\<open>browser_names\<close>, \<open>os_names\<close>,
  \<open>device_names\<close>) are closed and smaller than the caps of the guards that admit them.
\<close>

section \<open>The code\<close>

record client =
  ua_Browser :: string
  ua_OS :: string
  ua_Device :: string
  ua_Bot :: bool

definition botMarkers :: "string list" where
  "botMarkers =
     [''bot'', ''crawler'', ''spider'', ''crawling'', ''slurp'', ''curl/'', ''wget/'',
      ''python-requests'', ''python-urllib'', ''go-http-client'', ''java/'', ''okhttp'',
      ''headlesschrome'', ''phantomjs'', ''puppeteer'', ''playwright'', ''selenium'',
      ''lighthouse'', ''pagespeed'', ''gtmetrix'', ''pingdom'', ''uptimerobot'',
      ''monitoring'', ''http_request'', ''libwww-perl'', ''scrapy'', ''axios/'',
      ''node-fetch'', ''postmanruntime'', ''insomnia'', ''facebookexternalhit'',
      ''preview'', ''feedfetcher'', ''apache-httpclient'', ''dataprovider'',
      ''probe'', ''checker'', ''validator'', ''archiver'', ''wappalyzer'']"

definition browserRules :: "(string \<times> string) list" where
  "browserRules =
     [(''edg/'', ''Edge''), (''edga/'', ''Edge''), (''edgios/'', ''Edge''), (''opr/'', ''Opera''), (''opera'', ''Opera''),
      (''vivaldi'', ''Vivaldi''), (''brave'', ''Brave''), (''yabrowser'', ''Yandex''),
      (''samsungbrowser'', ''Samsung Internet''), (''ucbrowser'', ''UC Browser''), (''duckduckgo'', ''DuckDuckGo''),
      (''firefox/'', ''Firefox''), (''fxios/'', ''Firefox''), (''chromium'', ''Chromium''), (''crios/'', ''Chrome''),
      (''chrome/'', ''Chrome''), (''safari/'', ''Safari''), (''msie '', ''Internet Explorer''),
      (''trident/'', ''Internet Explorer'')]"

definition osRules :: "(string \<times> string) list" where
  "osRules =
     [(''windows nt 10'', ''Windows''), (''windows nt'', ''Windows''), (''windows phone'', ''Windows Phone''),
      (''android'', ''Android''), (''cros '', ''ChromeOS''), (''iphone'', ''iOS''), (''ipad'', ''iOS''), (''ipod'', ''iOS''),
      (''mac os x'', ''macOS''), (''macintosh'', ''macOS''), (''ubuntu'', ''Linux''), (''fedora'', ''Linux''),
      (''debian'', ''Linux''), (''linux'', ''Linux''), (''freebsd'', ''BSD''), (''openbsd'', ''BSD'')]"

definition deviceClass :: "string \<Rightarrow> string" where
  "deviceClass l =
     (if Contains l ''ipad'' \<or> Contains l ''tablet'' \<or> Contains l ''kindle'' \<or> Contains l ''playbook'' \<or> Contains l ''silk''
      then ''tablet''
      else if Contains l ''android'' \<and> \<not> Contains l ''mobile'' then ''tablet''
      else if Contains l ''mobi'' \<or> Contains l ''iphone'' \<or> Contains l ''ipod'' \<or> Contains l ''windows phone'' \<or>
        Contains l ''android''
      then ''mobile''
      else ''desktop'')"

text \<open>The loop \<open>for _, r := range rules { if Contains(l, r.marker) { x = r.name; break } }\<close>.\<close>

fun first_rule :: "(string \<times> string) list \<Rightarrow> string \<Rightarrow> string \<Rightarrow> string" where
  "first_rule [] l x = x"
| "first_rule ((marker, name) # rules) l x = (if Contains l marker then name else first_rule rules l x)"

definition ParseUA :: "(int \<Rightarrow> int) \<Rightarrow> string \<Rightarrow> client" where
  "ParseUA lower ua =
     (if ua = [] then \<lparr>ua_Browser = ''Unknown'', ua_OS = ''Unknown'', ua_Device = ''desktop'', ua_Bot = False\<rparr>
      else
        (let l = ToLower lower ua in
         if list_ex (Contains l) botMarkers then \<lparr>ua_Browser = [], ua_OS = [], ua_Device = [], ua_Bot = True\<rparr>
         else
           \<lparr>ua_Browser = first_rule browserRules l ''Other'', ua_OS = first_rule osRules l ''Other'',
            ua_Device = deviceClass l, ua_Bot = False\<rparr>))"

section \<open>The vocabularies\<close>

definition browser_names :: "string set" where
  "browser_names = insert ''Unknown'' (insert ''Other'' (snd ` set browserRules))"

definition os_names :: "string set" where
  "os_names = insert ''Unknown'' (insert ''Other'' (snd ` set osRules))"

definition device_names :: "string set" where
  "device_names = {''desktop'', ''mobile'', ''tablet''}"

lemma first_rule_in: "first_rule rules l x \<in> insert x (snd ` set rules)"
  by (induction rules l x rule: first_rule.induct) auto

text \<open>The first rule whose marker occurs decides, however many later markers occur too.\<close>

lemma first_rule_order:
  "\<forall>(m, _) \<in> set pre. \<not> Contains l m \<Longrightarrow> Contains l marker \<Longrightarrow>
   first_rule (pre @ (marker, name) # after) l x = name"
  by (induction pre) auto

lemma device_in: "deviceClass l \<in> device_names"
  unfolding deviceClass_def device_names_def by (simp del: Contains.simps)

lemma browser_in: "first_rule browserRules l ''Other'' \<in> browser_names"
  using first_rule_in [of browserRules l "''Other''"] unfolding browser_names_def by blast

lemma os_in: "first_rule osRules l ''Other'' \<in> os_names"
  using first_rule_in [of osRules l "''Other''"] unfolding os_names_def by blast

lemma unknown_in: "''Unknown'' \<in> browser_names" "''Unknown'' \<in> os_names" "''desktop'' \<in> device_names"
  by (simp_all add: browser_names_def os_names_def device_names_def)

lemma client_names:
  assumes "\<not> ua_Bot (ParseUA lower ua)"
  shows "ua_Browser (ParseUA lower ua) \<in> browser_names" "ua_OS (ParseUA lower ua) \<in> os_names"
    "ua_Device (ParseUA lower ua) \<in> device_names"
proof -
  have "ParseUA lower ua = \<lparr>ua_Browser = ''Unknown'', ua_OS = ''Unknown'', ua_Device = ''desktop'', ua_Bot = False\<rparr> \<or>
      (\<exists>l. ParseUA lower ua = \<lparr>ua_Browser = first_rule browserRules l ''Other'', ua_OS = first_rule osRules l ''Other'',
         ua_Device = deviceClass l, ua_Bot = False\<rparr>)"
    using assms by (auto simp: ParseUA_def Let_def split: if_splits)
  then show "ua_Browser (ParseUA lower ua) \<in> browser_names" "ua_OS (ParseUA lower ua) \<in> os_names"
    "ua_Device (ParseUA lower ua) \<in> device_names"
    using browser_in os_in device_in unknown_in by auto
qed

lemma names_small:
  "finite browser_names" "finite os_names" "finite device_names"
  "int (card browser_names) \<le> 40" "int (card os_names) \<le> 40" "int (card device_names) \<le> 40"
  "[] \<notin> browser_names" "[] \<notin> os_names" "[] \<notin> device_names"
proof -
  have "card (snd ` set browserRules) \<le> length browserRules" "card (snd ` set osRules) \<le> length osRules"
    by (meson card_image_le card_length finite_set le_trans)+
  moreover have "length browserRules = 19" "length osRules = 16"
    by (simp_all add: browserRules_def osRules_def)
  ultimately show "int (card browser_names) \<le> 40" "int (card os_names) \<le> 40"
    by (simp_all add: browser_names_def os_names_def card_insert_if)
  show "int (card device_names) \<le> 40" by (simp add: device_names_def card_insert_if)
  show "[] \<notin> browser_names" "[] \<notin> os_names" "[] \<notin> device_names"
    by (auto simp: browser_names_def os_names_def device_names_def browserRules_def osRules_def)
qed (simp_all add: browser_names_def os_names_def device_names_def)

end
