(* ===== verification/Float64.thy ===== *)
theory Float64
  imports Complex_Main "HOL-Library.Log_Nat"
begin

text \<open>
  Go's \<open>float64\<close>. A finite number is the rational it stands for; the result of an operation is \<open>fl\<close>
  of the exact result: the nearest number with a 53-bit significand, ties to the even one
  (IEEE 754, the default rounding). Exponents are unbounded here: the program computes with token
  counts and seconds, far from overflow and from the subnormal range.

  \<^item> \<open>fl_mono\<close>: rounding is monotone; \<open>fl_of_int\<close>: integers up to \<open>2^53\<close> are exact.
  \<^item> \<open>fl_lower\<close>, \<open>fl_upper\<close>: the relative error is at most \<open>2^-53\<close>.
\<close>

section \<open>Rounding\<close>

definition ilog2 :: "rat \<Rightarrow> int" where
  "ilog2 x =
     (let (a, b) = quotient_of x; k = bitlen a - bitlen b
      in if 2 powi k \<le> x then k else k - 1)"

definition round_even :: "rat \<Rightarrow> int" where
  "round_even x =
     (let f = \<lfloor>x\<rfloor>; d = x - of_int f
      in if d < 1/2 then f else if 1/2 < d then f + 1 else if even f then f else f + 1)"

definition fl :: "rat \<Rightarrow> rat" where
  "fl x =
     (if x = 0 then 0
      else let u = 2 powi (ilog2 \<bar>x\<bar> - 52) in of_int (round_even (x / u)) * u)"

lemma ilog2_bounds:
  assumes "0 < x"
  shows "2 powi ilog2 x \<le> x" "x < 2 powi (ilog2 x + 1)"
proof -
  obtain a b where q: "quotient_of x = (a, b)" by force
  have b: "0 < b" and x: "x = of_int a / of_int b"
    using quotient_of_denom_pos [OF q] quotient_of_div [OF q] by simp_all
  have a: "0 < a" using assms b unfolding x by (simp add: zero_less_divide_iff)
  have lo: "2 ^ nat (bitlen a - 1) \<le> a" "2 ^ nat (bitlen b - 1) \<le> b"
    and hi: "a < 2 ^ nat (bitlen a)" "b < 2 ^ nat (bitlen b)"
    using bitlen_bounds [OF a] bitlen_bounds [OF b] by simp_all
  have l: "1 \<le> bitlen a" "1 \<le> bitlen b"
    using a b bitlen_nonneg [of a] bitlen_nonneg [of b] bitlen_eq_zero_iff [of a] bitlen_eq_zero_iff [of b] by linarith+
  have p: "(2 :: rat) powi (n - 1) \<le> of_int y \<and> of_int y < (2 :: rat) powi n"
    if "2 ^ nat (n - 1) \<le> y" "y < 2 ^ nat n" "1 \<le> n" for n y
  proof -
    have "of_int (2 ^ nat (n - 1)) \<le> (of_int y :: rat)" "(of_int y :: rat) < of_int (2 ^ nat n)"
      using that by (simp_all only: of_int_le_iff of_int_less_iff)
    with that(3) show ?thesis by (simp add: power_int_def)
  qed
  define la lb where l2: "la = bitlen a" "lb = bitlen b"
  note pa = p [OF lo(1) hi(1) l(1), folded l2] and pb = p [OF lo(2) hi(2) l(2), folded l2]
  have b0: "(0 :: rat) < of_int b" using b by simp
  have "2 powi (la - 1) / 2 powi lb \<le> (of_int a / of_int b :: rat)"
    using pa pb b0 a by (intro frac_le) auto
  then have low: "2 powi (la - lb - 1) \<le> x"
    unfolding x by (simp add: power_int_diff [symmetric] algebra_simps)
  have "of_int a / of_int b < (2 powi la / 2 powi (lb - 1) :: rat)"
    using pa pb b0 a by (intro frac_less) auto
  then have high: "x < 2 powi (la - lb + 1)"
    unfolding x by (simp add: power_int_diff [symmetric] algebra_simps)
  have "ilog2 x = (if 2 powi (la - lb) \<le> x then la - lb else la - lb - 1)"
    by (simp add: ilog2_def q l2)
  with low high show "2 powi ilog2 x \<le> x" "x < 2 powi (ilog2 x + 1)"
    by (auto simp: algebra_simps)
qed

lemma ilog2_unique: "2 powi k \<le> x \<Longrightarrow> x < 2 powi (k + 1) \<Longrightarrow> ilog2 x = k"
proof -
  assume k: "2 powi k \<le> x" "x < 2 powi (k + 1)"
  have "(0 :: rat) < 2 powi k" by simp
  with k have "0 < x" by linarith
  note b = ilog2_bounds [OF this]
  have less: "m < n" if "(2 :: rat) powi m < 2 powi n" for m n
    using that power_int_increasing [of n m "2 :: rat"] by (rule_tac ccontr) simp
  have "k < ilog2 x + 1" "ilog2 x < k + 1" using less k b by (meson le_less_trans)+
  then show ?thesis by simp
qed

lemma ilog2_mono: "0 < x \<Longrightarrow> x \<le> y \<Longrightarrow> ilog2 x \<le> ilog2 y"
proof (rule ccontr)
  assume a: "0 < x" "x \<le> y" "\<not> ilog2 x \<le> ilog2 y"
  then have "(2 :: rat) powi (ilog2 y + 1) \<le> 2 powi ilog2 x"
    by (intro power_int_increasing) simp_all
  with ilog2_bounds [of x] ilog2_bounds [of y] a show False by simp
qed

lemma round_even_near: "of_int (round_even x) \<le> x + 1/2" "x - 1/2 \<le> of_int (round_even x)"
  by (auto simp: round_even_def Let_def) (linarith+)?

lemma round_even_of_int [simp]: "round_even (of_int n) = n"
  by (simp add: round_even_def)

lemma round_even_mono: "x \<le> y \<Longrightarrow> round_even x \<le> round_even y"
proof -
  assume xy: "x \<le> y"
  show ?thesis
  proof (cases "\<lfloor>x\<rfloor> = \<lfloor>y\<rfloor>")
    case True
    with xy show ?thesis by (auto simp: round_even_def Let_def)
  next
    case False
    then have "\<lfloor>x\<rfloor> + 1 \<le> \<lfloor>y\<rfloor>" using floor_mono [OF xy] by linarith
    then show ?thesis by (auto simp: round_even_def Let_def)
  qed
qed

lemma fl_zero [simp]: "fl 0 = 0"
  by (simp add: fl_def)

lemma fl_pos: "0 < x \<Longrightarrow> fl x = of_int (round_even (x / 2 powi (ilog2 x - 52))) * 2 powi (ilog2 x - 52)"
  by (simp add: fl_def Let_def)

text \<open>The significand of a positive number lies between \<open>2^52\<close> and \<open>2^53\<close>.\<close>

lemma significand:
  assumes "0 < x"
  shows "of_int (2 ^ 52) \<le> x / 2 powi (ilog2 x - 52)" "x / 2 powi (ilog2 x - 52) < of_int (2 ^ 53)"
proof -
  have u: "(0 :: rat) < 2 powi (ilog2 x - 52)" by simp
  have "(2 :: rat) powi ilog2 x = 2 ^ 52 * 2 powi (ilog2 x - 52)"
    using power_int_add [of "2 :: rat" 52 "ilog2 x - 52"] by simp
  moreover have "(2 :: rat) powi (ilog2 x + 1) = 2 ^ 53 * 2 powi (ilog2 x - 52)"
    using power_int_add [of "2 :: rat" 53 "ilog2 x - 52"] by (simp add: add.commute)
  ultimately show "of_int (2 ^ 52) \<le> x / 2 powi (ilog2 x - 52)" "x / 2 powi (ilog2 x - 52) < of_int (2 ^ 53)"
    using ilog2_bounds [OF assms] u by (simp_all add: pos_le_divide_eq pos_divide_less_eq)
qed

lemma fl_range:
  assumes "0 < x"
  shows "2 powi ilog2 x \<le> fl x" "fl x \<le> 2 powi (ilog2 x + 1)"
proof -
  let ?u = "(2 :: rat) powi (ilog2 x - 52)"
  have "2 ^ 52 \<le> round_even (x / ?u)" "round_even (x / ?u) \<le> 2 ^ 53"
    using round_even_mono [OF significand(1) [OF assms]] round_even_mono [OF less_imp_le [OF significand(2) [OF assms]]]
    by (simp_all only: round_even_of_int)
  then have "(of_int (2 ^ 52) :: rat) \<le> of_int (round_even (x / ?u))" "of_int (round_even (x / ?u)) \<le> (of_int (2 ^ 53) :: rat)"
    by (simp_all only: of_int_le_iff)
  then have "2 ^ 52 * ?u \<le> fl x" "fl x \<le> 2 ^ 53 * ?u"
    unfolding fl_pos [OF assms] by (auto intro: mult_right_mono)
  then show "2 powi ilog2 x \<le> fl x" "fl x \<le> 2 powi (ilog2 x + 1)"
    using power_int_add [of "2 :: rat" 52 "ilog2 x - 52"] power_int_add [of "2 :: rat" 53 "ilog2 x - 52"] by (simp_all add: add.commute)
qed

lemma fl_nonneg: "0 \<le> x \<Longrightarrow> 0 \<le> fl x"
  using fl_range(1) [of x] by (cases "x = 0") (auto intro: order_trans [rotated])

lemma fl_mono:
  assumes "0 \<le> x" "x \<le> y"
  shows "fl x \<le> fl y"
proof (cases "x = 0")
  case True
  then show ?thesis using fl_nonneg [of y] assms by simp
next
  case False
  with assms have x: "0 < x" and y: "0 < y" by simp_all
  show ?thesis
  proof (cases "ilog2 x = ilog2 y")
    case True
    have "x / 2 powi (ilog2 y - 52) \<le> y / 2 powi (ilog2 y - 52)"
      using assms by (intro divide_right_mono) simp_all
    from round_even_mono [OF this] show ?thesis
      unfolding fl_pos [OF x] fl_pos [OF y] True by (intro mult_right_mono) simp_all
  next
    case False
    then have "ilog2 x + 1 \<le> ilog2 y" using ilog2_mono [OF x assms(2)] by simp
    then have "(2 :: rat) powi (ilog2 x + 1) \<le> 2 powi ilog2 y" by (intro power_int_increasing) simp_all
    with fl_range(2) [OF x] fl_range(1) [OF y] show ?thesis by simp
  qed
qed

lemma fl_error:
  assumes "0 < x"
  shows "fl x \<le> x + x / 2 ^ 53" "x - x / 2 ^ 53 \<le> fl x"
proof -
  let ?u = "(2 :: rat) powi (ilog2 x - 52)"
  have u: "0 < ?u" by simp
  have "?u * 2 ^ 52 \<le> x" using significand(1) [OF assms] by (simp add: pos_le_divide_eq mult.commute)
  then have half: "?u / 2 \<le> x / 2 ^ 53" by simp
  have "x = x / ?u * ?u" by simp
  moreover have "of_int (round_even (x / ?u)) * ?u \<le> (x / ?u + 1/2) * ?u"
      "(x / ?u - 1/2) * ?u \<le> of_int (round_even (x / ?u)) * ?u"
    using round_even_near [of "x / ?u"] u by (auto intro: mult_right_mono)
  ultimately show "fl x \<le> x + x / 2 ^ 53" "x - x / 2 ^ 53 \<le> fl x"
    using half unfolding fl_pos [OF assms] by (simp_all add: algebra_simps)
qed

lemma fl_upper: "0 \<le> x \<Longrightarrow> fl x \<le> x * (1 + 1 / 2 ^ 53)"
  using fl_error(1) [of x] by (cases "x = 0") (auto simp: algebra_simps)

lemma fl_lower: "0 \<le> x \<Longrightarrow> x * (1 - 1 / 2 ^ 53) \<le> fl x"
  using fl_error(2) [of x] by (cases "x = 0") (auto simp: algebra_simps)

text \<open>Numbers with a 53-bit significand are exact.\<close>

lemma fl_of_int:
  assumes "0 \<le> n" "n \<le> 2 ^ 53"
  shows "fl (of_int n) = of_int n"
proof (cases "n = 0")
  case False
  with assms have n: "(0 :: rat) < of_int n" by simp
  show ?thesis
  proof (cases "ilog2 (of_int n) \<le> 52")
    case True
    define k where "k = nat (52 - ilog2 (of_int n))"
    have "(2 :: rat) powi (ilog2 (of_int n) - 52) = 1 / 2 ^ k"
      using True power_int_minus_divide [of "2 :: rat" "int k"] unfolding power_int_of_nat by (simp add: k_def)
    then have "fl (of_int n) = of_int (round_even (of_int (n * 2 ^ k))) * (1 / 2 ^ k)"
      unfolding fl_pos [OF n] by simp
    then show ?thesis by (simp only: round_even_of_int) simp
  next
    case False
    then have "(2 :: rat) powi 53 \<le> 2 powi ilog2 (of_int n)" by (intro power_int_increasing) simp_all
    moreover have "(of_int n :: rat) \<le> of_int (2 ^ 53)" using assms(2) by (simp only: of_int_le_iff)
    ultimately have "(of_int n :: rat) = of_int (2 ^ 53)" using ilog2_bounds(1) [OF n] by simp
    then have n': "n = 2 ^ 53" by (simp only: of_int_eq_iff)
    have "ilog2 (of_int n) = 53" by (rule ilog2_unique) (simp_all add: n')
    from fl_pos [OF n, unfolded this] show ?thesis using round_even_of_int [of "2 ^ 52"] by (simp add: n')
  qed
qed simp

lemma fl_ge_int: "0 \<le> n \<Longrightarrow> n \<le> 2 ^ 53 \<Longrightarrow> of_int n \<le> x \<Longrightarrow> of_int n \<le> fl x"
  using fl_mono [of "of_int n" x] by (simp add: fl_of_int)

lemma fl_le_int: "0 \<le> n \<Longrightarrow> n \<le> 2 ^ 53 \<Longrightarrow> 0 \<le> x \<Longrightarrow> x \<le> of_int n \<Longrightarrow> fl x \<le> of_int n"
  using fl_mono [of x "of_int n"] by (simp add: fl_of_int)

end
