(* ===== verification/Limiter.thy ===== *)
theory Limiter
  imports Prelude Aging Float64
begin

text \<open>
  The rate limiter, \<open>internal/ingest/ratelimit.go\<close>: a token bucket for every client prefix, in a
  map of bounded size. Tokens and rates are \<open>float64\<close> (theory \<open>Float64\<close>; each operation rounds
  once, products and sums are not fused).

  \<^item> \<open>NewLimiter\<close>, \<open>Allow\<close>, \<open>limiter_Sweep\<close>, \<open>limiter_Len\<close>: the code.
  \<^item> \<open>limiter_ok\<close>: the map is no larger than its maximum, token counts lie between zero and the
    burst, and the rate is the rounded quotient of the burst and a minute.
\<close>

section \<open>The code\<close>

record bucket =
  bk_tokens :: rat
  bk_last :: time

record limiter =
  lm_rate :: rat
  lm_burst :: rat
  lm_max :: int
  lm_buckets :: "(string, bucket) gomap"

text \<open>\<open>Duration.Seconds\<close>: whole seconds plus the rest, as \<open>float64\<close>.\<close>

definition Seconds :: "duration \<Rightarrow> rat" where
  "Seconds d = fl (fl (of_int (d sdiv second_ns)) + fl (fl (of_int (d smod second_ns)) / 1000000000))"

text \<open>The conversion of a \<open>float64\<close> to an integer type truncates.\<close>

definition float_to_int :: "rat \<Rightarrow> int" where
  "float_to_int x = (if x < 0 then \<lceil>x\<rceil> else \<lfloor>x\<rfloor>)"

definition NewLimiter :: "int \<Rightarrow> int \<Rightarrow> limiter" where
  "NewLimiter perMin maxKeys =
     (let perMin = (if perMin < 1 then 1 else perMin)
      in \<lparr>lm_rate = fl (fl (of_int perMin) / 60), lm_burst = fl (of_int perMin), lm_max = maxKeys, lm_buckets = []\<rparr>)"

text \<open>The refill of a tracked bucket, and the token it gives out.\<close>

definition refill :: "limiter \<Rightarrow> time \<Rightarrow> bucket \<Rightarrow> bucket" where
  "refill l now b =
     (let elapsed = Seconds (time_sub now (bk_last b)) in
      if elapsed > 0 then
        (let t = fl (bk_tokens b + fl (elapsed * lm_rate l))
         in \<lparr>bk_tokens = (if t > lm_burst l then lm_burst l else t), bk_last = now\<rparr>)
      else b)"

definition take_token :: "bucket \<Rightarrow> bool \<times> bucket" where
  "take_token b = (if bk_tokens b < 1 then (False, b) else (True, b\<lparr>bk_tokens := fl (bk_tokens b - 1)\<rparr>))"

definition Allow :: "string \<Rightarrow> time \<Rightarrow> limiter \<Rightarrow> bool \<times> limiter" where
  "Allow key now l =
     (case map_of (lm_buckets l) key of
        None \<Rightarrow>
          if gm_len (lm_buckets l) \<ge> lm_max l then (False, l)
          else (True, l\<lparr>lm_buckets :=
            AList.update key \<lparr>bk_tokens = fl (lm_burst l - 1), bk_last = now\<rparr> (lm_buckets l)\<rparr>)
      | Some b \<Rightarrow>
          (let (ok, b') = take_token (refill l now b)
           in (ok, l\<lparr>lm_buckets := AList.update key b' (lm_buckets l)\<rparr>)))"

definition idle_after :: "limiter \<Rightarrow> duration" where
  "idle_after l = float_to_int (fl (1000000000 * fl (lm_burst l / lm_rate l)))"

definition limiter_Sweep :: "time \<Rightarrow> limiter \<Rightarrow> limiter" where
  "limiter_Sweep now l =
     l\<lparr>lm_buckets := snd (range_delete (\<lambda>_ b. time_sub now (bk_last b) > idle_after l) (lm_buckets l))\<rparr>"

definition limiter_Len :: "limiter \<Rightarrow> int" where
  "limiter_Len l = gm_len (lm_buckets l)"

section \<open>Seconds\<close>

text \<open>The unit roundoff.\<close>

definition eps :: rat where "eps = 1 / 2 ^ 53"

lemma eps_range: "0 < eps" "eps < 1 / 10 ^ 15"
  by (simp_all add: eps_def)

lemma fl_below: "0 \<le> x \<Longrightarrow> fl x \<le> x * (1 + eps)"
  unfolding eps_def by (rule fl_upper)

lemma fl_above: "0 \<le> x \<Longrightarrow> x * (1 - eps) \<le> fl x"
  unfolding eps_def by (rule fl_lower)

lemma sdiv_nonneg: "0 \<le> d \<Longrightarrow> d sdiv second_ns = d div second_ns \<and> d smod second_ns = d mod second_ns"
  by (simp add: signed_divide_int_def signed_modulo_int_def sgn_if)

lemma sdiv_nonpos: "d \<le> 0 \<Longrightarrow> d sdiv second_ns = - (- d div second_ns) \<and> d smod second_ns = - (- d mod second_ns)"
  by (cases "d = 0") (simp_all add: signed_divide_int_def signed_modulo_int_def sgn_if)

lemma fl_nonpos: "x \<le> 0 \<Longrightarrow> fl x \<le> 0"
proof -
  assume x: "x \<le> 0"
  show ?thesis
  proof (cases "x = 0")
    case False
    let ?u = "(2 :: rat) powi (ilog2 \<bar>x\<bar> - 52)"
    have "x / ?u \<le> of_int 0" using x by (simp add: divide_nonpos_pos)
    from round_even_mono [OF this] have "round_even (x / ?u) \<le> 0" by (simp only: round_even_of_int)
    then show ?thesis using False by (simp add: fl_def Let_def mult_nonpos_nonneg)
  qed simp
qed

lemma Seconds_nonpos: "d \<le> 0 \<Longrightarrow> Seconds d \<le> 0"
proof -
  assume d: "d \<le> 0"
  have "d sdiv second_ns \<le> 0" "d smod second_ns \<le> 0"
    using sdiv_nonpos [OF d] d pos_imp_zdiv_nonneg_iff [of second_ns "- d"] pos_mod_sign [of second_ns "- d"] by simp_all
  then show ?thesis
    unfolding Seconds_def by (intro fl_nonpos add_nonpos_nonpos divide_nonpos_pos) simp_all
qed

lemma Seconds_bounds:
  assumes "0 \<le> d" "d \<le> max_duration"
  shows "Seconds d \<le> of_int d / 1000000000 * (1 + eps) ^ 2"
    and "of_int d / 1000000000 * (1 - eps) ^ 2 \<le> Seconds d"
proof -
  let ?s = "of_int (d div second_ns) :: rat" and ?n = "of_int (d mod second_ns) :: rat"
  have d: "of_int d = 1000000000 * ?s + ?n"
    using mult_div_mod_eq [of second_ns d] by (metis of_int_add of_int_mult of_int_numeral)
  have s: "0 \<le> ?s" "fl ?s = ?s"
    using assms by (auto simp: pos_imp_zdiv_nonneg_iff intro!: fl_of_int) linarith?
  have n: "0 \<le> ?n" "fl ?n = ?n"
    using pos_mod_sign [of second_ns d] pos_mod_bound [of second_ns d] by (auto intro!: fl_of_int)
  let ?f = "fl (?n / 1000000000)"
  have f: "?n / 1000000000 * (1 - eps) \<le> ?f" "?f \<le> ?n / 1000000000 * (1 + eps)" "0 \<le> ?f"
    using n fl_above [of "?n / 1000000000"] fl_below [of "?n / 1000000000"] fl_nonneg [of "?n / 1000000000"] by simp_all
  have S: "Seconds d = fl (?s + ?f)"
    using sdiv_nonneg [OF assms(1)] s n by (simp add: Seconds_def)
  have "?s + ?f \<le> of_int d / 1000000000 * (1 + eps)" "of_int d / 1000000000 * (1 - eps) \<le> ?s + ?f"
  proof -
    have "?s * 1 \<le> ?s * (1 + eps)" "?s * (1 - eps) \<le> ?s * 1"
      using s(1) eps_range by (intro mult_left_mono; simp)+
    with f show "?s + ?f \<le> of_int d / 1000000000 * (1 + eps)" "of_int d / 1000000000 * (1 - eps) \<le> ?s + ?f"
      unfolding d by (simp_all add: add_divide_distrib distrib_right)
  qed
  moreover have "(?s + ?f) * (1 - eps) \<le> Seconds d" "Seconds d \<le> (?s + ?f) * (1 + eps)"
    unfolding S using s f by (auto intro!: fl_above fl_below)
  moreover have "(?s + ?f) * (1 + eps) \<le> of_int d / 1000000000 * (1 + eps) * (1 + eps)"
      "of_int d / 1000000000 * (1 - eps) * (1 - eps) \<le> (?s + ?f) * (1 - eps)"
    using calculation(1,2) eps_range by (intro mult_right_mono; simp)+
  ultimately show "Seconds d \<le> of_int d / 1000000000 * (1 + eps) ^ 2"
      "of_int d / 1000000000 * (1 - eps) ^ 2 \<le> Seconds d"
    unfolding power2_eq_square mult.assoc [symmetric] by (meson order_trans)+
qed

lemma Seconds_nonneg: "0 \<le> d \<Longrightarrow> d \<le> max_duration \<Longrightarrow> 0 \<le> Seconds d"
  using Seconds_bounds(2) [of d] by (rule order_trans [rotated]) simp_all

lemma Seconds_pos_iff: "d \<le> max_duration \<Longrightarrow> 0 < Seconds d \<longleftrightarrow> 0 < d"
proof -
  assume d: "d \<le> max_duration"
  have "0 < Seconds d" if "0 < d"
  proof -
    have "0 < of_int d / 1000000000 * (1 - eps) ^ 2"
      using that eps_range by (intro mult_pos_pos) simp_all
    with Seconds_bounds(2) [of d] that d show ?thesis by linarith
  qed
  with Seconds_nonpos [of d] show ?thesis by (meson leD not_le_imp_less)
qed

lemma Seconds_ge: "0 \<le> n \<Longrightarrow> n \<le> 2 ^ 53 \<Longrightarrow> n * second_ns \<le> d \<Longrightarrow> d \<le> max_duration \<Longrightarrow> of_int n \<le> Seconds d"
proof -
  assume n: "0 \<le> n" "n \<le> 2 ^ 53" "n * second_ns \<le> d" "d \<le> max_duration"
  have d: "0 \<le> d" using n(1,3) by (meson mult_nonneg_nonneg order_trans zero_le_numeral)
  have "n \<le> d div second_ns" using n(3) by (simp add: pos_le_divide_eq zdiv_mono1 [of "n * second_ns" d second_ns, simplified])
  moreover have "0 \<le> fl (fl (of_int (d mod second_ns)) / 1000000000)"
    by (intro fl_nonneg divide_nonneg_nonneg) simp_all
  moreover have "fl (of_int (d div second_ns)) = of_int (d div second_ns)"
    using n(4) d by (intro fl_of_int) (simp_all add: pos_imp_zdiv_nonneg_iff)
  ultimately show ?thesis
    using sdiv_nonneg [OF d] n(1,2) unfolding Seconds_def
    by (intro fl_ge_int) (simp_all add: add_increasing2)
qed

section \<open>The invariant\<close>

definition limiter_ok :: "int \<Rightarrow> limiter \<Rightarrow> bool" where
  "limiter_ok p l \<longleftrightarrow>
     1 \<le> p \<and> p \<le> 2 ^ 53 \<and> lm_burst l = of_int p \<and> lm_rate l = fl (of_int p / 60) \<and>
     gm_ok (lm_buckets l) \<and> gm_len (lm_buckets l) \<le> max 0 (lm_max l) \<and>
     (\<forall>(k, b) \<in> set (lm_buckets l). 0 \<le> bk_tokens b \<and> bk_tokens b \<le> lm_burst l)"

lemma limiter_tokens:
  "limiter_ok p l \<Longrightarrow> map_of (lm_buckets l) k = Some b \<Longrightarrow> 0 \<le> bk_tokens b \<and> bk_tokens b \<le> of_int p"
  by (auto simp: limiter_ok_def gm_get_iff)

lemma NewLimiter_ok: "p \<le> 2 ^ 53 \<Longrightarrow> limiter_ok (max 1 p) (NewLimiter p maxKeys)"
  by (simp add: limiter_ok_def NewLimiter_def Let_def max_def fl_of_int)

lemma rate_bounds:
  assumes "limiter_ok p l"
  shows "of_int p / 60 * (1 - eps) \<le> lm_rate l" "lm_rate l \<le> of_int p / 60 * (1 + eps)" "0 < lm_rate l"
proof -
  have p: "(0 :: rat) < of_int p / 60" "lm_rate l = fl (of_int p / 60)" using assms by (simp_all add: limiter_ok_def)
  then show b: "of_int p / 60 * (1 - eps) \<le> lm_rate l" "lm_rate l \<le> of_int p / 60 * (1 + eps)"
    by (simp_all only: p(2) fl_above fl_below less_imp_le)
  have "0 < of_int p / 60 * (1 - eps)" using p(1) eps_range by (intro mult_pos_pos) simp_all
  with b(1) show "0 < lm_rate l" by linarith
qed

text \<open>What a bucket holds after its refill.\<close>

lemma refill_range:
  assumes "limiter_ok p l" "0 \<le> bk_tokens b" "bk_tokens b \<le> of_int p"
  shows "0 \<le> bk_tokens (refill l now b)" "bk_tokens (refill l now b) \<le> of_int p"
proof -
  have p: "lm_burst l = of_int p" "1 \<le> p" using assms(1) by (simp_all add: limiter_ok_def)
  have "0 \<le> fl (bk_tokens b + fl (Seconds (time_sub now (bk_last b)) * lm_rate l))"
    if "0 < Seconds (time_sub now (bk_last b))"
    using assms(2) rate_bounds(3) [OF assms(1)] that
    by (intro fl_nonneg add_nonneg_nonneg mult_nonneg_nonneg) simp_all
  with assms p show "0 \<le> bk_tokens (refill l now b)" "bk_tokens (refill l now b) \<le> of_int p"
    by (auto simp: refill_def Let_def)
qed

lemma take_range:
  assumes "0 \<le> bk_tokens b" "bk_tokens b \<le> of_int p" "p \<le> 2 ^ 53" "take_token b = (ok, b')"
  shows "0 \<le> bk_tokens b'" "bk_tokens b' \<le> of_int p"
proof -
  have "fl (bk_tokens b - 1) \<le> of_int p" "0 \<le> fl (bk_tokens b - 1)" if "1 \<le> bk_tokens b"
  proof -
    have "0 \<le> p" using assms(1,2) by (metis of_int_0_le_iff order_trans)
    with that assms show "fl (bk_tokens b - 1) \<le> of_int p" by (intro fl_le_int) simp_all
    show "0 \<le> fl (bk_tokens b - 1)" using that by (intro fl_nonneg) simp
  qed
  with assms show "0 \<le> bk_tokens b'" "bk_tokens b' \<le> of_int p"
    by (auto simp: take_token_def split: if_splits)
qed

lemma Allow_ok: "limiter_ok p l \<Longrightarrow> limiter_ok p (snd (Allow key now l))"
proof -
  assume ok: "limiter_ok p l"
  then have p: "1 \<le> p" "p \<le> 2 ^ 53" "lm_burst l = of_int p" by (simp_all add: limiter_ok_def)
  have upd: "limiter_ok p (l\<lparr>lm_buckets := AList.update key b (lm_buckets l)\<rparr>)"
    if "0 \<le> bk_tokens b" "bk_tokens b \<le> of_int p"
      "key \<in> dom (map_of (lm_buckets l)) \<or> gm_len (lm_buckets l) < lm_max l" for b
  proof -
    have "gm_ok (lm_buckets l)" using ok by (simp add: limiter_ok_def)
    then have "\<forall>(k, c) \<in> set (AList.update key b (lm_buckets l)). 0 \<le> bk_tokens c \<and> bk_tokens c \<le> of_int p"
      using ok that(1,2) p(3) by (auto simp: limiter_ok_def gm_get_iff [symmetric] update_conv' split: if_splits)
    with ok that(3) p(3) show ?thesis by (auto simp: limiter_ok_def length_gm_update)
  qed
  show ?thesis
  proof (cases "map_of (lm_buckets l) key")
    case None
    have "fl (lm_burst l - 1) = of_int (p - 1)" using p fl_of_int [of "p - 1"] by simp
    with upd [of "\<lparr>bk_tokens = fl (lm_burst l - 1), bk_last = now\<rparr>"] None ok p show ?thesis
      by (auto simp: Allow_def)
  next
    case (Some b)
    obtain r b' where t: "take_token (refill l now b) = (r, b')" by force
    note b = limiter_tokens [OF ok Some]
    note range = take_range [OF refill_range [OF ok conjunct1 [OF b] conjunct2 [OF b]] p(2) t]
    from upd [OF range] Some t show ?thesis by (auto simp: Allow_def)
  qed
qed

lemma limiter_Sweep_eq:
  "gm_ok (lm_buckets l) \<Longrightarrow> limiter_Sweep now l =
     l\<lparr>lm_buckets := filter (\<lambda>(k, b). \<not> time_sub now (bk_last b) > idle_after l) (lm_buckets l)\<rparr>"
  by (simp add: limiter_Sweep_def range_delete_filter)

lemma limiter_Sweep_ok: "limiter_ok p l \<Longrightarrow> limiter_ok p (limiter_Sweep now l)"
  by (auto simp: limiter_Sweep_eq limiter_ok_def intro: order_trans [OF of_nat_mono [OF length_filter_le]])

text \<open>A bucket idle long enough to be swept refills to the burst.\<close>

lemma idle_after_bounds:
  assumes ok: "limiter_ok p l"
  shows "59999999999 \<le> idle_after l" "60 * lm_rate l \<le> of_int p \<Longrightarrow> 60000000000 \<le> idle_after l"
proof -
  let ?q = "fl (lm_burst l / lm_rate l)"
  have p: "lm_burst l = of_int p" "(1 :: rat) \<le> of_int p" using ok by (simp_all add: limiter_ok_def)
  note r = rate_bounds [OF ok]
  have "60 / (1 + eps) \<le> lm_burst l / lm_rate l"
    using r p eps_range by (simp add: field_simps)
  then have "60 / (1 + eps) * (1 - eps) \<le> lm_burst l / lm_rate l * (1 - eps)"
    using eps_range by (intro mult_right_mono) simp_all
  moreover have "lm_burst l / lm_rate l * (1 - eps) \<le> ?q"
    using p r(3) by (intro fl_above) simp
  ultimately have q: "60 / (1 + eps) * (1 - eps) \<le> ?q" by simp
  have q0: "0 \<le> ?q" using p r(3) by (intro fl_nonneg) simp
  have idle: "idle_after l = \<lfloor>fl (1000000000 * ?q)\<rfloor>"
    using fl_nonneg [of "1000000000 * ?q"] q0 by (simp add: idle_after_def float_to_int_def)
  have "of_int 59999999999 \<le> 1000000000 * (60 / (1 + eps) * (1 - eps))" by (simp add: eps_def)
  also have "\<dots> \<le> 1000000000 * ?q" by (rule mult_left_mono [OF q]) simp
  finally have "of_int 59999999999 \<le> fl (1000000000 * ?q)" by (intro fl_ge_int) simp_all
  then show "59999999999 \<le> idle_after l" unfolding idle by (simp add: le_floor_iff)
  show "60000000000 \<le> idle_after l" if "60 * lm_rate l \<le> of_int p"
  proof -
    have "of_int 60 \<le> lm_burst l / lm_rate l" using that p r(3) by (simp add: field_simps)
    then have "of_int 60 \<le> ?q" by (intro fl_ge_int) simp_all
    then have "of_int 60000000000 \<le> fl (1000000000 * ?q)" by (intro fl_ge_int) simp_all
    then show ?thesis unfolding idle by (simp add: le_floor_iff)
  qed
qed

lemma full_refill:
  assumes ok: "limiter_ok p l" and b: "0 \<le> bk_tokens b"
    and idle: "idle_after l < time_sub now (bk_last b)"
  shows "refill l now b = \<lparr>bk_tokens = lm_burst l, bk_last = now\<rparr>"
proof -
  let ?d = "time_sub now (bk_last b)"
  have p: "lm_burst l = of_int p" "1 \<le> p" "p \<le> 2 ^ 53" using ok by (simp_all add: limiter_ok_def)
  note r = rate_bounds [OF ok]
  note d = idle_after_bounds [OF ok]
  have dmax: "?d \<le> max_duration" by (simp add: time_sub_def)
  have "of_int p \<le> Seconds ?d * lm_rate l"
  proof (cases "60 * lm_rate l \<le> of_int p")
    case False
    have "of_int 60 \<le> Seconds ?d" using d(1) idle dmax by (intro Seconds_ge) simp_all
    then have "60 * lm_rate l \<le> Seconds ?d * lm_rate l" using r(3) by (intro mult_right_mono) simp_all
    with False show ?thesis by simp
  next
    case True
    have "60000000001 \<le> ?d" using d(2) [OF True] idle by simp
    then have "(60000000001 :: rat) \<le> of_int ?d" by (metis of_int_le_iff of_int_numeral)
    then have "60000000001 / 1000000000 * (1 - eps) ^ 2 \<le> of_int ?d / 1000000000 * (1 - eps) ^ 2"
      by (intro mult_right_mono divide_right_mono) simp_all
    also have "\<dots> \<le> Seconds ?d" using \<open>60000000001 \<le> ?d\<close> dmax by (intro Seconds_bounds) simp_all
    finally have s: "60000000001 / 1000000000 * (1 - eps) ^ 2 \<le> Seconds ?d" .
    have "of_int p \<le> of_int p * (60000000001 / 1000000000 * (1 - eps) ^ 2 * (1 / 60 * (1 - eps)))"
      using p(2) by (simp add: eps_def power2_eq_square)
    also have "\<dots> = 60000000001 / 1000000000 * (1 - eps) ^ 2 * (of_int p / 60 * (1 - eps))" by simp
    also have "\<dots> \<le> Seconds ?d * lm_rate l"
      using s r(1,3) p(2) eps_range by (intro mult_mono) (simp_all add: order_trans [OF _ s])
    finally show ?thesis .
  qed
  then have "of_int p \<le> fl (Seconds ?d * lm_rate l)" using p by (intro fl_ge_int) simp_all
  then have "of_int p \<le> fl (bk_tokens b + fl (Seconds ?d * lm_rate l))"
    using p b by (intro fl_ge_int) simp_all
  moreover have "0 < Seconds ?d" using Seconds_pos_iff [OF dmax] d(1) idle by simp
  ultimately show ?thesis using p(1) by (simp add: refill_def Let_def)
qed

lemma time_sub_later: "idle < time_sub t u \<Longrightarrow> t \<le> now \<Longrightarrow> idle < time_sub now u"
  using time_sub_mono [of t now u] by simp

interpretation lm: aging_store "\<lambda>l k. map_option bk_last (map_of (lm_buckets l) k)" limiter_Sweep
    "\<lambda>l d. d > idle_after l" "\<lambda>l. limiter_ok p l"
  for p :: int
proof unfold_locales
  fix l now k
  assume ok: "limiter_ok p l"
  then have m: "gm_ok (lm_buckets l)" by (simp add: limiter_ok_def)
  show "map_option bk_last (map_of (lm_buckets (limiter_Sweep now l)) k) =
      (case map_option bk_last (map_of (lm_buckets l) k) of None \<Rightarrow> None
       | Some t \<Rightarrow> if idle_after l < time_sub now t then None else Some t)"
    by (simp add: limiter_Sweep_eq [OF m] map_of_filter_entries [OF m, where P = "\<lambda>_ b. \<not> time_sub now (bk_last b) > idle_after l"]
      split: option.split)
  show "limiter_ok p (limiter_Sweep now l)" by (rule limiter_Sweep_ok [OF ok])
  show "(\<lambda>d. d > idle_after (limiter_Sweep now l)) = (\<lambda>d. d > idle_after l)"
    by (simp add: limiter_Sweep_eq [OF m] idle_after_def)
qed simp

section \<open>Runs\<close>

datatype limiter_op = LAllow string time | LSweep time

fun limiter_step :: "limiter_op \<Rightarrow> limiter \<Rightarrow> limiter" where
  "limiter_step (LAllow key now) l = snd (Allow key now l)"
| "limiter_step (LSweep now) l = limiter_Sweep now l"

lemma limiter_run_ok: "limiter_ok p l \<Longrightarrow> limiter_ok p (fold limiter_step ops l)"
proof (induction ops arbitrary: l)
  case (Cons op ops)
  then show ?case by (cases op) (simp_all add: Allow_ok limiter_Sweep_ok)
qed simp

lemma limiter_run_max: "lm_max (fold limiter_step ops l) = lm_max l"
proof (induction ops arbitrary: l)
  case (Cons op ops)
  then show ?case
    by (cases op) (auto simp: Allow_def limiter_Sweep_def Let_def split: option.split prod.split)
qed simp

text \<open>The requests for one key in a sequence of requests, and how many of them were let through.\<close>

fun allowed :: "string \<Rightarrow> (string \<times> time) list \<Rightarrow> limiter \<Rightarrow> nat" where
  "allowed k [] l = 0"
| "allowed k ((key, now) # rs) l =
     (let (ok, l') = Allow key now l in (if key = k \<and> ok then 1 else 0) + allowed k rs l')"

lemma Allow_other: "key \<noteq> k \<Longrightarrow> map_of (lm_buckets (snd (Allow key now l))) k = map_of (lm_buckets l) k"
  by (auto simp: Allow_def Let_def update_conv' split: option.split prod.split)

lemma Allow_frame: "lm_rate (snd (Allow key now l)) = lm_rate l" "lm_burst (snd (Allow key now l)) = lm_burst l"
    "lm_max (snd (Allow key now l)) = lm_max l"
  by (auto simp: Allow_def Let_def split: option.split prod.split)

text \<open>One request adds at most the elapsed time at the rate, and two roundings of the burst.\<close>

abbreviation slack :: rat where "slack \<equiv> (1 + eps) ^ 5"

lemma refill_gain:
  assumes ok: "limiter_ok p l" and b: "0 \<le> bk_tokens b" "bk_tokens b \<le> of_int p"
  shows "bk_tokens (refill l now b) \<le>
      bk_tokens b + of_int (max 0 (time_sub now (bk_last b))) / 1000000000 * (of_int p / 60) * slack + eps * of_int p"
    and "bk_last b \<le> bk_last (refill l now b)"
    and "bk_last (refill l now b) = bk_last b + max 0 (now - bk_last b)"
proof -
  let ?d = "time_sub now (bk_last b)"
  have d: "?d \<le> max_duration" by (simp add: time_sub_def)
  have p: "lm_burst l = of_int p" "(1 :: rat) \<le> of_int p" using ok by (simp_all add: limiter_ok_def)
  have pe: "0 \<le> eps * of_int p" using p eps_range by simp
  have sgn: "0 < ?d \<longleftrightarrow> 0 < now - bk_last b" by (auto simp: time_sub_def)
  show "bk_last (refill l now b) = bk_last b + max 0 (now - bk_last b)"
    using Seconds_pos_iff [OF d] sgn by (auto simp: refill_def Let_def)
  then show "bk_last b \<le> bk_last (refill l now b)" by simp
  show "bk_tokens (refill l now b) \<le>
      bk_tokens b + of_int (max 0 ?d) / 1000000000 * (of_int p / 60) * slack + eps * of_int p"
  proof (cases "0 < ?d")
    case False
    then have "refill l now b = b" using Seconds_pos_iff [OF d] by (simp add: refill_def Let_def)
    with False pe show ?thesis by simp
  next
    case True
    let ?s = "Seconds ?d"
    have s: "0 < ?s" "?s \<le> of_int ?d / 1000000000 * (1 + eps) ^ 2"
      using Seconds_pos_iff [OF d] Seconds_bounds(1) [of ?d] True d by simp_all
    note r = rate_bounds [OF ok]
    have pow5: "x * e ^ 4 * e = x * e ^ 5" for x e :: rat by (simp add: numeral_eq_Suc)
    have pow: "(x * e ^ 2) * (y * e) = x * y * e ^ 3" for x y e :: rat by (simp add: numeral_eq_Suc)
    have "?s * lm_rate l \<le> (of_int ?d / 1000000000 * (1 + eps) ^ 2) * (of_int p / 60 * (1 + eps))"
      using s r by (intro mult_mono) simp_all
    then have sr: "?s * lm_rate l \<le> of_int ?d / 1000000000 * (of_int p / 60) * (1 + eps) ^ 3"
      unfolding pow .
    have "fl (?s * lm_rate l) \<le> ?s * lm_rate l * (1 + eps)" using s r by (intro fl_below) simp
    also have "\<dots> \<le> of_int ?d / 1000000000 * (of_int p / 60) * (1 + eps) ^ 3 * (1 + eps)"
      using sr eps_range by (intro mult_right_mono) simp_all
    finally have g: "fl (?s * lm_rate l) \<le> of_int ?d / 1000000000 * (of_int p / 60) * (1 + eps) ^ 4"
      by (simp add: numeral_eq_Suc mult.assoc)
    have g0: "0 \<le> fl (?s * lm_rate l)" using s r by (intro fl_nonneg) simp
    have "fl (bk_tokens b + fl (?s * lm_rate l)) \<le> (bk_tokens b + fl (?s * lm_rate l)) * (1 + eps)"
      using b g0 by (intro fl_below) simp
    also have "\<dots> = bk_tokens b + eps * bk_tokens b + fl (?s * lm_rate l) * (1 + eps)" by (simp add: algebra_simps)
    also have "\<dots> \<le> bk_tokens b + eps * of_int p + of_int ?d / 1000000000 * (of_int p / 60) * (1 + eps) ^ 4 * (1 + eps)"
      using b g eps_range by (intro add_mono mult_left_mono mult_right_mono) simp_all
    also have "of_int ?d / 1000000000 * (of_int p / 60) * (1 + eps) ^ 4 * (1 + eps) =
        of_int ?d / 1000000000 * (of_int p / 60) * slack"
      using pow5 .
    finally have "fl (bk_tokens b + fl (?s * lm_rate l)) \<le>
        bk_tokens b + of_int ?d / 1000000000 * (of_int p / 60) * slack + eps * of_int p" by linarith
    moreover have "bk_tokens (refill l now b) \<le> fl (bk_tokens b + fl (?s * lm_rate l))"
      using s by (simp add: refill_def Let_def)
    ultimately show ?thesis using True by simp
  qed
qed

lemma take_loss:
  assumes "0 \<le> bk_tokens b" "bk_tokens b \<le> of_int p" "take_token b = (ok, b')"
  shows "bk_tokens b' + (if ok then 1 else 0) \<le> bk_tokens b + eps * of_int p" "bk_last b' = bk_last b"
proof -
  have "0 \<le> eps * of_int p" using assms(1,2) eps_range by simp
  moreover have "fl (bk_tokens b - 1) \<le> bk_tokens b - 1 + eps * of_int p" if "1 \<le> bk_tokens b"
  proof -
    have "fl (bk_tokens b - 1) \<le> (bk_tokens b - 1) * (1 + eps)" using that by (intro fl_below) simp
    also have "\<dots> = bk_tokens b - 1 + eps * (bk_tokens b - 1)" by (simp add: algebra_simps)
    also have "\<dots> \<le> bk_tokens b - 1 + eps * of_int p" using assms(2) eps_range by simp
    finally show ?thesis .
  qed
  ultimately show "bk_tokens b' + (if ok then 1 else 0) \<le> bk_tokens b + eps * of_int p"
    using assms by (auto simp: take_token_def split: if_splits)
  show "bk_last b' = bk_last b" using assms(3) by (auto simp: take_token_def split: if_splits)
qed

definition requests :: "string \<Rightarrow> (string \<times> time) list \<Rightarrow> rat" where
  "requests k rs = of_nat (length (filter (\<lambda>(key, _). key = k) rs))"

abbreviation per_ns :: "int \<Rightarrow> rat" where "per_ns p \<equiv> of_int p / 60 * slack / 1000000000"

lemma per_ns_nonneg: "1 \<le> p \<Longrightarrow> 0 \<le> per_ns p"
  using eps_range by simp

lemma request_gain:
  assumes ok: "limiter_ok p l" and b: "map_of (lm_buckets l) k = Some b" and T: "now \<le> T"
    and a: "Allow k now l = (yes, l')"
  obtains b' where "map_of (lm_buckets l') k = Some b'"
    "bk_tokens b' + per_ns p * of_int (max 0 (T - bk_last b')) + (if yes then 1 else 0) \<le>
       bk_tokens b + per_ns p * of_int (max 0 (T - bk_last b)) + 2 * eps * of_int p"
    "bk_tokens b' + (if yes then 1 else 0) \<le> of_int p + eps * of_int p" "now \<le> bk_last b'"
proof -
  have p: "1 \<le> p" using ok by (simp add: limiter_ok_def)
  note tok = limiter_tokens [OF ok b]
  let ?b = "refill l now b"
  obtain y b' where t: "take_token ?b = (y, b')" by force
  have l': "y = yes" "map_of (lm_buckets l') k = Some b'"
    using a b t by (auto simp: Allow_def update_conv')
  note range = refill_range [OF ok conjunct1 [OF tok] conjunct2 [OF tok], of now]
  note loss = take_loss [OF range t]
  note gain = refill_gain [OF ok conjunct1 [OF tok] conjunct2 [OF tok], of now]
  have last: "bk_last b' = bk_last b + max 0 (now - bk_last b)" using loss(2) gain(3) by simp
  have "max 0 (time_sub now (bk_last b)) + max 0 (T - bk_last b') \<le> max 0 (T - bk_last b)"
    using T by (auto simp: last time_sub_def)
  then have "of_int (max 0 (time_sub now (bk_last b))) + of_int (max 0 (T - bk_last b')) \<le> (of_int (max 0 (T - bk_last b)) :: rat)"
    by (simp only: of_int_add [symmetric] of_int_le_iff)
  then have "per_ns p * (of_int (max 0 (time_sub now (bk_last b))) + of_int (max 0 (T - bk_last b'))) \<le>
      per_ns p * of_int (max 0 (T - bk_last b))"
    using per_ns_nonneg [OF p] by (intro mult_left_mono)
  moreover have "bk_tokens ?b \<le> bk_tokens b + per_ns p * of_int (max 0 (time_sub now (bk_last b))) + eps * of_int p"
    using gain(1) by (simp add: mult_ac)
  ultimately have "bk_tokens b' + per_ns p * of_int (max 0 (T - bk_last b')) + (if yes then 1 else 0) \<le>
       bk_tokens b + per_ns p * of_int (max 0 (T - bk_last b)) + 2 * eps * of_int p"
    using loss(1) unfolding l'(1) distrib_left by linarith
  moreover have "bk_tokens b' + (if yes then 1 else 0) \<le> of_int p + eps * of_int p"
    using loss(1) range(2) unfolding l'(1) by linarith
  ultimately show ?thesis using that [OF l'(2)] last by simp
qed

lemma allowed_tracked:
  assumes "limiter_ok p l" and "map_of (lm_buckets l) k = Some b" and "\<forall>(_, t) \<in> set rs. t \<le> T"
  shows "of_nat (allowed k rs l) \<le>
    bk_tokens b + per_ns p * of_int (max 0 (T - bk_last b)) + 2 * eps * of_int p * requests k rs"
  using assms
proof (induction rs arbitrary: l b)
  case Nil
  have "0 \<le> bk_tokens b" "0 \<le> per_ns p * of_int (max 0 (T - bk_last b))"
    using limiter_tokens [OF Nil(1,2)] Nil(1) eps_range by (simp_all add: limiter_ok_def)
  then show ?case by (simp add: requests_def)
next
  case (Cons r rs)
  obtain key now where r: "r = (key, now)" by (cases r)
  obtain yes l' where a: "Allow key now l = (yes, l')" by force
  have ok': "limiter_ok p l'" using Allow_ok [OF Cons.prems(1), of key now] a by simp
  have rs: "\<forall>(_, t) \<in> set rs. t \<le> T" "now \<le> T" using Cons.prems(3) r by auto
  show ?case
  proof (cases "key = k")
    case True
    obtain b' where b': "map_of (lm_buckets l') k = Some b'"
        "bk_tokens b' + per_ns p * of_int (max 0 (T - bk_last b')) + (if yes then 1 else 0) \<le>
           bk_tokens b + per_ns p * of_int (max 0 (T - bk_last b)) + 2 * eps * of_int p"
      using request_gain [OF Cons.prems(1,2) rs(2) a [unfolded True]] by metis
    have n: "requests k (r # rs) = requests k rs + 1" using True r by (simp add: requests_def)
    have "of_nat (allowed k (r # rs) l) = (if yes then 1 else 0) + (of_nat (allowed k rs l') :: rat)"
      using True r a by simp
    with Cons.IH [OF ok' b'(1) rs(1)] b'(2) show ?thesis unfolding n distrib_left by linarith
  next
    case False
    have "map_of (lm_buckets l') k = Some b"
      using Allow_other [OF False, of now l] a Cons.prems(2) by simp
    from Cons.IH [OF ok' this rs(1)] show ?thesis using False r a by (simp add: requests_def)
  qed
qed

lemma allowed_any:
  assumes "limiter_ok p l" and "\<forall>(_, t) \<in> set rs. t0 \<le> t \<and> t \<le> T" and "t0 \<le> T"
  shows "of_nat (allowed k rs l) \<le>
    of_int p + per_ns p * of_int (T - t0) + 2 * eps * of_int p * requests k rs"
  using assms(1,2)
proof (induction rs arbitrary: l)
  case Nil
  then show ?case using assms(3) eps_range by (simp add: requests_def limiter_ok_def)
next
  case (Cons r rs)
  obtain key now where r: "r = (key, now)" by (cases r)
  obtain yes l' where a: "Allow key now l = (yes, l')" by force
  have ok': "limiter_ok p l'" using Allow_ok [OF Cons.prems(1), of key now] a by simp
  have p: "1 \<le> p" "p \<le> 2 ^ 53" "lm_burst l = of_int p" using Cons.prems(1) by (simp_all add: limiter_ok_def)
  have rs: "\<forall>(_, t) \<in> set rs. t0 \<le> t \<and> t \<le> T" "\<forall>(_, t) \<in> set rs. t \<le> T" "now \<le> T" "t0 \<le> now"
    using Cons.prems(2) r by auto
  have e: "0 \<le> eps * of_int p" using p eps_range by simp
  show ?case
  proof (cases "key = k")
    case False
    from Cons.IH [OF ok' rs(1)] show ?thesis using False r a by (simp add: requests_def)
  next
    case True
    have n: "requests k (r # rs) = requests k rs + 1" using True r by (simp add: requests_def)
    have sum: "of_nat (allowed k (r # rs) l) = (if yes then 1 else 0) + (of_nat (allowed k rs l') :: rat)"
      using True r a by simp
    have tracked: "of_nat (allowed k (r # rs) l) \<le>
        of_int p + per_ns p * of_int (T - t0) + 2 * eps * of_int p * requests k (r # rs)"
      if "map_of (lm_buckets l') k = Some b'" "bk_tokens b' + (if yes then 1 else 0) \<le> of_int p + eps * of_int p"
        "now \<le> bk_last b'" for b'
    proof -
      have "of_int (max 0 (T - bk_last b')) \<le> (of_int (T - t0) :: rat)"
        using that(3) rs(3,4) by simp
      then have "per_ns p * of_int (max 0 (T - bk_last b')) \<le> per_ns p * of_int (T - t0)"
        using per_ns_nonneg [OF p(1)] by (rule mult_left_mono)
      with allowed_tracked [OF ok' that(1) rs(2)] that(2) e show ?thesis
        unfolding sum n distrib_left by linarith
    qed
    show ?thesis
    proof (cases "map_of (lm_buckets l) k")
      case (Some b)
      from request_gain [OF Cons.prems(1) Some rs(3) a [unfolded True]] tracked show ?thesis by metis
    next
      case None
      show ?thesis
      proof (cases "gm_len (lm_buckets l) \<ge> lm_max l")
        case full: True
        then have "yes = False" "l' = l" using a True None by (auto simp: Allow_def)
        with Cons.IH [OF ok' rs(1)] e show ?thesis unfolding sum n distrib_left by simp
      next
        case False
        have "fl (lm_burst l - 1) = of_int (p - 1)" using p fl_of_int [of "p - 1"] by simp
        then have "map_of (lm_buckets l') k = Some \<lparr>bk_tokens = of_int (p - 1), bk_last = now\<rparr>"
          using a True None False by (auto simp: Allow_def update_conv')
        from tracked [OF this] e show ?thesis by simp
      qed
    qed
  qed
qed

section \<open>Properties\<close>

text \<open>
  C28: Nobody gets past the rate limit. Whatever requests and sweeps came before, and however the
  requests of other clients are interleaved, a client prefix that makes \<open>n\<close> requests within an
  interval has at most \<open>perMin\<close> (the burst) plus \<open>perMin\<close> per elapsed minute let through; floating
  point rounding adds at most one part in \<open>10^15\<close> of the rate and \<open>2 perMin / 2^53\<close> a request. And
  at most \<open>maxKeys\<close> prefixes are ever tracked.
\<close>

theorem limiter_rate_bound:
  assumes "1 \<le> perMin" "perMin \<le> 2 ^ 53" and "l = fold limiter_step ops (NewLimiter perMin maxKeys)"
    and "\<forall>(_, t) \<in> set rs. t0 \<le> t \<and> t \<le> T" and "t0 \<le> T"
  shows "of_nat (allowed k rs l) \<le>
      of_int perMin + of_int perMin / 60 * (1 + eps) ^ 5 / 1000000000 * of_int (T - t0) +
        2 * eps * of_int perMin * requests k rs \<and>
    limiter_Len l \<le> max 0 maxKeys"
proof -
  have ok: "limiter_ok perMin l"
    using limiter_run_ok [OF NewLimiter_ok [OF assms(2)]] assms(1,3) by (simp add: max_def)
  moreover have "lm_max l = maxKeys" by (simp add: assms(3) limiter_run_max NewLimiter_def Let_def)
  ultimately have "limiter_Len l \<le> max 0 maxKeys" by (simp add: limiter_Len_def limiter_ok_def)
  with allowed_any [OF ok assms(4,5)] show ?thesis by blast
qed

theorem limiter_rate_bound_witness:
  "of_nat (allowed ''a'' [(''a'', 5), (''b'', 6), (''a'', 7), (''a'', 8)] (NewLimiter 2 100)) \<le>
     (2 + 2 / 60 * (1 + eps) ^ 5 / 1000000000 * 3 + 2 * eps * 2 * 3 :: rat)"
  using conjunct1 [OF limiter_rate_bound [of 2 "NewLimiter 2 100" "[]" 100 "[(''a'', 5), (''b'', 6), (''a'', 7), (''a'', 8)]" 5 8 "''a''"]]
  by (simp add: requests_def)

text \<open>
  C29: A sweep is invisible to the clients it forgets. For every tracked prefix, in every reachable
  state, a request at or after the sweep is answered the same and leaves the same bucket whether
  the sweep ran or not: an idle bucket has refilled to exactly the burst, in floating point too.
\<close>

theorem sweep_is_invisible:
  assumes "1 \<le> perMin" "perMin \<le> 2 ^ 53" and "l = fold limiter_step ops (NewLimiter perMin maxKeys)"
    and "key \<in> dom (map_of (lm_buckets l))" and "t \<le> now"
  shows "fst (Allow key now (limiter_Sweep t l)) = fst (Allow key now l) \<and>
    map_of (lm_buckets (snd (Allow key now (limiter_Sweep t l)))) key = map_of (lm_buckets (snd (Allow key now l))) key"
proof -
  have ok: "limiter_ok perMin l"
    using limiter_run_ok [OF NewLimiter_ok [OF assms(2)]] assms(1,3) by (simp add: max_def)
  then have m: "gm_ok (lm_buckets l)" and p: "lm_burst l = of_int perMin" "1 \<le> perMin" by (simp_all add: limiter_ok_def)
  let ?P = "\<lambda>(k, b). \<not> time_sub t (bk_last b) > idle_after l"
  note swept = limiter_Sweep_eq [OF m, of t]
  obtain b where b: "map_of (lm_buckets l) key = Some b" using assms(4) by blast
  note filtered = map_of_filter_entries [OF m, where P = "\<lambda>_ b. \<not> time_sub t (bk_last b) > idle_after l"]
  show ?thesis
  proof (cases "time_sub t (bk_last b) > idle_after l")
    case False
    then have "map_of (lm_buckets (limiter_Sweep t l)) key = Some b" by (simp add: swept filtered b)
    moreover have "refill (limiter_Sweep t l) now b = refill l now b" by (simp add: swept refill_def Let_def)
    ultimately show ?thesis using b by (simp add: Allow_def update_conv' split: prod.split)
  next
    case True
    then have none: "map_of (lm_buckets (limiter_Sweep t l)) key = None" by (simp add: swept filtered b)
    have "(key, b) \<in> set (lm_buckets l)" using b by (rule map_of_SomeD)
    then have "length (filter ?P (lm_buckets l)) < length (lm_buckets l)"
      using True by (intro length_filter_less [of "(key, b)"]) simp_all
    moreover have "gm_len (lm_buckets l) \<le> max 0 (lm_max l)" using ok by (simp add: limiter_ok_def)
    ultimately have "gm_len (lm_buckets (limiter_Sweep t l)) < lm_max (limiter_Sweep t l)"
      by (simp add: swept)
    moreover have "refill l now b = \<lparr>bk_tokens = lm_burst l, bk_last = now\<rparr>"
      by (rule full_refill [OF ok conjunct1 [OF limiter_tokens [OF ok b]] time_sub_later [OF True assms(5)]])
    moreover have "lm_burst (limiter_Sweep t l) = lm_burst l" by (simp add: swept)
    ultimately show ?thesis
      using b none p by (simp add: Allow_def take_token_def update_conv')
  qed
qed

theorem sweep_is_invisible_witness:
  "fst (Allow ''a'' 70000000000 (limiter_Sweep 65000000000 (fold limiter_step [LAllow ''a'' 0] (NewLimiter 1 9)))) =
   fst (Allow ''a'' 70000000000 (fold limiter_step [LAllow ''a'' 0] (NewLimiter 1 9)))"
  by (rule conjunct1 [OF sweep_is_invisible [of 1 _ "[LAllow ''a'' 0]" 9]])
    (simp_all add: NewLimiter_def Allow_def)

end
