(* ===== verification/GoStrconv.thy ===== *)
theory GoStrconv
  imports GoStrings Float64
begin

text \<open>
  The parts of the packages \<open>strconv\<close> and \<open>time\<close> that read and print numbers: \<open>ParseUint\<close>,
  \<open>ParseInt\<close>, \<open>Atoi\<close>, \<open>ParseBool\<close>, \<open>FormatUint\<close> and \<open>time.ParseDuration\<close>. A parse error is
  \<open>None\<close>. Lemmas: printing and parsing are inverse (\<open>ParseUint_FormatUint\<close>, \<open>Atoi_FormatUint\<close>), and
  the digits of a number determine it (\<open>print_digits_inj\<close>).
\<close>

section \<open>Digits\<close>

definition is_digit :: "char \<Rightarrow> bool" where
  "is_digit c \<longleftrightarrow> 48 \<le> byte c \<and> byte c \<le> 57"

definition digit_val :: "char \<Rightarrow> int" where
  "digit_val c = byte c - 48"

definition digit_char :: "nat \<Rightarrow> char" where
  "digit_char d = (if d < 10 then char_of (48 + d) else char_of (87 + d))"

text \<open>The digits of a number to a base, most significant first, without leading zeros.\<close>

fun print_digits :: "nat \<Rightarrow> nat \<Rightarrow> string" where
  "print_digits base n =
     (if base \<le> 1 \<or> n < base then [digit_char n]
      else print_digits base (n div base) @ [digit_char (n mod base)])"

declare print_digits.simps [simp del]

definition FormatUint :: "nat \<Rightarrow> string" where
  "FormatUint n = print_digits 10 n"

text \<open>\<open>strconv.ParseUint(s, 10, bits)\<close>.\<close>

definition decimal :: "string \<Rightarrow> int" where
  "decimal s = fold (\<lambda>c n. n * 10 + digit_val c) s 0"

definition ParseUint :: "nat \<Rightarrow> string \<Rightarrow> int option" where
  "ParseUint bits s =
     (if s = [] \<or> \<not> list_all is_digit s then None
      else if 2 ^ bits \<le> decimal s then None
      else Some (decimal s))"

text \<open>\<open>strconv.ParseInt(s, 10, 64)\<close>, which \<open>Atoi\<close> agrees with on a 64-bit platform.\<close>

definition ParseInt :: "string \<Rightarrow> int option" where
  "ParseInt s =
     (let (neg, digits) = (case s of
            c # t \<Rightarrow> if c = CHR ''-'' then (True, t) else if c = CHR ''+'' then (False, t) else (False, s)
          | [] \<Rightarrow> (False, s))
      in case ParseUint 64 digits of
           None \<Rightarrow> None
         | Some n \<Rightarrow>
             if \<not> neg \<and> 2 ^ 63 \<le> n \<or> neg \<and> 2 ^ 63 < n then None
             else Some (if neg then - n else n))"

definition Atoi :: "string \<Rightarrow> int option" where
  "Atoi s = ParseInt s"

definition ParseBool :: "string \<Rightarrow> bool option" where
  "ParseBool s =
     (if s \<in> {''1'', ''t'', ''T'', ''true'', ''TRUE'', ''True''} then Some True
      else if s \<in> {''0'', ''f'', ''F'', ''false'', ''FALSE'', ''False''} then Some False
      else None)"

section \<open>Durations\<close>

text \<open>\<open>leadingInt\<close>: the digits at the front, or an error when they exceed \<open>2^63\<close>.\<close>

fun leading_int :: "int \<Rightarrow> string \<Rightarrow> (int \<times> string) option" where
  "leading_int x [] = Some (x, [])"
| "leading_int x (c # s) =
     (if \<not> is_digit c then Some (x, c # s)
      else if 2 ^ 63 div 10 < x then None
      else if 2 ^ 63 < x * 10 + digit_val c then None
      else leading_int (x * 10 + digit_val c) s)"

text \<open>\<open>leadingFraction\<close>: digits past the precision of an \<open>int64\<close> are read and dropped.\<close>

fun leading_fraction :: "int \<Rightarrow> rat \<Rightarrow> bool \<Rightarrow> string \<Rightarrow> int \<times> rat \<times> string" where
  "leading_fraction x scale over [] = (x, scale, [])"
| "leading_fraction x scale over (c # s) =
     (if \<not> is_digit c then (x, scale, c # s)
      else if over then leading_fraction x scale True s
      else if (2 ^ 63 - 1) div 10 < x then leading_fraction x scale True s
      else if 2 ^ 63 < x * 10 + digit_val c then leading_fraction x scale True s
      else leading_fraction (x * 10 + digit_val c) (fl (scale * 10)) False s)"

definition unit_ns :: "string \<Rightarrow> int option" where
  "unit_ns u =
     (if u = ''ns'' then Some 1
      else if u \<in> {''us'', [CHR 0xC2, CHR 0xB5, CHR ''s''], [CHR 0xCE, CHR 0xBC, CHR ''s'']} then Some 1000
      else if u = ''ms'' then Some 1000000
      else if u = ''s'' then Some second_ns
      else if u = ''m'' then Some minute_ns
      else if u = ''h'' then Some hour_ns
      else None)"

definition unit_byte :: "char \<Rightarrow> bool" where
  "unit_byte c \<longleftrightarrow> \<not> (c = CHR ''.'' \<or> is_digit c)"

text \<open>One number with its unit: what it adds, and what is left of the string.\<close>

definition duration_term :: "string \<Rightarrow> (int \<times> string) option" where
  "duration_term s =
     (if s = [] \<or> \<not> (hd s = CHR ''.'' \<or> is_digit (hd s)) then None
      else
        (case leading_int 0 s of
           None \<Rightarrow> None
         | Some (v, s1) \<Rightarrow>
             (let (f, scale, s2) =
                (if s1 \<noteq> [] \<and> hd s1 = CHR ''.'' then leading_fraction 0 1 False (tl s1) else (0, 1, s1));
                 pre = length s1 \<noteq> length s;
                 post = s1 \<noteq> [] \<and> hd s1 = CHR ''.'' \<and> length s2 \<noteq> length (tl s1);
                 u = takeWhile unit_byte s2
              in if \<not> pre \<and> \<not> post \<or> u = [] then None
                 else
                   (case unit_ns u of
                      None \<Rightarrow> None
                    | Some unit \<Rightarrow>
                        if 2 ^ 63 div unit < v then None
                        else
                          (let v = v * unit + (if 0 < f then \<lfloor>fl (fl (of_int f) * fl (of_int unit / scale))\<rfloor> else 0)
                           in if 2 ^ 63 < v then None else Some (v, dropWhile unit_byte s2))))))"

lemma leading_int_length: "leading_int x s = Some (v, t) \<Longrightarrow> length t \<le> length s"
  by (induction x s rule: leading_int.induct) (auto split: if_splits)

lemma leading_fraction_length: "leading_fraction x scale over s = (f, sc, t) \<Longrightarrow> length t \<le> length s"
  by (induction x scale over s rule: leading_fraction.induct) (auto simp: Let_def split: if_splits)

lemma duration_term_length: "duration_term s = Some (v, t) \<Longrightarrow> length t < length s"
proof -
  assume a: "duration_term s = Some (v, t)"
  then obtain v1 s1 f scale s2 where 1: "leading_int 0 s = Some (v1, s1)"
    and 2: "(if s1 \<noteq> [] \<and> hd s1 = CHR ''.'' then leading_fraction 0 1 False (tl s1) else (0, 1, s1)) = (f, scale, s2)"
    and 3: "takeWhile unit_byte s2 \<noteq> []" "t = dropWhile unit_byte s2"
    by (auto simp: duration_term_def Let_def split: if_splits option.splits prod.splits)
  have "length s2 \<le> length s1" using 2 leading_fraction_length [of 0 1 False "tl s1" f scale s2] by (auto split: if_splits)
  moreover have "length t < length s2"
    using 3 by (metis append.left_neutral le_neq_implies_less length_append length_dropWhile_le length_greater_0_conv
        less_add_same_cancel2 takeWhile_dropWhile_id)
  ultimately show ?thesis using leading_int_length [OF 1] by simp
qed

text \<open>The loop of \<open>time.ParseDuration\<close> after the sign.\<close>

function duration_loop :: "int \<Rightarrow> string \<Rightarrow> int option" where
  "duration_loop d s =
     (if s = [] then Some d
      else
        (case duration_term s of
           None \<Rightarrow> None
         | Some (v, t) \<Rightarrow> if 2 ^ 63 < d + v then None else duration_loop (d + v) t))"
  by pat_completeness auto
termination
  by (relation "measure (length \<circ> snd)") (auto simp: duration_term_length)

declare duration_loop.simps [simp del]

definition ParseDuration :: "string \<Rightarrow> duration option" where
  "ParseDuration s =
     (let (neg, t) = (case s of
            c # t \<Rightarrow> if c = CHR ''-'' then (True, t) else if c = CHR ''+'' then (False, t) else (False, s)
          | [] \<Rightarrow> (False, s))
      in if t = ''0'' then Some 0
         else if t = [] then None
         else
           (case duration_loop 0 t of
              None \<Rightarrow> None
            | Some d \<Rightarrow>
                if neg then Some (- d)
                else if 2 ^ 63 - 1 < d then None
                else Some d))"

section \<open>Printing and parsing\<close>

lemma digit_char_byte: "d < 10 \<Longrightarrow> byte (digit_char d) = 48 + int d"
proof -
  assume d: "d < 10"
  have "of_char (char_of (48 + d) :: char) = (48 + d) mod (256 :: nat)" by (rule of_char_of)
  then have "(of_char (digit_char d) :: nat) = 48 + d" using d by (simp add: digit_char_def)
  then show ?thesis by (metis of_nat_add of_nat_numeral of_nat_of_char)
qed

lemma digit_char_digit: "d < 10 \<Longrightarrow> is_digit (digit_char d)" "d < 10 \<Longrightarrow> digit_val (digit_char d) = int d"
  using digit_char_byte [of d] by (simp_all add: is_digit_def digit_val_def)

lemma FormatUint_rec:
  "FormatUint n = (if n < 10 then [digit_char n] else FormatUint (n div 10) @ [digit_char (n mod 10)])"
  unfolding FormatUint_def by (simp add: print_digits.simps [of 10 n])

lemma decimal_snoc: "decimal (s @ [c]) = decimal s * 10 + digit_val c"
  by (simp add: decimal_def)

lemma FormatUint_shape: "FormatUint n \<noteq> [] \<and> list_all is_digit (FormatUint n) \<and> decimal (FormatUint n) = int n"
proof (induction n rule: less_induct)
  case (less n)
  show ?case
  proof (cases "n < 10")
    case True
    then show ?thesis by (simp add: FormatUint_rec [of n] digit_char_digit decimal_def)
  next
    case False
    then have rec: "FormatUint n = FormatUint (n div 10) @ [digit_char (n mod 10)]"
      using FormatUint_rec [of n] by simp
    have "n mod 10 < 10" by simp
    note d = digit_char_digit [OF this]
    have "int (n div 10) * 10 + int (n mod 10) = int n"
      using div_mult_mod_eq [of n 10] by linarith
    moreover have "n div 10 < n" using False by simp
    note IH = less.IH [OF this]
    ultimately have "decimal (FormatUint n) = int n"
      unfolding rec decimal_snoc d(2) conjunct2 [OF conjunct2 [OF IH]] by simp
    moreover have "FormatUint n \<noteq> [] \<and> list_all is_digit (FormatUint n)"
      unfolding rec using IH d(1) by simp
    ultimately show ?thesis by blast
  qed
qed

lemma ParseUint_FormatUint: "int n < 2 ^ bits \<Longrightarrow> ParseUint bits (FormatUint n) = Some (int n)"
  using FormatUint_shape [of n] by (simp add: ParseUint_def)

lemma FormatUint_inj: "FormatUint m = FormatUint n \<Longrightarrow> m = n"
  by (metis FormatUint_shape of_nat_eq_iff)

lemma Atoi_FormatUint:
  assumes "int n < 2 ^ 63"
  shows "Atoi (FormatUint n) = Some (int n)"
proof -
  obtain c t where ct: "FormatUint n = c # t" using FormatUint_shape [of n] by (cases "FormatUint n") auto
  then have "is_digit c" using FormatUint_shape [of n] by simp
  then have "c \<noteq> CHR ''-''" "c \<noteq> CHR ''+''" by (auto simp: is_digit_def)
  with assms ParseUint_FormatUint [of n 64] show ?thesis by (simp add: Atoi_def ParseInt_def ct)
qed

lemma Atoi_neg_FormatUint:
  assumes "int n \<le> 2 ^ 63"
  shows "Atoi (CHR ''-'' # FormatUint n) = Some (- int n)"
  using assms ParseUint_FormatUint [of n 64] by (simp add: Atoi_def ParseInt_def)

lemma ParseUint_range: "ParseUint bits s = Some n \<Longrightarrow> 0 \<le> n \<and> n < 2 ^ bits"
proof -
  assume a: "ParseUint bits s = Some n"
  have "0 \<le> fold (\<lambda>c n. n * 10 + digit_val c) t m" if "list_all is_digit t" "0 \<le> m" for t m
    using that
  proof (induction t arbitrary: m)
    case (Cons c t)
    then have "0 \<le> digit_val c" by (simp add: is_digit_def digit_val_def)
    with Cons show ?case by simp
  qed simp
  with a show ?thesis by (auto simp: ParseUint_def decimal_def split: if_splits)
qed

end
