(* ===== verification/Netip.thy ===== *)
theory Netip
  imports GoStrconv
begin

text \<open>
  The part of the package \<open>net/netip\<close> the program uses: addresses, \<open>ParseAddr\<close>, \<open>ParseAddrPort\<close>,
  \<open>Unmap\<close>, \<open>Prefix\<close> and the printed forms. An IPv4 address is its four octets, an IPv6 address its
  eight 16-bit groups and its zone.
\<close>

section \<open>Addresses\<close>

datatype addr = AddrNone | Addr4 "8 word list" | Addr6 "16 word list" string

definition IsValid :: "addr \<Rightarrow> bool" where
  "IsValid a \<longleftrightarrow> a \<noteq> AddrNone"

fun Is6 :: "addr \<Rightarrow> bool" where
  "Is6 (Addr6 _ _) = True"
| "Is6 _ = False"

fun Is4 :: "addr \<Rightarrow> bool" where
  "Is4 (Addr4 _) = True"
| "Is4 _ = False"

fun Is4In6 :: "addr \<Rightarrow> bool" where
  "Is4In6 (Addr6 [a, b, c, d, e, f, g, h] _) = (a = 0 \<and> b = 0 \<and> c = 0 \<and> d = 0 \<and> e = 0 \<and> f = 0xFFFF)"
| "Is4In6 _ = False"

definition group_octets :: "16 word \<Rightarrow> 8 word list" where
  "group_octets g = [ucast (drop_bit 8 g), ucast g]"

definition octet_group :: "8 word \<Rightarrow> 8 word \<Rightarrow> 16 word" where
  "octet_group a b = push_bit 8 (ucast a) OR ucast b"

definition Unmap :: "addr \<Rightarrow> addr" where
  "Unmap a =
     (case a of
        Addr6 gs _ \<Rightarrow> if Is4In6 a then Addr4 (concat (map group_octets (drop 6 gs))) else a
      | _ \<Rightarrow> a)"

fun addr_wf :: "addr \<Rightarrow> bool" where
  "addr_wf AddrNone = True"
| "addr_wf (Addr4 os) = (length os = 4)"
| "addr_wf (Addr6 gs _) = (length gs = 8)"

section \<open>Parsing\<close>

definition parse_octet :: "string \<Rightarrow> 8 word option" where
  "parse_octet s =
     (if s = [] \<or> \<not> list_all is_digit s \<or> length s \<noteq> 1 \<and> hd s = CHR ''0'' \<or> 255 < decimal s then None
      else Some (word_of_int (decimal s)))"

text \<open>\<open>parseIPv4Fields\<close>: four decimal fields, without leading zeros, each at most 255.\<close>

definition parse_octets :: "string \<Rightarrow> 8 word list option" where
  "parse_octets s =
     (let fields = map parse_octet (Split s (CHR ''.''))
      in if length fields = 4 \<and> list_all (\<lambda>f. f \<noteq> None) fields then Some (map the fields) else None)"

definition is_hex :: "char \<Rightarrow> bool" where
  "is_hex c \<longleftrightarrow> is_digit c \<or> 97 \<le> byte c \<and> byte c \<le> 102 \<or> 65 \<le> byte c \<and> byte c \<le> 70"

definition hex_val :: "char \<Rightarrow> int" where
  "hex_val c = (if is_digit c then byte c - 48 else if 97 \<le> byte c then byte c - 87 else byte c - 55)"

definition hexadecimal :: "string \<Rightarrow> int" where
  "hexadecimal s = fold (\<lambda>c n. n * 16 + hex_val c) s 0"

text \<open>
  The loop of \<open>parseIPv6\<close>: the groups read so far, the place of the ellipsis and the rest of the
  string; the first argument counts the groups there is room for.
\<close>

fun v6_loop :: "nat \<Rightarrow> 16 word list \<Rightarrow> nat option \<Rightarrow> string \<Rightarrow> (16 word list \<times> nat option \<times> string) option" where
  "v6_loop 0 gs el s = Some (gs, el, s)"
| "v6_loop (Suc n) gs el s =
     (let h = takeWhile is_hex s; r = drop (length h) s; gs' = gs @ [word_of_int (hexadecimal h)] in
      if h = [] \<or> 4 < length h then None
      else if r \<noteq> [] \<and> hd r = CHR ''.'' then
        (if el = None \<and> length gs \<noteq> 6 \<or> 8 < length gs + 2 then None
         else (case parse_octets s of
             Some os \<Rightarrow> Some (gs @ [octet_group (os ! 0) (os ! 1), octet_group (os ! 2) (os ! 3)], el, [])
           | None \<Rightarrow> None))
      else if r = [] then Some (gs', el, [])
      else if hd r \<noteq> CHR '':'' \<or> tl r = [] then None
      else if hd (tl r) = CHR '':'' then
        (if el \<noteq> None then None
         else if tl (tl r) = [] then Some (gs', Some (length gs'), [])
         else v6_loop n gs' (Some (length gs')) (tl (tl r)))
      else v6_loop n gs' el (tl r))"

definition parse_v6 :: "string \<Rightarrow> addr option" where
  "parse_v6 s =
     (let (s, zone, zoned) = Cut s (CHR ''%'') in
      if zoned \<and> zone = [] then None
      else
        (let lead = HasPrefix s ''::''; s' = (if lead then drop 2 s else s); el = (if lead then Some 0 else None) in
         if lead \<and> s' = [] then Some (Addr6 (replicate 8 0) zone)
         else (case v6_loop 8 [] el s' of
             None \<Rightarrow> None
           | Some (gs, el, rest) \<Rightarrow>
               if rest \<noteq> [] then None
               else if length gs < 8 then
                 (case el of
                    None \<Rightarrow> None
                  | Some e \<Rightarrow> Some (Addr6 (take e gs @ replicate (8 - length gs) 0 @ drop e gs) zone))
               else if el \<noteq> None then None
               else Some (Addr6 gs zone))))"

text \<open>The first of \<open>.\<close>, \<open>:\<close> and \<open>%\<close> decides what is parsed.\<close>

definition ParseAddr :: "string \<Rightarrow> addr option" where
  "ParseAddr s =
     (case dropWhile (\<lambda>c. c \<noteq> CHR ''.'' \<and> c \<noteq> CHR '':'' \<and> c \<noteq> CHR ''%'') s of
        [] \<Rightarrow> None
      | c # _ \<Rightarrow>
          if c = CHR ''.'' then map_option Addr4 (parse_octets s)
          else if c = CHR '':'' then parse_v6 s
          else None)"

definition ParseAddrPort :: "string \<Rightarrow> (addr \<times> int) option" where
  "ParseAddrPort s =
     (case CutLast s (CHR '':'') of
        None \<Rightarrow> None
      | Some (ip, port) \<Rightarrow>
          if ip = [] \<or> port = [] then None
          else
            (let bracket = hd ip = CHR ''['' in
             if bracket \<and> (length ip < 2 \<or> last ip \<noteq> CHR '']'') then None
             else
               (case ParseUint 16 port of
                  None \<Rightarrow> None
                | Some p \<Rightarrow>
                    (case ParseAddr (if bracket then butlast (tl ip) else ip) of
                       None \<Rightarrow> None
                     | Some a \<Rightarrow> if bracket \<and> Is4 a \<or> \<not> bracket \<and> Is6 a then None else Some (a, p)))))"

section \<open>Printing\<close>

definition octets_text :: "8 word list \<Rightarrow> string" where
  "octets_text os = Join (map (\<lambda>b. FormatUint (unat b)) os) ''.''"

definition group_text :: "16 word \<Rightarrow> string" where
  "group_text g = print_digits 16 (unat g)"

text \<open>The longest run of at least two zero groups, the first such: its start and length.\<close>

definition zero_run :: "16 word list \<Rightarrow> nat \<times> nat" where
  "zero_run gs =
     fold (\<lambda>i (start, len). let k = length (takeWhile (\<lambda>g. g = 0) (drop i gs))
             in if 2 \<le> k \<and> len < k then (i, k) else (start, len))
       [0..<8] (255, 0)"

definition groups_text :: "16 word list \<Rightarrow> string" where
  "groups_text gs =
     (let (start, len) = zero_run gs in
      if len = 0 then Join (map group_text gs) '':''
      else Join (map group_text (take start gs)) '':'' @ ''::'' @ Join (map group_text (drop (start + len) gs)) '':'')"

definition zone_text :: "string \<Rightarrow> string" where
  "zone_text zone = (if zone = [] then [] else CHR ''%'' # zone)"

fun addr_String :: "addr \<Rightarrow> string" where
  "addr_String AddrNone = ''invalid IP''"
| "addr_String (Addr4 os) = octets_text os"
| "addr_String (Addr6 gs zone) =
     (if Is4In6 (Addr6 gs zone)
      then ''::ffff:'' @ octets_text (concat (map group_octets (drop 6 gs))) @ zone_text zone
      else groups_text gs @ zone_text zone)"

text \<open>The masked address of \<open>Addr.Prefix\<close>; the zone is dropped.\<close>

fun mask_groups :: "nat \<Rightarrow> ('a :: len) word list \<Rightarrow> 'a word list" where
  "mask_groups bits [] = []"
| "mask_groups bits (g # gs) =
     (let w = LENGTH('a); k = min bits w
      in push_bit (w - k) (drop_bit (w - k) g) # mask_groups (bits - w) gs)"

text \<open>\<open>ip.Prefix(bits)\<close>, with an error when there are too few bits.\<close>

fun addr_Prefix :: "addr \<Rightarrow> nat \<Rightarrow> addr option" where
  "addr_Prefix AddrNone bits = Some AddrNone"
| "addr_Prefix (Addr4 os) bits = (if 32 < bits then None else Some (Addr4 (mask_groups bits os)))"
| "addr_Prefix (Addr6 gs zone) bits = (if 128 < bits then None else Some (Addr6 (mask_groups bits gs) []))"

definition prefix_String :: "addr \<Rightarrow> nat \<Rightarrow> string" where
  "prefix_String a bits = (if a = AddrNone then ''invalid Prefix'' else addr_String a @ ''/'' @ FormatUint bits)"

end
