(* ===== verification/Sha256.thy ===== *)
theory Sha256
  imports GoStrings
begin

text \<open>
  The hash functions the program takes from Go's standard library: SHA-256 (FIPS 180-4) and HMAC
  over it (RFC 2104). Byte slices are byte strings. A digest has 32 bytes (\<open>sha256_length\<close>).
\<close>

section \<open>SHA-256\<close>

text \<open>
  The constants are the first 32 bits of the fractional parts of the cube roots (for the rounds) and
  of the square roots (for the initial state) of the first primes.
\<close>

definition primes_below :: "nat \<Rightarrow> nat list" where
  "primes_below m = filter (\<lambda>n. list_all (\<lambda>d. n mod d \<noteq> 0) [2..<n]) [2..<m]"

text \<open>The largest root below \<open>2^40\<close> with \<open>root ^ k \<le> n\<close>, bit by bit.\<close>

definition integer_root :: "nat \<Rightarrow> nat \<Rightarrow> nat" where
  "integer_root k n = fold (\<lambda>b r. if (r + 2 ^ b) ^ k \<le> n then r + 2 ^ b else r) (rev [0..<40]) 0"

definition sha_k :: "u32 list" where
  "sha_k = map (\<lambda>p. word_of_nat (integer_root 3 (p * 2 ^ 96))) (primes_below 312)"

definition sha_h0 :: "u32 list" where
  "sha_h0 = map (\<lambda>p. word_of_nat (integer_root 2 (p * 2 ^ 64))) (primes_below 20)"

definition rotr :: "nat \<Rightarrow> u32 \<Rightarrow> u32" where
  "rotr n x = drop_bit n x OR push_bit (32 - n) x"

definition big_endian :: "string \<Rightarrow> 'a :: len word" where
  "big_endian s = fold (\<lambda>c n. push_bit 8 n OR word_of_int (byte c)) s 0"

definition word_bytes :: "u32 \<Rightarrow> string" where
  "word_bytes w = map (\<lambda>i. char_of (uint (drop_bit i w))) [24, 16, 8, 0]"

text \<open>The padded message: a one bit, zeros, and the length in bits as 64 bits.\<close>

definition sha_pad :: "string \<Rightarrow> string" where
  "sha_pad m =
     (let n = length m; zeros = (119 - n mod 64) mod 64; bits = (word_of_nat (8 * n) :: u64)
      in m @ CHR 0x80 # replicate zeros (CHR 0x00) @
         map (\<lambda>i. char_of (uint (drop_bit i bits))) [56, 48, 40, 32, 24, 16, 8, 0])"

function blocks_of :: "nat \<Rightarrow> string \<Rightarrow> string list" where
  "blocks_of n s = (if n = 0 \<or> length s < n then [] else take n s # blocks_of n (drop n s))"
  by pat_completeness auto
termination
  by (relation "measure (length \<circ> snd)") auto

declare blocks_of.simps [simp del]

text \<open>The message schedule, kept with its last word first.\<close>

definition schedule_step :: "u32 list \<Rightarrow> u32 list" where
  "schedule_step ws =
     (let w15 = ws ! 14; w2 = ws ! 1;
          s0 = rotr 7 w15 XOR rotr 18 w15 XOR drop_bit 3 w15;
          s1 = rotr 17 w2 XOR rotr 19 w2 XOR drop_bit 10 w2
      in (ws ! 15 + s0 + ws ! 6 + s1) # ws)"

definition schedule :: "string \<Rightarrow> u32 list" where
  "schedule block = rev ((schedule_step ^^ 48) (rev (map big_endian (blocks_of 4 block))))"

fun sha_round :: "u32 \<times> u32 \<Rightarrow> u32 list \<Rightarrow> u32 list" where
  "sha_round (k, w) [a, b, c, d, e, f, g, h] =
     (let s1 = rotr 6 e XOR rotr 11 e XOR rotr 25 e;
          ch = (e AND f) XOR (NOT e AND g);
          t1 = h + s1 + ch + k + w;
          s0 = rotr 2 a XOR rotr 13 a XOR rotr 22 a;
          maj = (a AND b) XOR (a AND c) XOR (b AND c);
          t2 = s0 + maj
      in [t1 + t2, a, b, c, d + t1, e, f, g])"
| "sha_round _ st = st"

definition sha_block :: "string \<Rightarrow> u32 list \<Rightarrow> u32 list" where
  "sha_block block hs = map2 (+) hs (fold sha_round (zip sha_k (schedule block)) hs)"

definition sha256 :: "string \<Rightarrow> string" where
  "sha256 m = concat (map word_bytes (fold sha_block (blocks_of 64 (sha_pad m)) sha_h0))"

section \<open>HMAC\<close>

definition hmac_key :: "string \<Rightarrow> string" where
  "hmac_key key = (let k = (if 64 < length key then sha256 key else key) in k @ replicate (64 - length k) (CHR 0x00))"

definition xor_byte :: "int \<Rightarrow> char \<Rightarrow> char" where
  "xor_byte b c = char_of (byte c XOR b)"

definition hmac_sha256 :: "string \<Rightarrow> string \<Rightarrow> string" where
  "hmac_sha256 key m =
     (let k = hmac_key key
      in sha256 (map (xor_byte 0x5C) k @ sha256 (map (xor_byte 0x36) k @ m)))"

section \<open>Lemmas\<close>

lemma sha_round_length: "length (sha_round kw hs) = length hs"
  by (cases "(kw, hs)" rule: sha_round.cases) (simp_all add: Let_def)

lemma sha_fold_length: "length (fold sha_round kws hs) = length hs"
  by (induction kws arbitrary: hs) (simp_all add: sha_round_length)

lemma sha_block_length: "length (sha_block b hs) = length hs"
  by (simp add: sha_block_def sha_fold_length)

lemma sha_blocks_length: "length (fold sha_block bs hs) = length hs"
  by (induction bs arbitrary: hs) (simp_all add: sha_block_length)

lemma initial_length: "length sha_h0 = 8"
proof -
  have "length (primes_below 20) = 8" by code_simp
  then show ?thesis by (simp add: sha_h0_def)
qed

lemma sha256_length [simp]: "length (sha256 m) = 32"
proof -
  have "length (concat (map word_bytes ws)) = 4 * length ws" for ws
    by (induction ws) (simp_all add: word_bytes_def)
  then show ?thesis unfolding sha256_def sha_blocks_length by (simp add: sha_blocks_length initial_length)
qed

lemma hmac_length [simp]: "length (hmac_sha256 key m) = 32"
  by (simp add: hmac_sha256_def Let_def)

end
