(* ===== verification/Identity.thy ===== *)
theory Identity
  imports Netip Sha256
begin

text \<open>
  Visitor identity and client addresses, \<open>internal/ingest/identity.go\<close>: the rotating salt, the
  visitor id derived from it, the address a request came from and the key the rate limiter counts
  it under. The random source and the clock are arguments.
\<close>

section \<open>The code\<close>

record salt =
  sl_cur :: string
  sl_rotated :: time
  sl_interval :: duration

text \<open>\<open>Rotate\<close>: whether the random source delivered, and the salt.\<close>

definition Rotate :: "string option \<Rightarrow> time \<Rightarrow> salt \<Rightarrow> bool \<times> salt" where
  "Rotate rand clock s =
     (case rand of None \<Rightarrow> (False, s) | Some b \<Rightarrow> (True, s\<lparr>sl_cur := b, sl_rotated := clock\<rparr>))"

definition NewSalt :: "string option \<Rightarrow> time \<Rightarrow> duration \<Rightarrow> salt option" where
  "NewSalt rand clock interval =
     (let (ok, s) = Rotate rand clock \<lparr>sl_cur = [], sl_rotated = zero_time, sl_interval = interval\<rparr>
      in if ok then Some s else None)"

definition RotateIfDue :: "string option \<Rightarrow> time \<Rightarrow> time \<Rightarrow> salt \<Rightarrow> bool \<times> salt" where
  "RotateIfDue rand clock now s =
     (let due = time_sub now (sl_rotated s) \<ge> sl_interval s
      in (due, if due then snd (Rotate rand clock s) else s))"

definition visitor_message :: "addr \<Rightarrow> string \<Rightarrow> string \<Rightarrow> string" where
  "visitor_message ip ua domain = addr_String ip @ [CHR 0x00] @ ua @ [CHR 0x00] @ domain"

definition VisitorID :: "addr \<Rightarrow> string \<Rightarrow> string \<Rightarrow> salt \<Rightarrow> u64" where
  "VisitorID ip ua domain s = big_endian (take 8 (hmac_sha256 (sl_cur s) (visitor_message ip ua domain)))"

text \<open>The parts of \<open>http.Request\<close> the program reads; a body that cannot be read is \<open>None\<close>.\<close>

record request =
  rq_Method :: string
  rq_Header :: "string \<Rightarrow> string"
  rq_RemoteAddr :: string
  rq_Body :: "string option"

definition forwarded_for :: "request \<Rightarrow> addr option" where
  "forwarded_for r =
     (let xff = rq_Header r ''X-Forwarded-For''; (first, _, ok) = Cut xff (CHR '','')
      in if xff = [] then None else ParseAddr (TrimSpace (if ok then first else xff)))"

definition real_ip :: "request \<Rightarrow> addr option" where
  "real_ip r =
     (let xr = TrimSpace (rq_Header r ''X-Real-IP'') in if xr = [] then None else ParseAddr xr)"

definition remote_ip :: "request \<Rightarrow> addr" where
  "remote_ip r =
     (case ParseAddrPort (rq_RemoteAddr r) of
        Some (a, _) \<Rightarrow> Unmap a
      | None \<Rightarrow> (case ParseAddr (rq_RemoteAddr r) of Some a \<Rightarrow> Unmap a | None \<Rightarrow> AddrNone))"

definition ClientIP :: "request \<Rightarrow> bool \<Rightarrow> addr" where
  "ClientIP r trustProxy =
     (if trustProxy then
        (case forwarded_for r of
           Some a \<Rightarrow> Unmap a
         | None \<Rightarrow> (case real_ip r of Some a \<Rightarrow> Unmap a | None \<Rightarrow> remote_ip r))
      else remote_ip r)"

definition rateKey :: "addr \<Rightarrow> string" where
  "rateKey ip =
     (if \<not> IsValid ip then ''invalid''
      else
        (let bits = (if Is6 ip then 64 else 24) in
         case addr_Prefix ip bits of
           None \<Rightarrow> addr_String ip
         | Some p \<Rightarrow> prefix_String p bits))"

section \<open>Addresses that parse\<close>

lemma parse_octets_wf: "parse_octets s = Some os \<Longrightarrow> length os = 4"
  by (auto simp: parse_octets_def Let_def split: if_splits)

lemma v6_loop_length:
  "v6_loop n gs el s = Some (gs', el', r) \<Longrightarrow> length gs + n = 8 \<Longrightarrow> (\<forall>e. el = Some e \<longrightarrow> e \<le> length gs) \<Longrightarrow>
   length gs' \<le> 8 \<and> (\<forall>e. el' = Some e \<longrightarrow> e \<le> length gs')"
proof (induction n gs el s rule: v6_loop.induct)
  case (2 n gs el s)
  have grow: "\<forall>e. el = Some e \<longrightarrow> e \<le> Suc (length gs)"
    using "2.prems"(3) by (simp add: le_SucI)
  with 2 show ?case
    by (auto simp: Let_def split: if_splits option.splits list.splits)
qed simp

lemma parse_v6_wf: "parse_v6 s = Some a \<Longrightarrow> addr_wf a"
  using v6_loop_length [of 8 "[]"]
  by (fastforce simp: parse_v6_def Let_def split: if_splits option.splits prod.splits)

lemma ParseAddr_wf: "ParseAddr s = Some a \<Longrightarrow> addr_wf a"
  using parse_octets_wf parse_v6_wf by (fastforce simp: ParseAddr_def split: list.splits if_splits)

lemma ParseAddrPort_wf: "ParseAddrPort s = Some (a, p) \<Longrightarrow> addr_wf a"
  using ParseAddr_wf by (fastforce simp: ParseAddrPort_def Let_def split: option.splits if_splits prod.splits)

lemma list8: "length xs = 8 \<Longrightarrow> \<exists>a b c d e f g h. xs = [a, b, c, d, e, f, g, h]"
  by (auto simp: eval_nat_numeral length_Suc_conv)

lemma list4: "length xs = 4 \<Longrightarrow> \<exists>a b c d. xs = [a, b, c, d]"
  by (auto simp: eval_nat_numeral length_Suc_conv)

lemma Unmap_wf: "addr_wf a \<Longrightarrow> addr_wf (Unmap a)"
  by (cases a) (auto simp: Unmap_def group_octets_def dest!: list8)

lemma Unmap_not_mapped: "\<not> Is4In6 (Unmap a)"
  by (cases a) (auto simp: Unmap_def)

lemma header_wf: "forwarded_for r = Some a \<Longrightarrow> addr_wf a" "real_ip r = Some a \<Longrightarrow> addr_wf a"
  by (auto simp: forwarded_for_def real_ip_def Let_def split: prod.splits if_splits intro: ParseAddr_wf)

lemma remote_wf: "addr_wf (remote_ip r)"
  by (auto simp: remote_ip_def split: option.split intro!: Unmap_wf intro: ParseAddr_wf ParseAddrPort_wf)

lemma ClientIP_wf: "addr_wf (ClientIP r trust)"
  using remote_wf by (auto simp: ClientIP_def split: option.split intro!: Unmap_wf intro: header_wf)

lemma ClientIP_not_mapped: "\<not> Is4In6 (ClientIP r trust)"
  using Unmap_not_mapped by (auto simp: ClientIP_def remote_ip_def split: option.splits)

section \<open>Prefixes as text\<close>

lemma FormatUint_no: "\<not> is_digit c \<Longrightarrow> c \<notin> set (FormatUint n)"
  using FormatUint_shape [of n] by (auto simp: list_all_iff)

lemma octets_text_no_colon: "CHR '':'' \<notin> set (octets_text os)"
proof -
  have "CHR '':'' \<notin> set (Join ss ''.'')" if "\<forall>s \<in> set ss. CHR '':'' \<notin> set s" for ss
    using that by (induction ss "''.''" rule: Join.induct) auto
  then show ?thesis by (auto simp: octets_text_def FormatUint_no is_digit_def)
qed

lemma octets_text_inj: "octets_text os = octets_text os' \<Longrightarrow> os \<noteq> [] \<Longrightarrow> os' \<noteq> [] \<Longrightarrow> os = os'"
proof -
  assume eq: "octets_text os = octets_text os'" and ne: "os \<noteq> []" "os' \<noteq> []"
  let ?t = "map (\<lambda>b :: 8 word. FormatUint (unat b))"
  have "Split (Join (?t xs) ''.'') (CHR ''.'') = ?t xs" if "xs \<noteq> []" for xs
    using that by (intro Split_Join) (auto simp: FormatUint_no is_digit_def)
  with eq ne have "?t os = ?t os'" unfolding octets_text_def by metis
  moreover have "inj (\<lambda>b :: 8 word. FormatUint (unat b))"
    by (rule injI) (auto dest: FormatUint_inj simp: word_unat_eq_iff)
  ultimately show ?thesis by (simp add: inj_map_eq_map)
qed

lemma hex_digit_char: "d < 16 \<Longrightarrow> is_hex (digit_char d) \<and> hex_val (digit_char d) = int d"
proof -
  assume d: "d < 16"
  show ?thesis
  proof (cases "d < 10")
    case True
    with digit_char_byte [OF this] show ?thesis by (simp add: is_hex_def is_digit_def hex_val_def)
  next
    case False
    have "(of_char (char_of (87 + d) :: char) :: nat) = (87 + d) mod 256" by (rule of_char_of)
    then have "(of_char (digit_char d) :: nat) = 87 + d" using d False by (simp add: digit_char_def)
    then have "byte (digit_char d) = 87 + int d" by (metis of_nat_add of_nat_numeral of_nat_of_char)
    with d False show ?thesis by (simp add: is_hex_def is_digit_def hex_val_def)
  qed
qed

lemma print_hex: "print_digits 16 n \<noteq> [] \<and> list_all is_hex (print_digits 16 n) \<and> hexadecimal (print_digits 16 n) = int n"
proof (induction n rule: less_induct)
  case (less n)
  show ?case
  proof (cases "n < 16")
    case True
    then show ?thesis by (simp add: print_digits.simps [of 16 n] hex_digit_char hexadecimal_def)
  next
    case False
    then have rec: "print_digits 16 n = print_digits 16 (n div 16) @ [digit_char (n mod 16)]"
      by (simp add: print_digits.simps [of 16 n])
    have snoc: "hexadecimal (s @ [c]) = hexadecimal s * 16 + hex_val c" for s c
      by (simp add: hexadecimal_def)
    have "n mod 16 < 16" "n div 16 < n" using False by simp_all
    note d = hex_digit_char [OF this(1)] and IH = less.IH [OF this(2)]
    have "int (n div 16) * 16 + int (n mod 16) = int n" using div_mult_mod_eq [of n 16] by linarith
    then have "hexadecimal (print_digits 16 n) = int n"
      unfolding rec snoc conjunct2 [OF d] conjunct2 [OF conjunct2 [OF IH]] .
    moreover have "print_digits 16 n \<noteq> [] \<and> list_all is_hex (print_digits 16 n)"
      unfolding rec using IH d by simp
    ultimately show ?thesis by blast
  qed
qed

lemma group_text_shape: "group_text g \<noteq> []" "CHR '':'' \<notin> set (group_text g)"
  using print_hex [of "unat g"] by (auto simp: group_text_def list_all_iff is_hex_def is_digit_def)

lemma group_text_inj: "group_text g = group_text g' \<longleftrightarrow> g = g'"
  unfolding group_text_def by (metis print_hex of_nat_eq_iff word_unat_eq_iff)

lemma Join_groups_inj: "Join (map group_text gs) '':'' = Join (map group_text gs') '':'' \<Longrightarrow> gs = gs'"
proof -
  assume eq: "Join (map group_text gs) '':'' = Join (map group_text gs') '':''"
  have split: "Split (Join (map group_text xs) '':'') (CHR '':'') = map group_text xs" if "xs \<noteq> []" for xs
    using that group_text_shape by (intro Split_Join) auto
  have ne: "Join (map group_text xs) '':'' \<noteq> []" if "xs \<noteq> []" for xs
    using that group_text_shape(1) by (cases xs rule: remdups_adj.cases) auto
  have inj: "map group_text gs = map group_text gs' \<Longrightarrow> gs = gs'"
    by (rule map_injective) (auto intro: injI simp: group_text_inj)
  show ?thesis
  proof (cases "gs = [] \<or> gs' = []")
    case True
    with eq ne show ?thesis by (metis list.map(1) Join.simps(1))
  next
    case False
    then have "map group_text gs = map group_text gs'" using split [of gs] split [of gs'] eq by metis
    then show ?thesis by (rule inj)
  qed
qed

text \<open>A masked IPv6 address prints its groups up to the last nonzero one, then the ellipsis.\<close>

definition strip :: "16 word list \<Rightarrow> 16 word list" where
  "strip gs = rev (dropWhile (\<lambda>g. g = 0) (rev gs))"

lemma strip_inj: "length gs = length gs' \<Longrightarrow> strip gs = strip gs' \<Longrightarrow> gs = gs'"
proof -
  assume l: "length gs = length gs'" and s: "strip gs = strip gs'"
  have pad: "rev xs = replicate (length xs - length (strip xs)) 0 @ rev (strip xs)" for xs
  proof -
    have "takeWhile (\<lambda>g. g = 0) (rev xs) = replicate (length (takeWhile (\<lambda>g. g = 0) (rev xs))) 0"
      by (rule replicate_length_same [symmetric]) (auto dest: set_takeWhileD)
    moreover have "length (takeWhile (\<lambda>g. g = 0) (rev xs)) + length (dropWhile (\<lambda>g. g = 0) (rev xs)) = length (rev xs)"
      by (simp only: length_append [symmetric] takeWhile_dropWhile_id)
    then have "length (takeWhile (\<lambda>g. g = 0) (rev xs)) = length xs - length (strip xs)"
      by (simp add: strip_def)
    moreover have "rev xs = takeWhile (\<lambda>g. g = 0) (rev xs) @ rev (strip xs)"
      by (simp add: strip_def)
    ultimately show ?thesis by metis
  qed
  have "rev gs = rev gs'" by (simp only: pad [of gs] pad [of gs'] l s)
  then show ?thesis by simp
qed

lemma masked_text: "groups_text [a, b, c, d, 0, 0, 0, 0] = Join (map group_text (strip [a, b, c, d])) '':'' @ ''::''"
  by (cases "a = 0"; cases "b = 0"; cases "c = 0"; cases "d = 0")
    (simp_all add: groups_text_def zero_run_def strip_def upt_rec numeral_eq_Suc Let_def)

lemma mask_six: "mask_groups 64 [a, b, c, d, e, f, g, h] = [a, b, c, d, 0, 0, 0, 0 :: 16 word]"
  by (simp add: drop_bit_word_beyond)

lemma mask_four: "mask_groups 24 [a, b, c, d] = [a, b, c, 0 :: 8 word]"
  by (simp add: drop_bit_word_beyond)

text \<open>The key of each kind of address, spelled out.\<close>

lemma bits_text: "FormatUint 24 = ''24''" "FormatUint 64 = ''64''"
  by code_simp+

lemma rateKey_4: "length os = 4 \<Longrightarrow> rateKey (Addr4 os) = octets_text (take 3 os @ [0]) @ ''/24''"
  by (drule list4) (auto simp: rateKey_def IsValid_def mask_four prefix_String_def bits_text simp del: mask_groups.simps)

lemma rateKey_6:
  "length gs = 8 \<Longrightarrow> rateKey (Addr6 gs zone) = Join (map group_text (strip (take 4 gs))) '':'' @ ''::/64''"
  by (drule list8) (auto simp: rateKey_def IsValid_def mask_six prefix_String_def masked_text zone_text_def bits_text simp del: mask_groups.simps)

text \<open>Two addresses in the same IPv4 /24 or the same IPv6 /64.\<close>

fun same_prefix :: "addr \<Rightarrow> addr \<Rightarrow> bool" where
  "same_prefix AddrNone AddrNone = True"
| "same_prefix (Addr4 os) (Addr4 os') = (take 3 os = take 3 os')"
| "same_prefix (Addr6 gs _) (Addr6 gs' _) = (take 4 gs = take 4 gs')"
| "same_prefix _ _ = False"

lemma keys_apart:
  "octets_text os @ ''/24'' \<noteq> s @ ''::/64''" "octets_text os @ ''/24'' \<noteq> ''invalid''" "s @ ''::/64'' \<noteq> ''invalid''"
proof -
  show "octets_text os @ ''/24'' \<noteq> s @ ''::/64''"
    using octets_text_no_colon [of os] by (auto dest: arg_cong [where f = set])
  show "octets_text os @ ''/24'' \<noteq> ''invalid''" "s @ ''::/64'' \<noteq> ''invalid''"
    by (auto dest!: arg_cong [where f = last])
qed

section \<open>Properties\<close>

text \<open>
  C30: The limiter counts prefixes: two well-formed client addresses share a rate-limit key exactly
  when both are IPv4 in the same /24, both are IPv6 in the same /64 (whatever their zones), or both
  are invalid. So a client cannot escape its bucket by walking its own prefix, and no two prefixes
  share a bucket.
\<close>

theorem rate_key_iff_same_prefix:
  assumes "addr_wf a" and "addr_wf b"
  shows "rateKey a = rateKey b \<longleftrightarrow> same_prefix a b"
proof (cases a)
  case AddrNone
  then show ?thesis
    using assms(2) keys_apart by (cases b) (auto simp: rateKey_4 rateKey_6 rateKey_def [of AddrNone] IsValid_def)
next
  case (Addr4 os)
  show ?thesis
  proof (cases b)
    case (Addr4 os')
    with \<open>a = Addr4 os\<close> assms show ?thesis
      by (auto simp: rateKey_4 dest: octets_text_inj)
  qed (use assms Addr4 keys_apart in \<open>auto simp: rateKey_4 rateKey_6 rateKey_def [of AddrNone] IsValid_def\<close>)
next
  case (Addr6 gs zone)
  show ?thesis
  proof (cases b)
    case (Addr6 gs' zone')
    with \<open>a = Addr6 gs zone\<close> assms show ?thesis
      using strip_inj [of "take 4 gs" "take 4 gs'"] by (auto simp: rateKey_6 dest!: Join_groups_inj)
  next
    case (Addr4 os)
    with \<open>a = Addr6 gs zone\<close> assms keys_apart(1) [of "take 3 os @ [0]" "Join (map group_text (strip (take 4 gs))) '':''"]
    show ?thesis by (simp add: rateKey_4 rateKey_6)
  qed (use assms \<open>a = Addr6 gs zone\<close> keys_apart in \<open>auto simp: rateKey_6 rateKey_def [of AddrNone] IsValid_def\<close>)
qed

theorem rate_key_iff_same_prefix_witness:
  "rateKey (Addr6 [1, 2, 3, 4, 5, 6, 7, 8] ''eth0'') = rateKey (Addr6 [1, 2, 3, 4, 9, 9, 9, 9] [])"
  by (subst rate_key_iff_same_prefix) simp_all

text \<open>
  Forwarding headers count only behind a trusted proxy. Without \<open>trust_proxy\<close> the client address
  depends on nothing but the remote address of the connection; with it, an address that parses from
  the first entry of \<open>X-Forwarded-For\<close>, then from \<open>X-Real-IP\<close>, wins. In every case the result is
  well formed and never an IPv4 address in IPv6 disguise, so it has one rate-limit key.
\<close>

theorem client_ip_source:
  "ClientIP (r\<lparr>rq_Header := h\<rparr>) False = ClientIP r False \<and>
   ClientIP r True = (case forwarded_for r of Some a \<Rightarrow> Unmap a | None \<Rightarrow>
     (case real_ip r of Some a \<Rightarrow> Unmap a | None \<Rightarrow> ClientIP r False)) \<and>
   addr_wf (ClientIP r trust) \<and> \<not> Is4In6 (ClientIP r trust)"
proof (intro conjI)
  show "ClientIP (r\<lparr>rq_Header := h\<rparr>) False = ClientIP r False" by (simp add: ClientIP_def remote_ip_def split: option.split)
  show "ClientIP r True = (case forwarded_for r of Some a \<Rightarrow> Unmap a | None \<Rightarrow>
      (case real_ip r of Some a \<Rightarrow> Unmap a | None \<Rightarrow> ClientIP r False))" by (simp add: ClientIP_def split: option.split)
qed (rule ClientIP_wf ClientIP_not_mapped)+

end
