(* ===== verification/GoUrl.thy ===== *)
theory GoUrl
  imports Netip
begin

text \<open>
  The part of the package \<open>net/url\<close> the program uses: \<open>url.Parse\<close>, \<open>URL.Hostname\<close> and
  \<open>URL.Query().Get\<close>. The fields of a URL the program never reads are left out; whether they parse
  is not. Whether a host with several colons is refused depends on the scheme and on the setting
  \<open>urlstrictcolons\<close> of the Go runtime, which is the parameter \<open>strict\<close>.
\<close>

section \<open>Escapes\<close>

datatype encoding = EncPath | EncHost | EncZone | EncUserPassword | EncQueryComponent | EncFragment

definition is_letter :: "char \<Rightarrow> bool" where
  "is_letter c \<longleftrightarrow> 97 \<le> byte c \<and> byte c \<le> 122 \<or> 65 \<le> byte c \<and> byte c \<le> 90"

text \<open>The ASCII bytes \<open>shouldEscape\<close> leaves alone in a host.\<close>

definition host_byte :: "char \<Rightarrow> bool" where
  "host_byte c \<longleftrightarrow>
     is_letter c \<or> is_digit c \<or>
     c \<in> {CHR ''-'', CHR ''_'', CHR ''.'', CHR ''~'', CHR ''!'', CHR ''$'', CHR ''&'', CHR 0x27, CHR ''('', CHR '')'',
          CHR ''*'', CHR ''+'', CHR '','', CHR '';'', CHR ''='', CHR '':'', CHR ''['', CHR '']'', CHR ''<'', CHR ''>'',
          CHR 0x22}"

text \<open>Which \<open>%ab\<close> may stand where: any but in a host, where it must be a percent sign or not ASCII.\<close>

definition escape_ok :: "encoding \<Rightarrow> char \<Rightarrow> char \<Rightarrow> bool" where
  "escape_ok m a b \<longleftrightarrow>
     is_hex a \<and> is_hex b \<and>
     (let v = 16 * hex_val a + hex_val b; percent = (a = CHR ''2'' \<and> b = CHR ''5'') in
      (m = EncHost \<longrightarrow> 8 \<le> hex_val a \<or> percent) \<and>
      (m = EncZone \<longrightarrow> percent \<or> v = 32 \<or> host_byte (char_of v)))"

fun unescape :: "encoding \<Rightarrow> string \<Rightarrow> string option" where
  "unescape m [] = Some []"
| "unescape m (c # s) =
     (if c = CHR ''%'' then
        (case s of
           a # b # r \<Rightarrow>
             if escape_ok m a b then map_option ((#) (char_of (16 * hex_val a + hex_val b))) (unescape m r) else None
         | _ \<Rightarrow> None)
      else if c = CHR ''+'' then
        map_option ((#) (if m = EncQueryComponent then CHR '' '' else c)) (unescape m s)
      else if (m = EncHost \<or> m = EncZone) \<and> byte c < 0x80 \<and> \<not> host_byte c then None
      else map_option ((#) c) (unescape m s))"

section \<open>Hosts\<close>

definition valid_optional_port :: "string \<Rightarrow> bool" where
  "valid_optional_port s \<longleftrightarrow> s = [] \<or> hd s = CHR '':'' \<and> list_all is_digit (tl s)"

text \<open>The string before the first occurrence of a pattern, and from it on.\<close>

fun cut_before :: "string \<Rightarrow> string \<Rightarrow> string \<times> string" where
  "cut_before p [] = ([], [])"
| "cut_before p (c # s) =
     (if HasPrefix (c # s) p then ([], c # s) else (let (a, b) = cut_before p s in (c # a, b)))"

definition bracketed :: "string \<Rightarrow> string option" where
  "bracketed rest =
     (case CutLast rest (CHR '']'') of
        None \<Rightarrow> None
      | Some (name, port) \<Rightarrow>
          if \<not> valid_optional_port port then None
          else
            (let (host, zone) = cut_before ''%25'' name in
             case (unescape EncHost port, unescape EncHost host, unescape EncZone zone) of
               (Some port, Some host, Some zone) \<Rightarrow>
                 (case ParseAddr (host @ zone) of
                    Some a \<Rightarrow> if Is4 a then None else Some (CHR ''['' # host @ zone @ CHR '']'' # port)
                  | None \<Rightarrow> None)
             | _ \<Rightarrow> None))"

definition parse_host :: "(string \<Rightarrow> bool) \<Rightarrow> string \<Rightarrow> string \<Rightarrow> string option" where
  "parse_host strict scheme host =
     (case CutLast host (CHR ''['') of
        Some (pre, rest) \<Rightarrow> if pre \<noteq> [] then None else bracketed rest
      | None \<Rightarrow>
          (let (_, port) = (if strict scheme then (let (a, b, ok) = Cut host (CHR '':'') in (a, if ok then CHR '':'' # b else []))
                else (case CutLast host (CHR '':'') of Some (a, b) \<Rightarrow> (a, CHR '':'' # b) | None \<Rightarrow> (host, [])))
           in if valid_optional_port port then unescape EncHost host else None))"

definition user_byte :: "char \<Rightarrow> bool" where
  "user_byte c \<longleftrightarrow>
     is_letter c \<or> is_digit c \<or>
     c \<in> {CHR ''-'', CHR ''.'', CHR ''_'', CHR '':'', CHR ''~'', CHR ''!'', CHR ''$'', CHR ''&'', CHR 0x27, CHR ''('',
          CHR '')'', CHR ''*'', CHR ''+'', CHR '','', CHR '';'', CHR ''='', CHR ''%'', CHR ''@''}"

definition parse_authority :: "(string \<Rightarrow> bool) \<Rightarrow> string \<Rightarrow> string \<Rightarrow> string option" where
  "parse_authority strict scheme authority =
     (case CutLast authority (CHR ''@'') of
        None \<Rightarrow> parse_host strict scheme authority
      | Some (user, host) \<Rightarrow>
          (let (name, password, _) = Cut user (CHR '':'') in
           if list_all user_byte user \<and> unescape EncUserPassword name \<noteq> None \<and>
              unescape EncUserPassword password \<noteq> None
           then parse_host strict scheme host else None))"

section \<open>URLs\<close>

record url =
  url_Scheme :: string
  url_Opaque :: string
  url_Host :: string
  url_Path :: string
  url_RawQuery :: string

definition scheme_byte :: "char \<Rightarrow> bool" where
  "scheme_byte c \<longleftrightarrow> is_letter c \<or> is_digit c \<or> c \<in> {CHR ''+'', CHR ''-'', CHR ''.''}"

text \<open>\<open>getScheme\<close>: the scheme and the rest.\<close>

definition get_scheme :: "string \<Rightarrow> (string \<times> string) option" where
  "get_scheme s =
     (let p = takeWhile scheme_byte s; r = dropWhile scheme_byte s in
      if p \<noteq> [] \<and> \<not> is_letter (hd p) then Some ([], s)
      else if r \<noteq> [] \<and> hd r = CHR '':'' then (if p = [] then None else Some (p, tl r))
      else Some ([], s))"

definition control_byte :: "char \<Rightarrow> bool" where
  "control_byte c \<longleftrightarrow> byte c < 32 \<or> byte c = 127"

text \<open>After the scheme and the query are cut off: authority and path.\<close>

definition parse_rest :: "(string \<Rightarrow> bool) \<Rightarrow> string \<Rightarrow> string \<Rightarrow> string \<Rightarrow> url option" where
  "parse_rest strict scheme rest query =
     (if \<not> HasPrefix rest ''/'' \<and> scheme \<noteq> [] then
        Some \<lparr>url_Scheme = scheme, url_Opaque = rest, url_Host = [], url_Path = [], url_RawQuery = query\<rparr>
      else if \<not> HasPrefix rest ''/'' \<and> CHR '':'' \<in> set (fst (Cut rest (CHR ''/''))) then None
      else
        (let authority = HasPrefix rest ''//'' \<and> (scheme \<noteq> [] \<or> \<not> HasPrefix rest ''///'');
             path = (if authority then dropWhile (\<lambda>c. c \<noteq> CHR ''/'') (drop 2 rest) else rest) in
         case (if authority then parse_authority strict scheme (takeWhile (\<lambda>c. c \<noteq> CHR ''/'') (drop 2 rest)) else Some [],
               unescape EncPath path) of
           (Some host, Some path) \<Rightarrow>
             Some \<lparr>url_Scheme = scheme, url_Opaque = [], url_Host = host, url_Path = path, url_RawQuery = query\<rparr>
         | _ \<Rightarrow> None))"

definition parse_unfragmented :: "(string \<Rightarrow> bool) \<Rightarrow> string \<Rightarrow> url option" where
  "parse_unfragmented strict s =
     (if list_ex control_byte s then None
      else if s = ''*'' then
        Some \<lparr>url_Scheme = [], url_Opaque = [], url_Host = [], url_Path = ''*'', url_RawQuery = []\<rparr>
      else
        (case get_scheme s of
           None \<Rightarrow> None
         | Some (scheme, rest) \<Rightarrow>
             (let (rest, query, _) = Cut rest (CHR ''?'')
              in parse_rest strict (map lower_byte scheme) rest query)))"

definition url_Parse :: "(string \<Rightarrow> bool) \<Rightarrow> string \<Rightarrow> url option" where
  "url_Parse strict s =
     (let (s, fragment, _) = Cut s (CHR ''#'') in
      case parse_unfragmented strict s of
        None \<Rightarrow> None
      | Some u \<Rightarrow> if unescape EncFragment fragment = None then None else Some u)"

definition Hostname :: "url \<Rightarrow> string" where
  "Hostname u =
     (let host = (case CutLast (url_Host u) (CHR '':'') of
            Some (h, port) \<Rightarrow> if list_all is_digit port then h else url_Host u
          | None \<Rightarrow> url_Host u)
      in if HasPrefix host ''['' \<and> HasSuffix host '']'' then butlast (tl host) else host)"

section \<open>Queries\<close>

text \<open>\<open>ParseQuery\<close>: the pairs that parse, in order; too many of them are an error.\<close>

definition query_pair :: "string \<Rightarrow> (string \<times> string) option" where
  "query_pair s =
     (let (key, val, _) = Cut s (CHR ''='') in
      if CHR '';'' \<in> set s \<or> s = [] then None
      else
        (case (unescape EncQueryComponent key, unescape EncQueryComponent val) of
           (Some k, Some v) \<Rightarrow> Some (k, v)
         | _ \<Rightarrow> None))"

definition ParseQuery :: "string \<Rightarrow> (string \<times> string) list" where
  "ParseQuery s =
     (let parts = Split s (CHR ''&'') in if 10000 < length parts then [] else List.map_filter query_pair parts)"

text \<open>\<open>Values.Get\<close>: the first value of the key, or the empty string.\<close>

definition query_Get :: "url \<Rightarrow> string \<Rightarrow> string" where
  "query_Get u key = (case map_of (ParseQuery (url_RawQuery u)) key of Some v \<Rightarrow> v | None \<Rightarrow> [])"

end
