(* ===== verification/Path.thy ===== *)
theory Path
  imports GoUrl
begin

text \<open>
  Paths, campaign tags, referrers and screen widths, \<open>internal/enrich/path.go\<close>: what of a page
  address may become a label. A path loses its query and fragment, its case and its trailing slash,
  and its identifier-shaped segments become \<open>:id\<close>; a referrer is reduced to its host; tags are cut
  to 64 bytes.

  \<open>isIdentifier\<close> is equivalent to a description of whole segments (\<open>identifier_iff\<close>), the result of
  \<open>NormalizePath\<close> has a normal form (\<open>normalized_path_shape\<close>), and neither a query nor a fragment
  reaches a path or a referrer label (\<open>query_never_reaches_labels\<close>).
\<close>

section \<open>The code\<close>

definition MaxPathLen :: nat where "MaxPathLen = 128"
definition MaxTagLen :: nat where "MaxTagLen = 64"

definition hex_rune :: "int \<Rightarrow> bool" where
  "hex_rune r \<longleftrightarrow> 48 \<le> r \<and> r \<le> 57 \<or> 97 \<le> r \<and> r \<le> 102 \<or> 65 \<le> r \<and> r \<le> 70"

definition isUUID :: "string \<Rightarrow> bool" where
  "isUUID s \<longleftrightarrow>
     length s = 36 \<and>
     list_all (\<lambda>(i, r). if i \<in> {8, 13, 18, 23} then r = 45 else hex_rune r) (runes s)"

text \<open>The counters \<open>digits\<close>, \<open>hexish\<close> and \<open>other\<close> after the loop over the runes.\<close>

definition count_rune :: "nat \<times> int \<Rightarrow> nat \<times> nat \<times> nat \<Rightarrow> nat \<times> nat \<times> nat" where
  "count_rune ir k =
     (let r = snd ir; (digits, hexish, other) = k in
      if 48 \<le> r \<and> r \<le> 57 then (digits + 1, hexish + 1, other)
      else if 97 \<le> r \<and> r \<le> 102 \<or> 65 \<le> r \<and> r \<le> 70 then (digits, hexish + 1, other)
      else if r = 45 \<or> r = 95 then (digits, hexish, other)
      else (digits, hexish, other + 1))"

definition isIdentifier :: "string \<Rightarrow> bool" where
  "isIdentifier s =
     (if length s < 2 then False
      else if isUUID s then True
      else
        (let (digits, hexish, other) = fold count_rune (runes s) (0, 0, 0) in
         if other > 0 then False
         else if digits = length s \<and> 4 \<le> length s then
           (if length s = 4 then (case Atoi s of Some y \<Rightarrow> \<not> (1900 \<le> y \<and> y \<le> 2100) | None \<Rightarrow> True) else True)
         else if hexish = length s \<and> 12 \<le> length s then True
         else False))"

definition clamp :: "string \<Rightarrow> nat \<Rightarrow> string" where
  "clamp s n = (if n < length s then take n s else s)"

text \<open>The parts of \<open>NormalizePath\<close> after the URL is parsed: slashes, then segments.\<close>

definition trim_path :: "(int \<Rightarrow> int) \<Rightarrow> string \<Rightarrow> string" where
  "trim_path lower p0 =
     (let p1 = (if HasPrefix p0 ''/'' then p0 else CHR ''/'' # p0); p2 = ToLower lower p1 in
      if 1 < length p2 then (let p3 = TrimRight1 p2 (CHR ''/'') in if p3 = [] then ''/'' else p3) else p2)"

definition collapse_ids :: "string \<Rightarrow> string" where
  "collapse_ids p = Join (map (\<lambda>s. if isIdentifier s then '':id'' else s) (Split p (CHR ''/''))) ''/''"

definition NormalizePath :: "(int \<Rightarrow> int) \<Rightarrow> (string \<Rightarrow> bool) \<Rightarrow> string \<Rightarrow> string" where
  "NormalizePath lower strict rawURL =
     (case url_Parse strict (TrimSpace rawURL) of
        None \<Rightarrow> ''/''
      | Some u \<Rightarrow>
          if url_Path u = [] then ''/''
          else
            (let p = collapse_ids (trim_path lower (url_Path u))
             in if MaxPathLen < length p then take MaxPathLen p else p))"

record utm =
  utm_Source :: string
  utm_Medium :: string
  utm_Campaign :: string

fun pick :: "(int \<Rightarrow> int) \<Rightarrow> url \<Rightarrow> string list \<Rightarrow> string" where
  "pick lower u [] = []"
| "pick lower u (k # ks) =
     (let v = TrimSpace (query_Get u k)
      in if v \<noteq> [] then clamp (ToLower lower v) MaxTagLen else pick lower u ks)"

definition ParseUTM :: "(int \<Rightarrow> int) \<Rightarrow> (string \<Rightarrow> bool) \<Rightarrow> string \<Rightarrow> utm" where
  "ParseUTM lower strict rawURL =
     (case url_Parse strict rawURL of
        None \<Rightarrow> \<lparr>utm_Source = [], utm_Medium = [], utm_Campaign = []\<rparr>
      | Some u \<Rightarrow>
          \<lparr>utm_Source = pick lower u [''utm_source'', ''source'', ''ref''],
           utm_Medium = pick lower u [''utm_medium'', ''medium''],
           utm_Campaign = pick lower u [''utm_campaign'', ''campaign'']\<rparr>)"

definition ReferrerHost :: "(int \<Rightarrow> int) \<Rightarrow> (string \<Rightarrow> bool) \<Rightarrow> string \<Rightarrow> string \<Rightarrow> string" where
  "ReferrerHost lower strict raw0 selfDomain =
     (let raw = TrimSpace raw0 in
      if raw = [] then []
      else
        (case url_Parse strict raw of
           None \<Rightarrow> []
         | Some u \<Rightarrow>
             if url_Host u = [] then []
             else
               (let h = TrimPrefix (ToLower lower (Hostname u)) ''www.'';
                    self = TrimPrefix (ToLower lower selfDomain) ''www.''
                in if h = self then [] else clamp h MaxTagLen)))"

definition ScreenClass :: "int \<Rightarrow> string" where
  "ScreenClass w =
     (if w \<le> 0 then []
      else if w < 576 then ''xs''
      else if w < 768 then ''sm''
      else if w < 992 then ''md''
      else if w < 1440 then ''lg''
      else ''xl'')"

section \<open>Identifiers\<close>

lemma decode_beyond_ascii: "0x80 \<le> byte c \<Longrightarrow> 0x80 \<le> fst (decode_rune (c # s))"
proof -
  assume c: "0x80 \<le> byte c"
  have m: "0 \<le> x mod 64" for x :: int by simp
  have two: "0x80 \<le> a mod 32 * 64 + b mod 64" if "0xC2 \<le> a" "a \<le> 0xDF" for a b :: int
  proof -
    have "2 \<le> a mod 32" using that by presburger
    with m [of b] show ?thesis by linarith
  qed
  have three: "0x80 \<le> a mod 16 * 4096 + b mod 64 * 64 + d mod 64"
    if "0xE0 \<le> a" "a \<le> 0xEF" "(if a = 0xE0 then 0xA0 else 0x80) \<le> b" "b \<le> 0xBF" for a b d :: int
  proof -
    have "1 \<le> a mod 16 \<or> 32 \<le> b mod 64" "0 \<le> a mod 16" using that by (auto split: if_splits) presburger+
    with m [of b] m [of d] show ?thesis by linarith
  qed
  have four: "0x80 \<le> a mod 8 * 262144 + b mod 64 * 4096 + d mod 64 * 64 + e mod 64"
    if "0xF0 \<le> a" "a \<le> 0xF4" "(if a = 0xF0 then 0x90 else 0x80) \<le> b" "b \<le> 0xBF" for a b d e :: int
  proof -
    have "1 \<le> a mod 8 \<or> 16 \<le> b mod 64" "0 \<le> a mod 8" using that by (auto split: if_splits) presburger+
    with m [of b] m [of d] m [of e] show ?thesis by linarith
  qed
  have cut: "x \<le> (if Q then y else 0xBF) \<Longrightarrow> y \<le> 0xBF \<Longrightarrow> x \<le> (0xBF :: int)" for Q x y
    by (cases Q) simp_all
  consider "0xC2 \<le> byte c" "byte c \<le> 0xDF" | "0xE0 \<le> byte c" "byte c \<le> 0xEF" | "0xF0 \<le> byte c" "byte c \<le> 0xF4"
    | "byte c < 0xC2 \<or> 0xDF < byte c" "byte c < 0xE0 \<or> 0xEF < byte c" "byte c < 0xF0 \<or> 0xF4 < byte c"
    by linarith
  then show ?thesis
  proof cases
    case 1
    then show ?thesis using c two [OF 1] by (simp split: list.split)
  next
    case 2
    define lo hi :: int where "lo = (if byte c = 0xE0 then 0xA0 else 0x80)" and "hi = (if byte c = 0xED then 0x9F else 0xBF)"
    have "0x80 \<le> byte c mod 16 * 4096 + byte b mod 64 * 64 + byte d mod 64"
      if "cont_in lo hi b" for b d
    proof (rule three [OF 2])
      show "byte b \<le> 0xBF" by (rule cut [of "byte b" "byte c = 0xED" "0x9F"]) (use that in \<open>simp_all add: cont_in_def hi_def\<close>)
    qed (use that in \<open>simp add: cont_in_def lo_def\<close>)
    then show ?thesis
      using c 2 unfolding decode_rune.simps lo_def [symmetric] hi_def [symmetric] by (simp split: list.split)
  next
    case 3
    define lo hi :: int where "lo = (if byte c = 0xF0 then 0x90 else 0x80)" and "hi = (if byte c = 0xF4 then 0x8F else 0xBF)"
    have "0x80 \<le> byte c mod 8 * 262144 + byte b mod 64 * 4096 + byte d mod 64 * 64 + byte e mod 64"
      if "cont_in lo hi b" for b d e
    proof (rule four [OF 3])
      show "byte b \<le> 0xBF" by (rule cut [of "byte b" "byte c = 0xF4" "0x8F"]) (use that in \<open>simp_all add: cont_in_def hi_def\<close>)
    qed (use that in \<open>simp add: cont_in_def lo_def\<close>)
    then show ?thesis
      using c 3 unfolding decode_rune.simps lo_def [symmetric] hi_def [symmetric] by (simp split: list.split)
  next
    case 4
    with c have "decode_rune (c # s) = (rune_error, 1)" by auto
    then show ?thesis by simp
  qed
qed

lemma chunks_beyond_ascii: "\<not> is_ascii s \<Longrightarrow> \<exists>r \<in> fst ` set (chunks s). 0x80 \<le> r"
proof (induction s rule: chunks.induct)
  case (1 s)
  then obtain c t where s: "s = c # t" by (cases s) (auto simp: is_ascii_def)
  show ?case
  proof (cases "byte c < 0x80")
    case False
    then show ?thesis
      using decode_beyond_ascii [of c t] unfolding s chunks.simps [of "c # t"]
      by (cases "decode_rune (c # t)") (simp del: decode_rune.simps)
  next
    case True
    then have "\<not> is_ascii t" "decode_rune s = (byte c, 1)" using 1(2) by (auto simp: s is_ascii_def)
    then have "\<exists>r \<in> fst ` set (chunks t). 0x80 \<le> r"
      using 1(1) [of "decode_rune s" "byte c" 1] by (simp add: s)
    then show ?thesis by (simp add: s chunks_ascii [OF True])
  qed
qed

lemma runes_ascii: "is_ascii s \<Longrightarrow> runes s = zip [0..<length s] (map byte s)"
proof -
  have "range_loop n (map (\<lambda>c. (byte c, [c])) s) = zip [n..<n + length s] (map byte s)" for n
    by (induction s arbitrary: n) (simp_all add: upt_rec)
  then show "is_ascii s \<Longrightarrow> ?thesis" by (simp add: runes_def chunks_is_ascii)
qed

lemma runes_values: "map snd (runes s) = map fst (chunks s)"
proof -
  have "map snd (range_loop n cs) = map fst cs" for n cs
    by (induction n cs rule: range_loop.induct) auto
  then show ?thesis by (simp add: runes_def)
qed

lemma is_hex_rune: "is_hex c \<longleftrightarrow> hex_rune (byte c)"
  by (auto simp: is_hex_def is_digit_def hex_rune_def)

definition digit_rune :: "int \<Rightarrow> bool" where "digit_rune r \<longleftrightarrow> 48 \<le> r \<and> r \<le> 57"

definition odd_rune :: "int \<Rightarrow> bool" where "odd_rune r \<longleftrightarrow> \<not> hex_rune r \<and> r \<noteq> 45 \<and> r \<noteq> 95"

lemma counts:
  "fold count_rune irs (d, h, other) =
     (d + length (filter digit_rune (map snd irs)), h + length (filter hex_rune (map snd irs)),
      other + length (filter odd_rune (map snd irs)))"
  by (induction irs arbitrary: d h other)
    (auto simp: count_rune_def Let_def digit_rune_def odd_rune_def hex_rune_def split: if_splits)

lemma all_filtered: "length (filter P xs) = length xs \<longleftrightarrow> list_all P xs"
proof -
  have "length (filter P xs) = length xs \<longleftrightarrow> filter P xs = xs"
    by (metis length_filter_less less_irrefl filter_True)
  then show ?thesis by (simp add: filter_id_conv list_all_iff)
qed

text \<open>The same by whole segments: no counters, no runes.\<close>

definition uuid_shape :: "string \<Rightarrow> bool" where
  "uuid_shape s \<longleftrightarrow>
     length s = 36 \<and> (\<forall>i \<in> {0..<36}. if i \<in> {8, 13, 18, 23} then s ! i = CHR ''-'' else is_hex (s ! i))"

definition year :: "string \<Rightarrow> bool" where
  "year s \<longleftrightarrow> length s = 4 \<and> 1900 \<le> decimal s \<and> decimal s \<le> 2100"

definition opaque_id :: "string \<Rightarrow> bool" where
  "opaque_id s \<longleftrightarrow>
     uuid_shape s \<or> list_all is_digit s \<and> 4 \<le> length s \<and> \<not> year s \<or> list_all is_hex s \<and> 12 \<le> length s"

lemma decimal_range: "list_all is_digit s \<Longrightarrow> 0 \<le> decimal s \<and> decimal s < 10 ^ length s"
proof (induction s rule: rev_induct)
  case (snoc c s)
  then have "0 \<le> digit_val c" "digit_val c \<le> 9" "0 \<le> decimal s" "decimal s < 10 ^ length s"
    by (auto simp: is_digit_def digit_val_def)
  then show ?case by (simp add: decimal_snoc)
qed (simp add: decimal_def)

lemma Atoi_digits: "list_all is_digit s \<Longrightarrow> s \<noteq> [] \<Longrightarrow> length s \<le> 18 \<Longrightarrow> Atoi s = Some (decimal s)"
proof -
  assume s: "list_all is_digit s" "s \<noteq> []" "length s \<le> 18"
  have "(10 :: int) ^ length s \<le> 10 ^ 18" using s(3) by (intro power_increasing) simp_all
  then have "decimal s < 2 ^ 63" "decimal s < 2 ^ 64" using decimal_range [OF s(1)] by simp_all
  with s show ?thesis by (cases s) (auto simp: Atoi_def ParseInt_def ParseUint_def is_digit_def)
qed

lemma isUUID_shape: "is_ascii s \<Longrightarrow> isUUID s \<longleftrightarrow> uuid_shape s"
proof -
  assume a: "is_ascii s"
  have "byte (CHR ''-'') = 45" by simp
  then have dash: "byte c = 45 \<longleftrightarrow> c = CHR ''-''" for c
    using of_char_eq_iff [of c "CHR ''-''"] by simp
  have "list_all P (zip [0..<length s] (map byte s)) \<longleftrightarrow> (\<forall>i \<in> {0..<length s}. P (i, byte (s ! i)))" for P
    by (auto simp: list_all_length)
  then have "isUUID s \<longleftrightarrow>
      length s = 36 \<and> (\<forall>i \<in> {0..<length s}. if i \<in> {8, 13, 18, 23} then byte (s ! i) = 45 else hex_rune (byte (s ! i)))"
    by (simp only: isUUID_def runes_ascii [OF a] prod.case)
  then show ?thesis
    by (cases "length s = 36") (simp_all only: uuid_shape_def is_hex_rune dash simp_thms)
qed

lemma counts_ascii:
  "is_ascii s \<Longrightarrow> fold count_rune (runes s) (0, 0, 0) =
     (length (filter is_digit s), length (filter is_hex s),
      length (filter (\<lambda>c. \<not> is_hex c \<and> byte c \<noteq> 45 \<and> byte c \<noteq> 95) s))"
proof -
  have "digit_rune (byte c) = is_digit c" "hex_rune (byte c) = is_hex c"
      "odd_rune (byte c) = (\<not> is_hex c \<and> byte c \<noteq> 45 \<and> byte c \<noteq> 95)" for c
    by (simp_all add: digit_rune_def is_digit_def odd_rune_def is_hex_rune)
  then show "is_ascii s \<Longrightarrow> ?thesis"
    unfolding counts runes_values by (simp add: chunks_is_ascii comp_def filter_map)
qed

lemma beyond_ascii_odd: "\<not> is_ascii s \<Longrightarrow> \<not> isUUID s \<and> 0 < snd (snd (fold count_rune (runes s) (0, 0, 0)))"
proof -
  assume "\<not> is_ascii s"
  then obtain r where r: "r \<in> set (map snd (runes s))" "0x80 \<le> r"
    using chunks_beyond_ascii unfolding runes_values by fastforce
  then have "odd_rune r" by (simp add: odd_rune_def hex_rune_def)
  with r(1) have "filter odd_rune (map snd (runes s)) \<noteq> []" by (auto simp: filter_empty_conv)
  moreover obtain i where "(i, r) \<in> set (runes s)" using r(1) by auto
  then have "\<not> isUUID s"
    using r(2) by (auto simp: isUUID_def list_all_iff hex_rune_def intro!: bexI [of _ "(i, r)"])
  ultimately show ?thesis by (simp only: counts snd_conv add_0 length_greater_0_conv simp_thms)
qed

lemma hex_ascii: "list_all is_hex s \<Longrightarrow> is_ascii s" "list_all is_digit s \<Longrightarrow> list_all is_hex s"
  by (auto simp: list_all_iff is_ascii_def is_hex_def is_digit_def)

lemma uuid_ascii: "is_ascii s" if "uuid_shape s"
proof -
  note u = that
  show ?thesis unfolding is_ascii_def
  proof
    fix c
    assume "c \<in> set s"
    then obtain i where "i < length s" "c = s ! i" by (auto simp: in_set_conv_nth)
    with u have "c = CHR ''-'' \<or> is_hex c" by (cases "i \<in> {8, 13, 18, 23}") (simp_all add: uuid_shape_def)
    then show "byte c < 0x80" by (auto simp: is_hex_def is_digit_def)
  qed
qed

text \<open>
  A path segment collapses to \<open>:id\<close> exactly when it is a UUID, a number of at least four digits
  that is not a year from 1900 to 2100, or at least twelve hexadecimal digits. The counters over
  decoded runes, the early returns and the conversion by \<open>Atoi\<close> compute this and nothing else, for
  every byte string.
\<close>

theorem identifier_iff: "isIdentifier s = opaque_id s"
proof (cases "is_ascii s")
  case False
  then have "\<not> opaque_id s" using hex_ascii uuid_ascii by (auto simp: opaque_id_def)
  with beyond_ascii_odd [OF False] show ?thesis by (auto simp: isIdentifier_def split: prod.split)
next
  case True
  have odd: "list_all is_hex s \<Longrightarrow> filter (\<lambda>c. \<not> is_hex c \<and> byte c \<noteq> 45 \<and> byte c \<noteq> 95) s = []"
    by (auto simp: filter_empty_conv list_all_iff)
  have "list_all is_digit s \<Longrightarrow> length s = 4 \<Longrightarrow> Atoi s = Some (decimal s)"
    by (intro Atoi_digits) auto
  then show ?thesis
    using odd hex_ascii(2) [of s]
    by (auto simp: isIdentifier_def opaque_id_def isUUID_shape [OF True] counts_ascii [OF True] all_filtered year_def uuid_shape_def)
qed

section \<open>Normal paths\<close>

text \<open>Texts that decode without error, as the encodings of runes; they survive all of \<open>NormalizePath\<close> but the cut.\<close>

definition encoded :: "string \<Rightarrow> bool" where
  "encoded s \<longleftrightarrow> (\<exists>rs. s = concat (map encode_rune rs))"

lemma encoded_valid: "encoded s \<Longrightarrow> valid_utf8 s"
  using valid_encoded by (auto simp: encoded_def)

lemma encoded_append: "encoded s \<Longrightarrow> encoded t \<Longrightarrow> encoded (s @ t)"
  unfolding encoded_def by (metis concat_append map_append)

lemma encoded_ascii: "is_ascii s \<Longrightarrow> encoded s"
proof (induction s)
  case Nil
  then show ?case unfolding encoded_def by (intro exI [of _ "[]"]) simp
next
  case (Cons c s)
  then have "encode_rune (byte c) = [c]" by (simp add: encode_rune_def is_ascii_def not_less)
  then have "encoded [c]" unfolding encoded_def by (intro exI [of _ "[byte c]"]) simp
  with Cons encoded_append [of "[c]" s] show ?case by (simp add: is_ascii_def)
qed

lemma encoded_ToLower: "encoded (ToLower lower s)"
proof (cases "is_ascii s")
  case True
  then show ?thesis by (intro encoded_ascii is_ascii_lower)
next
  case False
  then have "ToLower lower s = concat (map encode_rune (map (lower_rune lower \<circ> fst) (chunks s)))"
    by (simp add: ToLower_def comp_def case_prod_beta')
  then show ?thesis unfolding encoded_def by blast
qed

lemma encode_slash: "CHR ''/'' \<in> set (encode_rune r) \<Longrightarrow> encode_rune r = ''/''"
proof -
  assume slash: "CHR ''/'' \<in> set (encode_rune r)"
  obtain r' where r': "scalar r'" "encode_rune r = encode_rune r'" using encode_rune_scalar by blast
  have high: "CHR ''/'' \<noteq> char_of a" if "128 \<le> a" "a < 256" for a :: int
  proof
    assume "CHR ''/'' = char_of a"
    then have "byte (CHR ''/'') = a" using byte_char_of [of a] that by simp
    with that show False by simp
  qed
  show ?thesis
  proof (cases "r' < 0x80")
    case True
    with r' slash show ?thesis by (auto simp: encode_rune_def scalar_def)
  next
    case False
    have digits: "r' div 64 mod 64 < 64" "r' mod 64 < 64" "r' div 4096 mod 64 < 64" "0 \<le> r' div 64 mod 64" "0 \<le> r' mod 64" "0 \<le> r' div 4096 mod 64"
      by simp_all
    have same: "(if r' < 0 \<or> 0x10FFFF < r' \<or> 0xD800 \<le> r' \<and> r' \<le> 0xDFFF then rune_error else r') = r'"
      using r'(1) by (simp only: scalar_def if_not_P not_less not_le de_Morgan_disj de_Morgan_conj)
    have lead: "0 \<le> r' div 64" "0 \<le> r' div 4096" "0 \<le> r' div 262144" "r' < 0x800 \<Longrightarrow> r' div 64 < 32"
      "r' < 0x10000 \<Longrightarrow> r' div 4096 < 16" "r' div 262144 < 8"
      using r'(1) False unfolding scalar_def by linarith+
    have "CHR ''/'' \<notin> set (encode_rune r')"
      using r'(1)
    proof (cases rule: scalar_cases)
      case one
      with False show ?thesis by simp
    next
      case two
      then have "encode_rune r' = [char_of (0xC0 + r' div 64), char_of (0x80 + r' mod 64)]"
        by (simp add: encode_rune_def)
      with two show ?thesis using digits lead by (simp add: high)
    next
      case three
      have range: "\<not> r' < 0x80" "\<not> r' < 0x800" "r' < 0x10000" using three(1,2) by linarith+
      have "encode_rune r' = [char_of (0xE0 + r' div 4096), char_of (0x80 + r' div 64 mod 64), char_of (0x80 + r' mod 64)]"
        unfolding encode_rune_def Let_def same by (simp only: range if_True if_False)
      moreover have "r' div 4096 < 16" using lead(5) range by linarith
      ultimately show ?thesis
        by (simp only: list.set insert_iff empty_iff de_Morgan_disj simp_thms)
          (intro conjI high; use digits lead(1-3) in linarith)
    next
      case four
      then have "encode_rune r' = [char_of (0xF0 + r' div 262144), char_of (0x80 + r' div 4096 mod 64),
          char_of (0x80 + r' div 64 mod 64), char_of (0x80 + r' mod 64)]"
        by (simp add: encode_rune_def)
      then show ?thesis
        by (simp only: list.set insert_iff empty_iff de_Morgan_disj simp_thms)
          (intro conjI high; use digits lead(1-3,6) in linarith)
    qed
    with slash r'(2) show ?thesis by simp
  qed
qed

lemma Split_prefix:
  "sep \<notin> set p \<Longrightarrow> Split (p @ s) sep = (p @ hd (Split s sep)) # tl (Split s sep)"
  by (induction p) (auto split: list.split)

lemma Split_encoded: "encoded s \<Longrightarrow> p \<in> set (Split s (CHR ''/'')) \<Longrightarrow> encoded p"
proof -
  have "\<forall>p \<in> set (Split (concat (map encode_rune rs)) (CHR ''/'')). encoded p" for rs
  proof (induction rs)
    case Nil
    then show ?case by (simp add: encoded_ascii is_ascii_def)
  next
    case (Cons r rs)
    let ?s = "concat (map encode_rune rs)"
    have r: "encoded (encode_rune r)" unfolding encoded_def by (intro exI [of _ "[r]"]) simp
    show ?case
    proof (cases "CHR ''/'' \<in> set (encode_rune r)")
      case True
      from encode_slash [OF this] Cons show ?thesis by (simp add: encoded_ascii is_ascii_def)
    next
      case False
      have "hd (Split ?s (CHR ''/'')) \<in> set (Split ?s (CHR ''/''))" by (intro hd_in_set) simp
      then have "encoded (encode_rune r @ hd (Split ?s (CHR ''/'')))" using Cons r by (intro encoded_append) blast+
      moreover have "\<forall>p \<in> set (tl (Split ?s (CHR ''/''))). encoded p" using Cons by (meson list.set_sel(2) Split_nonempty)
      ultimately show ?thesis by (simp add: Split_prefix [OF False])
    qed
  qed
  then show "encoded s \<Longrightarrow> p \<in> set (Split s (CHR ''/'')) \<Longrightarrow> encoded p" by (auto simp: encoded_def)
qed

lemma Join_encoded: "\<forall>p \<in> set ps. encoded p \<Longrightarrow> encoded (Join ps ''/'')"
proof (induction ps "''/''" rule: Join.induct)
  case (3 s t ss)
  moreover have "encoded ''/''" by (simp add: encoded_ascii is_ascii_def)
  ultimately show ?case by (auto intro!: encoded_append simp del: append_Cons)
qed (simp_all add: encoded_ascii is_ascii_def)

lemma encoded_TrimRight: "encoded s \<Longrightarrow> encoded (TrimRight1 s (CHR ''/''))"
proof -
  have "encoded (TrimRight1 (concat (map encode_rune rs)) (CHR ''/''))" for rs
  proof (induction rs rule: rev_induct)
    case (snoc r rs)
    show ?case
    proof (cases "CHR ''/'' \<in> set (encode_rune r)")
      case True
      from encode_slash [OF this] snoc show ?thesis by (simp add: TrimRight1_def)
    next
      case False
      then have "last (encode_rune r) \<noteq> CHR ''/''" using encode_rune_nonempty last_in_set by metis
      then have "TrimRight1 (concat (map encode_rune (rs @ [r]))) (CHR ''/'') = concat (map encode_rune (rs @ [r]))"
        using encode_rune_nonempty [of r] by (cases "encode_rune r" rule: rev_cases) (simp_all add: TrimRight1_def)
      then show ?thesis unfolding encoded_def by metis
    qed
  qed (simp add: TrimRight1_def encoded_ascii is_ascii_def)
  then show "encoded s \<Longrightarrow> ?thesis" by (auto simp: encoded_def)
qed

lemma trim_path_encoded: "encoded (trim_path lower p)"
  by (simp add: trim_path_def Let_def encoded_ToLower encoded_TrimRight encoded_ascii is_ascii_def)

lemma id_ok: "encoded '':id''" "\<not> isIdentifier '':id''" "\<not> isIdentifier []" "CHR ''/'' \<notin> set '':id''"
  by (simp_all add: encoded_ascii is_ascii_def identifier_iff opaque_id_def uuid_shape_def is_hex_def is_digit_def)

lemma collapse_encoded: "encoded p \<Longrightarrow> encoded (collapse_ids p)"
  unfolding collapse_ids_def using Split_encoded id_ok(1) by (intro Join_encoded) auto

lemma Split_collapse:
  "Split (collapse_ids p) (CHR ''/'') = map (\<lambda>s. if isIdentifier s then '':id'' else s) (Split p (CHR ''/''))"
  unfolding collapse_ids_def using Split_no_sep [of _ p "CHR ''/''"] id_ok(4) by (intro Split_Join) auto

lemma collapse_no_ids: "s \<in> set (Split (collapse_ids p) (CHR ''/'')) \<Longrightarrow> \<not> isIdentifier s"
  using id_ok(2) by (auto simp: Split_collapse)

lemma chars_slash: "lower_byte (CHR ''/'') = CHR ''/''" "encode_rune (lower_rune lower 47) = ''/''"
proof -
  have "char_of (byte (CHR ''/'')) = CHR ''/''" by (rule char_of_char)
  then show "lower_byte (CHR ''/'') = CHR ''/''" "encode_rune (lower_rune lower 47) = ''/''"
    by (simp_all add: lower_byte_def lower_rune_def encode_rune_def)
qed

lemma ToLower_slash: "\<exists>t. ToLower lower (CHR ''/'' # s) = CHR ''/'' # t"
  using chunks_ascii [of "CHR ''/''" s] by (auto simp: ToLower_def chars_slash)

lemma trim_path_shape: "\<exists>t. trim_path lower p = CHR ''/'' # t \<and> (t = [] \<or> last t \<noteq> CHR ''/'')"
proof -
  obtain s where "(if HasPrefix p ''/'' then p else CHR ''/'' # p) = CHR ''/'' # s"
    by (cases "HasPrefix p ''/''") (auto simp: HasPrefix_iff)
  moreover obtain t where "ToLower lower (CHR ''/'' # s) = CHR ''/'' # t" using ToLower_slash by blast
  ultimately have p: "trim_path lower p =
      (if t = [] then ''/'' else (let p3 = TrimRight1 (CHR ''/'' # t) (CHR ''/'') in if p3 = [] then ''/'' else p3))"
    by (simp add: trim_path_def Let_def)
  show ?thesis
  proof (cases "TrimRight1 (CHR ''/'' # t) (CHR ''/'') = []")
    case True
    with p show ?thesis by (simp add: Let_def)
  next
    case False
    let ?d = "dropWhile (\<lambda>d. d = CHR ''/'') (rev (CHR ''/'' # t))"
    from False have d: "?d \<noteq> []" by (simp add: TrimRight1_def)
    have "rev t @ ''/'' = takeWhile (\<lambda>d. d = CHR ''/'') (rev (CHR ''/'' # t)) @ ?d" by (simp only: rev.simps takeWhile_dropWhile_id)
    with d have l: "last ?d = CHR ''/''" by (metis last_appendR last_snoc)
    have "hd ?d \<noteq> CHR ''/''" using hd_dropWhile [OF d] .
    then have "last (rev ?d) \<noteq> CHR ''/''" "hd (rev ?d) = CHR ''/''" using l by (simp_all only: last_rev hd_rev not_False_eq_True)
    then obtain u where u: "rev ?d = CHR ''/'' # u" "u = [] \<or> last u \<noteq> CHR ''/''"
      using d by (cases "rev ?d") (auto split: if_splits)
    show ?thesis
    proof (cases "t = []")
      case False
      with p u show ?thesis unfolding TrimRight1_def Let_def u by simp
    qed (simp add: p)
  qed
qed

lemma Split_slash: "Split (CHR ''/'' # t) (CHR ''/'') = [] # Split t (CHR ''/'')"
  by simp

lemma last_Split: "t \<noteq> [] \<Longrightarrow> last t \<noteq> sep \<Longrightarrow> last (Split t sep) \<noteq> [] \<and> last (last (Split t sep)) = last t"
proof (induction t)
  case (Cons c t)
  show ?case
  proof (cases "t = []")
    case False
    with Cons have l: "last (Split t sep) \<noteq> []" "last (last (Split t sep)) = last t" by auto
    then have "Split t sep \<noteq> [[]]" by auto
    with l False show ?thesis by (cases "Split t sep") (auto simp: last_ConsR)
  qed (use Cons in simp)
qed simp

lemma last_Join: "ps \<noteq> [] \<Longrightarrow> last ps \<noteq> [] \<Longrightarrow> last (Join ps ''/'') = last (last ps)"
proof (induction ps "''/''" rule: Join.induct)
  case (3 s t ss)
  moreover have "Join (t # ss) ''/'' \<noteq> []" using "3.prems"(2) by (cases ss) auto
  ultimately show ?case by simp
qed auto

lemma collapse_shape:
  assumes "p = CHR ''/'' # t" and "t = [] \<or> last t \<noteq> CHR ''/''"
  shows "\<exists>u. collapse_ids p = CHR ''/'' # u \<and> (u = [] \<or> last u \<noteq> CHR ''/'')"
proof -
  define f where "f = (\<lambda>s. if isIdentifier s then '':id'' else s)"
  have u: "collapse_ids p = CHR ''/'' # Join (map f (Split t (CHR ''/''))) ''/''"
    using id_ok(3) by (cases "Split t (CHR ''/'')") (simp_all add: collapse_ids_def assms(1) f_def)
  show ?thesis
  proof (cases "t = []")
    case True
    then show ?thesis using id_ok(3) unfolding u by (simp add: f_def)
  next
    case False
    let ?l = "last (Split t (CHR ''/''))"
    have l: "?l \<noteq> []" "last ?l \<noteq> CHR ''/''"
      using last_Split [OF False, of "CHR ''/''"] assms(2) False by auto
    then have "last (map f (Split t (CHR ''/''))) \<noteq> []" "last (last (map f (Split t (CHR ''/'')))) \<noteq> CHR ''/''"
      by (simp_all add: last_map f_def)
    then show ?thesis unfolding u by (simp add: last_Join)
  qed
qed

section \<open>Properties\<close>

definition path_normal :: "string \<Rightarrow> bool" where
  "path_normal p \<longleftrightarrow>
     HasPrefix p ''/'' \<and> (p = ''/'' \<or> \<not> HasSuffix p ''/'') \<and> valid_utf8 p \<and>
     list_all (\<lambda>s. \<not> isIdentifier s) (Split p (CHR ''/''))"

lemma collapse_normal: "path_normal (collapse_ids (trim_path lower p))"
proof -
  obtain t where "trim_path lower p = CHR ''/'' # t" "t = [] \<or> last t \<noteq> CHR ''/''"
    using trim_path_shape by blast
  then obtain u where u: "collapse_ids (trim_path lower p) = CHR ''/'' # u" "u = [] \<or> last u \<noteq> CHR ''/''"
    using collapse_shape by blast
  have "u = [] \<or> \<not> HasSuffix (CHR ''/'' # u) ''/''"
    using u(2) by (cases u rule: rev_cases) (auto simp: HasSuffix_iff)
  moreover have "valid_utf8 (collapse_ids (trim_path lower p))"
    using encoded_valid collapse_encoded trim_path_encoded by blast
  ultimately show ?thesis
    unfolding path_normal_def list_all_iff using collapse_no_ids [of _ "trim_path lower p"] u(1) by simp
qed

text \<open>
  C31: Every path label is the first 128 bytes of a normal path, whatever the client sent: it starts
  with a slash, it ends with none unless it is the root, it is valid UTF-8 and no segment of it looks
  like an identifier. An address that does not parse, or that has no path, is the root.
\<close>

theorem normalized_path_shape:
  "(\<exists>p. path_normal p \<and> NormalizePath lower strict raw = take 128 p) \<and>
   (case url_Parse strict (TrimSpace raw) of
      None \<Rightarrow> NormalizePath lower strict raw = ''/''
    | Some u \<Rightarrow> if url_Path u = [] then NormalizePath lower strict raw = ''/'' else True)"
proof -
  have root: "path_normal ''/''"
    using id_ok(3) by (simp add: path_normal_def valid_utf8_ascii is_ascii_def)
  have "\<exists>p. path_normal p \<and> NormalizePath lower strict raw = take MaxPathLen p"
  proof (cases "url_Parse strict (TrimSpace raw)")
    case None
    with root show ?thesis by (intro exI [of _ "''/''"]) (simp add: NormalizePath_def MaxPathLen_def)
  next
    case (Some u)
    show ?thesis
    proof (cases "url_Path u = []")
      case True
      with root Some show ?thesis by (intro exI [of _ "''/''"]) (simp add: NormalizePath_def MaxPathLen_def)
    next
      case False
      with Some show ?thesis
        by (intro exI [of _ "collapse_ids (trim_path lower (url_Path u))"])
          (simp add: NormalizePath_def collapse_normal Let_def)
    qed
  qed
  then show ?thesis by (simp add: MaxPathLen_def) (simp add: NormalizePath_def split: option.split)
qed

text \<open>
  The cut at 128 bytes is not at a rune boundary. A valid address whose normal path has a two-byte
  character at bytes 127 and 128 becomes a label that is not UTF-8, which the metrics client refuses.
\<close>

lemma path_cut_splits_rune:
  assumes "lower 0xE9 = 0xE9"
  shows "valid_utf8 (CHR ''/'' # replicate 126 (CHR ''a'') @ [CHR 0xC3, CHR 0xA9]) \<and>
    \<not> valid_utf8 (NormalizePath lower strict (CHR ''/'' # replicate 126 (CHR ''a'') @ [CHR 0xC3, CHR 0xA9]))"
proof -
  let ?s = "CHR ''/'' # replicate 126 (CHR ''a'') @ [CHR 0xC3, CHR 0xA9]"
  have trim: "TrimSpace ?s = ?s" by code_simp
  have url: "url_Parse strict ?s =
      Some \<lparr>url_Scheme = [], url_Opaque = [], url_Host = [], url_Path = ?s, url_RawQuery = []\<rparr>"
    by code_simp
  have "chunks ?s = (47, ''/'') # replicate 126 (97, ''a'') @ [(0xE9, [CHR 0xC3, CHR 0xA9])]" by code_simp
  moreover have "\<not> is_ascii ?s" by code_simp
  moreover have runes: "encode_rune (lower_rune lower 47) = ''/''" "encode_rune (lower_rune lower 97) = ''a''"
      "encode_rune (lower_rune lower 0xE9) = [CHR 0xC3, CHR 0xA9]"
    unfolding lower_rune_def assms by code_simp+
  moreover have "concat (replicate n [c]) = replicate n c" for n and c :: char by (induction n) simp_all
  ultimately have low: "ToLower lower ?s = ?s" by (simp add: ToLower_def)
  have "HasPrefix ?s ''/''" "1 < length ?s" "TrimRight1 ?s (CHR ''/'') = ?s" "collapse_ids ?s = ?s" "128 < length ?s"
    by code_simp+
  moreover from this low have "trim_path lower ?s = ?s" by (simp only: trim_path_def Let_def if_True list.distinct if_False)
  ultimately have "NormalizePath lower strict ?s = take 128 ?s"
    unfolding NormalizePath_def trim url by (simp only: option.case url.simps list.distinct if_False Let_def MaxPathLen_def if_True)
  moreover have "valid_utf8 ?s" "\<not> valid_utf8 (take 128 ?s)" by code_simp+
  ultimately show ?thesis by simp
qed

text \<open>What is cut off before the rest is parsed.\<close>

definition graphic :: "string \<Rightarrow> bool" where
  "graphic s \<longleftrightarrow> (\<forall>c \<in> set s. 33 \<le> byte c \<and> byte c \<le> 126)"

lemma graphic_append [simp]: "graphic (s @ t) \<longleftrightarrow> graphic s \<and> graphic t" "graphic (c # s) \<longleftrightarrow> 33 \<le> byte c \<and> byte c \<le> 126 \<and> graphic s"
  "graphic []"
  by (auto simp: graphic_def)

lemma graphic_TrimSpace: "graphic s \<Longrightarrow> TrimSpace s = s"
proof -
  assume s: "graphic s"
  then have a: "is_ascii s" by (auto simp: graphic_def is_ascii_def)
  have none: "dropWhile (is_space \<circ> byte) t = t" if "set t \<subseteq> set s" for t
    using s that by (cases t) (auto simp: graphic_def is_space_def)
  show ?thesis unfolding TrimSpace_ascii [OF a] by (simp add: none)
qed

lemma graphic_control: "graphic s \<Longrightarrow> \<not> list_ex control_byte s"
  by (auto simp: graphic_def control_byte_def list_ex_iff)

lemma Cut_at: "sep \<notin> set s \<Longrightarrow> Cut (s @ sep # t) sep = (s, t, True)" "sep \<notin> set s \<Longrightarrow> Cut s sep = (s, [], False)"
proof -
  assume s: "sep \<notin> set s"
  then have pre: "takeWhile (\<lambda>c. c \<noteq> sep) (s @ sep # t) = s" "takeWhile (\<lambda>c. c \<noteq> sep) s = s"
    by (auto simp: takeWhile_append)
  show "Cut (s @ sep # t) sep = (s, t, True)" unfolding Cut_def Let_def pre by simp
  show "Cut s sep = (s, [], False)" unfolding Cut_def Let_def pre using s by simp
qed

lemma get_scheme_query:
  "get_scheme (u @ CHR ''?'' # q) = map_option (\<lambda>(scheme, rest). (scheme, rest @ CHR ''?'' # q)) (get_scheme u)"
proof -
  have no: "\<not> scheme_byte (CHR ''?'')" by (simp add: scheme_byte_def is_letter_def is_digit_def)
  have "takeWhile scheme_byte (u @ CHR ''?'' # q) = takeWhile scheme_byte u"
      "dropWhile scheme_byte (u @ CHR ''?'' # q) = dropWhile scheme_byte u @ CHR ''?'' # q"
    using no by (induction u) simp_all
  then show ?thesis by (cases "dropWhile scheme_byte u") (auto simp: get_scheme_def Let_def)
qed

lemma get_scheme_rest: "get_scheme u = Some (scheme, rest) \<Longrightarrow> set rest \<subseteq> set u"
proof -
  have "set (dropWhile scheme_byte u) \<subseteq> set u" by (auto dest: set_dropWhileD)
  moreover have "set (tl xs) \<subseteq> set xs" for xs :: string by (cases xs) auto
  ultimately have "set (tl (dropWhile scheme_byte u)) \<subseteq> set u" by blast
  then show "get_scheme u = Some (scheme, rest) \<Longrightarrow> ?thesis"
    by (auto simp: get_scheme_def Let_def split: if_splits)
qed

text \<open>Everything of a URL but its query.\<close>

definition unqueried :: "url \<Rightarrow> url" where
  "unqueried u = u\<lparr>url_RawQuery := []\<rparr>"

lemma parse_rest_query:
  "map_option unqueried (parse_rest strict scheme rest q) = map_option unqueried (parse_rest strict scheme rest q')"
  by (auto simp: parse_rest_def unqueried_def Let_def split: option.split)

lemma parse_query:
  assumes "graphic u" "graphic q" "CHR ''?'' \<notin> set u"
  shows "map_option unqueried (parse_unfragmented strict (u @ CHR ''?'' # q)) = map_option unqueried (parse_unfragmented strict u)"
proof (cases "u = ''*''")
  case True
  have "get_scheme ''*'' = Some ([], ''*'')" "\<not> list_ex control_byte ''*''"
    by (simp_all add: get_scheme_def scheme_byte_def is_letter_def is_digit_def control_byte_def)
  moreover have "parse_rest strict [] ''*'' q =
      Some \<lparr>url_Scheme = [], url_Opaque = [], url_Host = [], url_Path = ''*'', url_RawQuery = q\<rparr>"
    by (simp add: parse_rest_def Cut_def)
  ultimately show ?thesis
    using graphic_control [of "u @ CHR ''?'' # q"] assms get_scheme_query [of u q] Cut_at(1) [of "CHR ''?''" u q] unfolding True
    by (simp add: parse_unfragmented_def unqueried_def)
next
  case False
  have c: "\<not> list_ex control_byte (u @ CHR ''?'' # q)" "\<not> list_ex control_byte u"
    using assms graphic_control [of "u @ CHR ''?'' # q"] graphic_control [of u] by simp_all
  have star: "u @ CHR ''?'' # q \<noteq> ''*''" by (cases u) auto
  show ?thesis
  proof (cases "get_scheme u")
    case None
    with False star c show ?thesis by (simp add: parse_unfragmented_def get_scheme_query)
  next
    case (Some sr)
    obtain scheme rest where sr: "sr = (scheme, rest)" by (cases sr)
    with Some assms(3) have "CHR ''?'' \<notin> set rest" using get_scheme_rest by blast
    with False star c Some sr show ?thesis
      using parse_rest_query [of strict "map lower_byte scheme" rest q "[]"]
      by (simp add: parse_unfragmented_def get_scheme_query Cut_at del: append_Cons)
  qed
qed

lemma parse_query_fragment:
  assumes "graphic u" "graphic q" "CHR ''?'' \<notin> set u" "CHR ''#'' \<notin> set u" "CHR ''#'' \<notin> set q" "unescape EncFragment f \<noteq> None"
  shows "map_option unqueried (url_Parse strict (u @ CHR ''?'' # q @ CHR ''#'' # f)) = map_option unqueried (url_Parse strict u)"
proof -
  have "CHR ''#'' \<notin> set (u @ CHR ''?'' # q)" using assms by simp
  from Cut_at(1) [OF this, of f]
  have "url_Parse strict (u @ CHR ''?'' # q @ CHR ''#'' # f) = parse_unfragmented strict (u @ CHR ''?'' # q)"
    using assms(6) by (auto simp: url_Parse_def split: option.split)
  moreover have "url_Parse strict u = parse_unfragmented strict u"
    by (simp add: url_Parse_def Cut_at(2) [OF assms(4)] split: option.split)
  ultimately show ?thesis using parse_query [OF assms(1-3)] by simp
qed

lemma unqueried_cases:
  assumes "map_option unqueried x = map_option unqueried y"
  obtains "x = None" "y = None"
  | w v where "x = Some w" "y = Some v" "url_Path w = url_Path v" "url_Host w = url_Host v"
proof (cases y)
  case None
  with assms that(1) show ?thesis by simp
next
  case (Some v)
  with assms obtain w where w: "x = Some w" "unqueried w = unqueried v" by (cases x) simp_all
  have "url_Path (unqueried u) = url_Path u" "url_Host (unqueried u) = url_Host u" for u
    by (simp_all add: unqueried_def)
  with w(2) have "url_Path w = url_Path v" "url_Host w = url_Host v" by metis+
  with w(1) Some that(2) show ?thesis by blast
qed

text \<open>
  C32: No query or fragment reaches a path or a referrer label. For an address of printable ASCII
  characters, adding any query and any well-formed fragment changes neither its path label nor, when
  it is the referrer, its referrer label. (The campaign labels are made of the query, by \<open>ParseUTM\<close>.)
\<close>

theorem query_never_reaches_labels:
  assumes "graphic (u @ q @ f)" "CHR ''?'' \<notin> set u" "CHR ''#'' \<notin> set (u @ q)" "unescape EncFragment f \<noteq> None"
  shows "NormalizePath lower strict (u @ CHR ''?'' # q @ CHR ''#'' # f) = NormalizePath lower strict u \<and>
    ReferrerHost lower strict (u @ CHR ''?'' # q @ CHR ''#'' # f) self = ReferrerHost lower strict u self"
proof (intro conjI)
  let ?long = "u @ CHR ''?'' # q @ CHR ''#'' # f"
  have trim: "TrimSpace ?long = ?long" "TrimSpace u = u" using assms(1) by (auto intro!: graphic_TrimSpace)
  have same: "map_option unqueried (url_Parse strict ?long) = map_option unqueried (url_Parse strict u)"
    using assms by (intro parse_query_fragment) auto
  have empty: "url_Parse strict [] = Some \<lparr>url_Scheme = [], url_Opaque = [], url_Host = [], url_Path = [], url_RawQuery = []\<rparr>"
    by code_simp
  from same show "NormalizePath lower strict ?long = NormalizePath lower strict u"
    unfolding NormalizePath_def trim by (cases rule: unqueried_cases) simp_all
  have hostless: "ReferrerHost lower strict x self = []"
    if "TrimSpace x = x" "url_Parse strict x = Some w" "url_Host w = []" for x w
    using that by (simp add: ReferrerHost_def)
  from same show "ReferrerHost lower strict ?long self = ReferrerHost lower strict u self"
  proof (cases rule: unqueried_cases)
    case 1
    then show ?thesis by (simp add: ReferrerHost_def trim)
  next
    case (2 w v)
    have h: "Hostname w = Hostname v" by (simp only: Hostname_def 2(4))
    show ?thesis
    proof (cases "url_Host v = []")
      case True
      with hostless [OF trim(1) 2(1)] hostless [OF trim(2) 2(2)] 2(4) show ?thesis by simp
    next
      case False
      then have "u \<noteq> []" using 2(2) empty by auto
      with False 2 h show ?thesis by (simp add: ReferrerHost_def trim)
    qed
  qed
qed

theorem query_never_reaches_labels_witness:
  "NormalizePath (\<lambda>r. r) (\<lambda>_. True) ''https://x.com/About?q=secret#top'' = NormalizePath (\<lambda>r. r) (\<lambda>_. True) ''https://x.com/About''"
  using query_never_reaches_labels [of "''https://x.com/About''" "''q=secret''" "''top''" "\<lambda>r. r" "\<lambda>_. True"]
  by (simp add: graphic_def)

end
