(* ===== verification/Env.thy ===== *)
theory Env
  imports Config GoStrconv
begin

text \<open>
  The environment overlay, \<open>internal/config/env.go\<close>: variables with the prefix \<open>RIDICULYTICS_\<close>
  override what the configuration file or the built-in defaults say. The errors are collected in
  the \<open>env\<close> record that every reader returns updated.

  \<open>readings\<close> lists the variables \<open>applyEnv\<close> reads and how each must parse; \<open>applyEnv_errors\<close> says
  that the errors it reports are exactly the malformed ones among them, in this order.
\<close>

section \<open>The code\<close>

definition EnvPrefix :: string where "EnvPrefix = ''RIDICULYTICS_''"

text \<open>The Unicode tables, as parameters: upper case and the case orbits.\<close>

record unicode =
  uc_lower :: "int \<Rightarrow> int"
  uc_upper :: "int \<Rightarrow> int"
  uc_orbit :: "int \<Rightarrow> int"

record env =
  env_get :: "string \<Rightarrow> string"
  env_errs :: "(string \<times> string) list"

definition env_fail :: "string \<Rightarrow> string \<Rightarrow> env \<Rightarrow> env" where
  "env_fail key val e = e\<lparr>env_errs := env_errs e @ [(EnvPrefix @ key, val)]\<rparr>"

definition env_raw :: "string \<Rightarrow> env \<Rightarrow> string \<times> bool" where
  "env_raw key e = (let v = TrimSpace (env_get e (EnvPrefix @ key)) in (v, v \<noteq> []))"

text \<open>The shape all readers have: nothing when unset, an error when malformed.\<close>

definition read_with :: "(string \<Rightarrow> 'a option) \<Rightarrow> string \<Rightarrow> 'a \<Rightarrow> env \<Rightarrow> 'a \<times> env" where
  "read_with parse key dst e =
     (let (v, ok) = env_raw key e in
      if \<not> ok then (dst, e)
      else (case parse v of None \<Rightarrow> (dst, env_fail key v e) | Some x \<Rightarrow> (x, e)))"

definition parse_uint32 :: "string \<Rightarrow> u32 option" where
  "parse_uint32 v = map_option word_of_int (ParseUint 32 v)"

definition parse_list :: "(int \<Rightarrow> int) \<Rightarrow> string \<Rightarrow> string list" where
  "parse_list orbit v =
     (if v = ''-'' \<or> EqualFold orbit v ''none'' then []
      else filter (\<lambda>p. p \<noteq> []) (map TrimSpace (Split v (CHR '',''))))"

definition env_str :: "string \<Rightarrow> string \<Rightarrow> env \<Rightarrow> string \<times> env" where "env_str = read_with Some"
definition env_int :: "string \<Rightarrow> int \<Rightarrow> env \<Rightarrow> int \<times> env" where "env_int = read_with Atoi"
definition env_int64 :: "string \<Rightarrow> int \<Rightarrow> env \<Rightarrow> int \<times> env" where "env_int64 = read_with ParseInt"
definition env_uint32 :: "string \<Rightarrow> u32 \<Rightarrow> env \<Rightarrow> u32 \<times> env" where "env_uint32 = read_with parse_uint32"
definition env_bool :: "string \<Rightarrow> bool \<Rightarrow> env \<Rightarrow> bool \<times> env" where "env_bool = read_with ParseBool"
definition env_duration :: "string \<Rightarrow> duration \<Rightarrow> env \<Rightarrow> duration \<times> env" where
  "env_duration = read_with ParseDuration"
definition env_list :: "(int \<Rightarrow> int) \<Rightarrow> string \<Rightarrow> string list option \<Rightarrow> env \<Rightarrow> string list option \<times> env" where
  "env_list orbit = read_with (\<lambda>v. Some (Some (parse_list orbit v)))"

definition site_char :: "int \<Rightarrow> char" where
  "site_char r = (if 65 \<le> r \<and> r \<le> 90 \<or> 48 \<le> r \<and> r \<le> 57 then char_of r else CHR ''_'')"

definition siteKey :: "(int \<Rightarrow> int) \<Rightarrow> string \<Rightarrow> string" where
  "siteKey upper domain = map (site_char \<circ> snd) (runes (ToUpper upper (TrimSpace domain)))"

definition applyEnvDefaults :: "(int \<Rightarrow> int) \<Rightarrow> string \<Rightarrow> defaults \<Rightarrow> env \<Rightarrow> defaults \<times> env" where
  "applyEnvDefaults orbit p d e =
     (let (x, e) = env_int (p @ ''PATH_CAP'') (PathCap d) e; d = d\<lparr>PathCap := x\<rparr>;
          (x, e) = env_int (p @ ''CROSS_PATH_CAP'') (CrossPathCap d) e; d = d\<lparr>CrossPathCap := x\<rparr>;
          (x, e) = env_int (p @ ''REFERRER_CAP'') (ReferrerCap d) e; d = d\<lparr>ReferrerCap := x\<rparr>;
          (x, e) = env_int (p @ ''ASN_CAP'') (ASNCap d) e; d = d\<lparr>ASNCap := x\<rparr>;
          (x, e) = env_int (p @ ''CAMPAIGN_CAP'') (CampaignCap d) e; d = d\<lparr>CampaignCap := x\<rparr>;
          (x, e) = env_int (p @ ''EVENT_CAP'') (EventCap d) e; d = d\<lparr>EventCap := x\<rparr>;
          (u, e) = env_uint32 (p @ ''ADMIT_MIN_COUNT'') (AdmitMinCount d) e; d = d\<lparr>AdmitMinCount := u\<rparr>;
          (l, e) = env_list orbit (p @ ''PATH_LABELS'') (PathLabels d) e; d = d\<lparr>PathLabels := l\<rparr>;
          (b, e) = env_bool (p @ ''UNIQUE_VISITORS_BY_PATH'') (UniqueVisitorsByPath d) e; d = d\<lparr>UniqueVisitorsByPath := b\<rparr>;
          (b, e) = env_bool (p @ ''REGION_ENABLED'') (RegionEnabled d) e; d = d\<lparr>RegionEnabled := b\<rparr>;
          (b, e) = env_bool (p @ ''CITY_ENABLED'') (CityEnabled d) e; d = d\<lparr>CityEnabled := b\<rparr>;
          (t, e) = env_duration (p @ ''SESSION_TTL'') (SessionTTL d) e; d = d\<lparr>SessionTTL := t\<rparr>;
          (t, e) = env_duration (p @ ''DECAY_AFTER'') (DecayAfter d) e; d = d\<lparr>DecayAfter := t\<rparr>;
          (s, e) = env_str (p @ ''TIMEZONE'') (Timezone d) e; d = d\<lparr>Timezone := s\<rparr>
      in (d, e))"

text \<open>\<open>findSite\<close> returns a pointer into the list: its index.\<close>

definition findSite :: "(int \<Rightarrow> int) \<Rightarrow> 're config \<Rightarrow> string \<Rightarrow> nat option" where
  "findSite orbit c domain =
     List.find (\<lambda>i. EqualFold orbit (Domain (Sites c ! i)) domain) [0..<length (Sites c)]"

definition blank_site :: "string \<Rightarrow> defaults \<Rightarrow> 're site" where
  "blank_site d def =
     \<lparr>Domain = d, Origins = [], PathRewrites = [], HMACKey = [], Defaults = def, originSet = [], site_loc = None\<rparr>"

text \<open>What the variables with one site's prefix make of it.\<close>

definition overlay_site :: "unicode \<Rightarrow> string \<Rightarrow> 're site \<Rightarrow> env \<Rightarrow> 're site \<times> env" where
  "overlay_site uc d s e =
     (let p = ''SITE_'' @ siteKey (uc_upper uc) d @ ''_'';
          (os, e) = env_list (uc_orbit uc) (p @ ''ORIGINS'') (Some (Origins s)) e; s = s\<lparr>Origins := the os\<rparr>;
          (k, e) = env_str (p @ ''HMAC_KEY'') (HMACKey s) e; s = s\<lparr>HMACKey := k\<rparr>;
          (df, e) = applyEnvDefaults (uc_orbit uc) p (Defaults s) e; s = s\<lparr>Defaults := df\<rparr>;
          s = (if Origins s = [] then s\<lparr>Origins := [''https://'' @ d, ''https://www.'' @ d]\<rparr> else s)
      in (s, e))"

definition overlay_domain :: "unicode \<Rightarrow> string \<Rightarrow> 're config \<times> env \<Rightarrow> 're config \<times> env" where
  "overlay_domain uc d0 ce =
     (let (c, e) = ce; d = ToLower (uc_lower uc) (TrimSpace d0) in
      if d = [] then (c, e)
      else
        (let (i, c) = (case findSite (uc_orbit uc) c d of
                Some i \<Rightarrow> (i, c)
              | None \<Rightarrow> (length (Sites c), c\<lparr>Sites := Sites c @ [blank_site d (cfg_Defaults c)]\<rparr>));
             (s, e) = overlay_site uc d (Sites c ! i) e
         in (c\<lparr>Sites := (Sites c)[i := s]\<rparr>, e)))"

definition overlay_server :: "server \<Rightarrow> env \<Rightarrow> server \<times> env" where
  "overlay_server sv e =
     (let (s, e) = env_str ''INGEST_ADDR'' (IngestAddr sv) e; sv = sv\<lparr>IngestAddr := s\<rparr>;
          (s, e) = env_str ''METRICS_ADDR'' (MetricsAddr sv) e; sv = sv\<lparr>MetricsAddr := s\<rparr>;
          (x, e) = env_int ''QUEUE_SIZE'' (QueueSize sv) e; sv = sv\<lparr>QueueSize := x\<rparr>;
          (x, e) = env_int ''WORKERS'' (Workers sv) e; sv = sv\<lparr>Workers := x\<rparr>;
          (x, e) = env_int64 ''MAX_BODY_BYTES'' (MaxBodyD sv) e; sv = sv\<lparr>MaxBodyD := x\<rparr>;
          (x, e) = env_int ''RATE_PER_MIN'' (RatePerMin sv) e; sv = sv\<lparr>RatePerMin := x\<rparr>;
          (t, e) = env_duration ''SALT_ROTATE'' (SaltRotate sv) e; sv = sv\<lparr>SaltRotate := t\<rparr>;
          (b, e) = env_bool ''SERVE_COUNTER_JS'' (ServeJS sv) e; sv = sv\<lparr>ServeJS := b\<rparr>;
          (b, e) = env_bool ''TRUST_PROXY'' (TrustProxy sv) e; sv = sv\<lparr>TrustProxy := b\<rparr>
      in (sv, e))"

definition overlay_geo :: "geo_config \<Rightarrow> env \<Rightarrow> geo_config \<times> env" where
  "overlay_geo g e =
     (let (s, e) = env_str ''GEO_PROVIDER'' (gc_Provider g) e; g = g\<lparr>gc_Provider := s\<rparr>;
          (s, e) = env_str ''GEO_CITY_DB'' (gc_CityDB g) e; g = g\<lparr>gc_CityDB := s\<rparr>;
          (s, e) = env_str ''GEO_COUNTRY_DB'' (gc_CountryDB g) e; g = g\<lparr>gc_CountryDB := s\<rparr>;
          (s, e) = env_str ''GEO_ASN_DB'' (gc_ASNDB g) e; g = g\<lparr>gc_ASNDB := s\<rparr>
      in (g, e))"

definition applyEnv :: "unicode \<Rightarrow> (string \<Rightarrow> string) \<Rightarrow> 're config \<Rightarrow> config_error + 're config" where
  "applyEnv uc getenv c =
     (let e = \<lparr>env_get = getenv, env_errs = []\<rparr>;
          (sv, e) = overlay_server (Server c) e; c = c\<lparr>Server := sv\<rparr>;
          (g, e) = overlay_geo (Geo c) e; c = c\<lparr>Geo := g\<rparr>;
          (df, e) = applyEnvDefaults (uc_orbit uc) [] (cfg_Defaults c) e; c = c\<lparr>cfg_Defaults := df\<rparr>;
          (ds, e) = env_list (uc_orbit uc) ''SITES'' None e;
          (c, e) = fold (overlay_domain uc) (case ds of None \<Rightarrow> [] | Some ds \<Rightarrow> ds) (c, e)
      in if env_errs e \<noteq> [] then Inl (EnvErrors (env_errs e)) else Inr c)"

definition LoadEnv :: "'re platform \<Rightarrow> unicode \<Rightarrow> (string \<Rightarrow> string) \<Rightarrow> config_error + 're config" where
  "LoadEnv pf uc getenv =
     (case applyEnv uc getenv newConfig of Inl e \<Rightarrow> Inl e | Inr c \<Rightarrow> finalize pf c)"

section \<open>What is read\<close>

type_synonym reading = "string \<times> (string \<Rightarrow> bool)"

definition parses :: "(string \<Rightarrow> 'a option) \<Rightarrow> string \<Rightarrow> bool" where
  "parses parse v \<longleftrightarrow> parse v \<noteq> None"

definition any_text :: "string \<Rightarrow> bool" where "any_text v = True"

definition server_readings :: "reading list" where
  "server_readings =
     [(''INGEST_ADDR'', any_text), (''METRICS_ADDR'', any_text), (''QUEUE_SIZE'', parses Atoi), (''WORKERS'', parses Atoi),
      (''MAX_BODY_BYTES'', parses ParseInt), (''RATE_PER_MIN'', parses Atoi), (''SALT_ROTATE'', parses ParseDuration),
      (''SERVE_COUNTER_JS'', parses ParseBool), (''TRUST_PROXY'', parses ParseBool),
      (''GEO_PROVIDER'', any_text), (''GEO_CITY_DB'', any_text), (''GEO_COUNTRY_DB'', any_text), (''GEO_ASN_DB'', any_text)]"

definition default_readings :: "string \<Rightarrow> reading list" where
  "default_readings p =
     map (\<lambda>(k, ok). (p @ k, ok))
     [(''PATH_CAP'', parses Atoi), (''CROSS_PATH_CAP'', parses Atoi), (''REFERRER_CAP'', parses Atoi),
      (''ASN_CAP'', parses Atoi), (''CAMPAIGN_CAP'', parses Atoi), (''EVENT_CAP'', parses Atoi),
      (''ADMIT_MIN_COUNT'', parses (ParseUint 32)), (''PATH_LABELS'', any_text), (''UNIQUE_VISITORS_BY_PATH'', parses ParseBool),
      (''REGION_ENABLED'', parses ParseBool), (''CITY_ENABLED'', parses ParseBool), (''SESSION_TTL'', parses ParseDuration),
      (''DECAY_AFTER'', parses ParseDuration), (''TIMEZONE'', any_text)]"

definition site_readings :: "unicode \<Rightarrow> string \<Rightarrow> reading list" where
  "site_readings uc d =
     (let p = ''SITE_'' @ siteKey (uc_upper uc) d @ ''_''
      in (p @ ''ORIGINS'', any_text) # (p @ ''HMAC_KEY'', any_text) # default_readings p)"

definition variable :: "(string \<Rightarrow> string) \<Rightarrow> string \<Rightarrow> string" where
  "variable getenv key = TrimSpace (getenv (EnvPrefix @ key))"

text \<open>The domains of the variable \<open>SITES\<close>, each as often as it is listed.\<close>

definition listed_domains :: "unicode \<Rightarrow> (string \<Rightarrow> string) \<Rightarrow> string list" where
  "listed_domains uc getenv =
     (let v = variable getenv ''SITES'' in
      filter (\<lambda>d. d \<noteq> []) (map (ToLower (uc_lower uc) \<circ> TrimSpace) (if v = [] then [] else parse_list (uc_orbit uc) v)))"

definition readings :: "unicode \<Rightarrow> (string \<Rightarrow> string) \<Rightarrow> reading list" where
  "readings uc getenv =
     server_readings @ default_readings [] @ [(''SITES'', any_text)] @
     concat (map (site_readings uc) (listed_domains uc getenv))"

definition malformed :: "(string \<Rightarrow> string) \<Rightarrow> reading list \<Rightarrow> (string \<times> string) list" where
  "malformed getenv rs =
     map (\<lambda>(k, ok). (EnvPrefix @ k, variable getenv k))
       (filter (\<lambda>(k, ok). variable getenv k \<noteq> [] \<and> \<not> ok (variable getenv k)) rs)"

text \<open>The environment record after some variables have been read.\<close>

definition having_read :: "reading list \<Rightarrow> env \<Rightarrow> env" where
  "having_read rs e = e\<lparr>env_errs := env_errs e @ malformed (env_get e) rs\<rparr>"

lemma having_read_append: "having_read rs' (having_read rs e) = having_read (rs @ rs') e"
  by (simp add: having_read_def malformed_def)

lemma having_read_get [simp]: "env_get (having_read rs e) = env_get e"
  by (simp add: having_read_def)

lemma having_read_Nil [simp]: "having_read [] e = e"
  by (simp add: having_read_def malformed_def)

text \<open>The value a reader leaves in its destination.\<close>

definition setting :: "(string \<Rightarrow> 'a option) \<Rightarrow> string \<Rightarrow> (string \<Rightarrow> string) \<Rightarrow> 'a \<Rightarrow> 'a" where
  "setting parse key getenv dst =
     (if variable getenv key = [] then dst else (case parse (variable getenv key) of None \<Rightarrow> dst | Some x \<Rightarrow> x))"

lemma read_with_eq:
  "read_with parse key dst e = (setting parse key (env_get e) dst, having_read [(key, parses parse)] e)"
  by (auto simp: read_with_def env_raw_def env_fail_def setting_def having_read_def malformed_def variable_def parses_def
      split: option.split)

lemma parses_total: "parses (\<lambda>v. Some (f v)) = any_text" "parses Some = any_text"
  by (auto simp: parses_def any_text_def)

lemma parses_uint32: "parses parse_uint32 = parses (ParseUint 32)"
  by (auto simp: parses_def parse_uint32_def)

named_theorems readers
lemmas [readers] = env_str_def env_int_def env_int64_def env_uint32_def env_bool_def env_duration_def env_list_def
  read_with_eq parses_total parses_uint32 having_read_append

lemma applyEnvDefaults_reads: "snd (applyEnvDefaults orbit p d e) = having_read (default_readings p) e"
  unfolding applyEnvDefaults_def Let_def by (simp add: readers default_readings_def)

lemma overlay_server_reads:
  "snd (overlay_geo g (snd (overlay_server sv e))) = having_read server_readings e"
  unfolding overlay_server_def overlay_geo_def Let_def by (simp add: readers server_readings_def)

lemma overlay_site_reads: "snd (overlay_site uc d s e) = having_read (site_readings uc d) e"
  using applyEnvDefaults_reads [of "uc_orbit uc"]
  unfolding overlay_site_def site_readings_def Let_def by (simp add: readers split_beta)

lemma overlay_domain_reads:
  "snd (overlay_domain uc d0 (c, e)) =
     (let d = ToLower (uc_lower uc) (TrimSpace d0) in if d = [] then e else having_read (site_readings uc d) e)"
  by (simp add: overlay_domain_def Let_def overlay_site_reads split_beta)

lemma overlay_domains_reads:
  "snd (fold (overlay_domain uc) ds (c, e)) =
     having_read (concat (map (site_readings uc) (filter (\<lambda>d. d \<noteq> []) (map (ToLower (uc_lower uc) \<circ> TrimSpace) ds)))) e"
proof (induction ds arbitrary: c e)
  case (Cons d ds)
  obtain c' e' where s: "overlay_domain uc d (c, e) = (c', e')" by force
  then have "e' = (let d = ToLower (uc_lower uc) (TrimSpace d) in if d = [] then e else having_read (site_readings uc d) e)"
    using overlay_domain_reads [of uc d c e] by simp
  with Cons s show ?case by (auto simp: Let_def having_read_append)
qed simp

text \<open>The configuration \<open>applyEnv\<close> builds, apart from the errors.\<close>

definition overlaid :: "unicode \<Rightarrow> (string \<Rightarrow> string) \<Rightarrow> 're config \<Rightarrow> 're config \<times> env" where
  "overlaid uc getenv c =
     (let e = \<lparr>env_get = getenv, env_errs = []\<rparr>;
          (sv, e) = overlay_server (Server c) e; c = c\<lparr>Server := sv\<rparr>;
          (g, e) = overlay_geo (Geo c) e; c = c\<lparr>Geo := g\<rparr>;
          (df, e) = applyEnvDefaults (uc_orbit uc) [] (cfg_Defaults c) e; c = c\<lparr>cfg_Defaults := df\<rparr>;
          (ds, e) = env_list (uc_orbit uc) ''SITES'' None e
      in fold (overlay_domain uc) (case ds of None \<Rightarrow> [] | Some ds \<Rightarrow> ds) (c, e))"

lemma applyEnv_overlaid:
  "applyEnv uc getenv c =
     (let (c', e) = overlaid uc getenv c in if env_errs e \<noteq> [] then Inl (EnvErrors (env_errs e)) else Inr c')"
  by (simp add: applyEnv_def overlaid_def Let_def split_beta)

lemma overlaid_reads: "env_errs (snd (overlaid uc getenv c)) = malformed getenv (readings uc getenv)"
proof -
  let ?e = "\<lparr>env_get = getenv, env_errs = []\<rparr>"
  obtain sv e1 where 1: "overlay_server (Server c) ?e = (sv, e1)" by force
  obtain g e2 where 2: "overlay_geo (Geo c) e1 = (g, e2)" by force
  obtain df e3 where 3: "applyEnvDefaults (uc_orbit uc) [] (cfg_Defaults c) e2 = (df, e3)" by force
  have "e2 = having_read server_readings ?e" using overlay_server_reads [of "Geo c" "Server c" ?e] 1 2 by simp
  then have e3: "e3 = having_read (server_readings @ default_readings []) ?e"
    using applyEnvDefaults_reads [of "uc_orbit uc" "[]" "cfg_Defaults c" e2] 3 by (simp add: having_read_append)
  show ?thesis
    by (simp add: overlaid_def 1 2 3 Let_def e3 readers overlay_domains_reads setting_def readings_def listed_domains_def)
      (simp add: having_read_def)
qed

section \<open>One variable\<close>

lemma read_unset: "variable (env_get e) key = [] \<Longrightarrow> read_with parse key dst e = (dst, e)"
  by (simp add: read_with_def env_raw_def variable_def)

lemmas unset_readers = env_str_def env_int_def env_int64_def env_uint32_def env_bool_def env_duration_def env_list_def read_unset

lemma applyEnvDefaults_unset:
  "\<forall>k. p @ k \<noteq> ''SITES'' \<longrightarrow> variable (env_get e) (p @ k) = [] \<Longrightarrow> applyEnvDefaults orbit p d e = (d, e)"
proof -
  assume a: "\<forall>k. p @ k \<noteq> ''SITES'' \<longrightarrow> variable (env_get e) (p @ k) = []"
  have u: "variable (env_get e) (p @ k) = []" if "last k \<noteq> CHR ''S'' \<or> p @ k \<noteq> ''SITES''" "k \<noteq> []" for k
    using a that by (metis last.simps last_appendR list.distinct(1))
  show ?thesis
    unfolding applyEnvDefaults_def Let_def by (simp add: unset_readers u append_eq_Cons_conv)
qed

lemma overlay_server_unset: "\<forall>k. k \<noteq> ''SITES'' \<longrightarrow> variable (env_get e) k = [] \<Longrightarrow> overlay_server sv e = (sv, e)"
  unfolding overlay_server_def Let_def by (simp add: unset_readers)

lemma overlay_geo_unset: "\<forall>k. k \<noteq> ''SITES'' \<longrightarrow> variable (env_get e) k = [] \<Longrightarrow> overlay_geo g e = (g, e)"
  unfolding overlay_geo_def Let_def by (simp add: unset_readers)

text \<open>The environment with \<open>RIDICULYTICS_SITES\<close> set and nothing else.\<close>

definition only_sites :: "string \<Rightarrow> string \<Rightarrow> string" where
  "only_sites v name = (if name = ''RIDICULYTICS_SITES'' then v else [])"

lemma variable_only_sites: "variable (only_sites v) k = (if k = ''SITES'' then TrimSpace v else [])"
  by (simp add: variable_def only_sites_def EnvPrefix_def TrimSpace_def)

lemma overlay_site_unset:
  "env_get e = only_sites v \<Longrightarrow> overlay_site uc d (blank_site d def) e =
     ((blank_site d def)\<lparr>Origins := [''https://'' @ d, ''https://www.'' @ d]\<rparr>, e)"
  unfolding overlay_site_def Let_def
  by (simp add: unset_readers applyEnvDefaults_unset variable_only_sites blank_site_def)

definition plain_domain :: "string \<Rightarrow> bool" where
  "plain_domain d \<longleftrightarrow>
     d \<noteq> [] \<and> list_all (\<lambda>c. 97 \<le> byte c \<and> byte c \<le> 122 \<or> is_digit c \<or> c = CHR ''.'' \<or> c = CHR ''-'') d"

lemma settled_bytes:
  assumes "\<forall>c \<in> set s. byte c < 0x80 \<and> \<not> is_space (byte c) \<and> lower_byte c = c"
  shows "is_ascii s" "TrimSpace s = s" "ToLower lower s = s"
proof -
  show a: "is_ascii s" using assms by (simp add: is_ascii_def)
  have "dropWhile (is_space \<circ> byte) t = t" if "set t \<subseteq> set s" for t
    using that assms by (cases t) auto
  then show "TrimSpace s = s" by (simp add: TrimSpace_ascii [OF a])
  show "ToLower lower s = s" using a assms by (simp add: ToLower_def map_idI)
qed

lemma plain_domain_bytes:
  assumes "plain_domain d"
  shows "is_ascii d" "TrimSpace d = d" "ToLower lower d = d" "CHR '','' \<notin> set d" "CHR ''/'' \<notin> set d"
    "\<forall>c \<in> set d. byte c < 0x80 \<and> \<not> is_space (byte c) \<and> lower_byte c = c"
proof -
  have b: "46 = byte c \<or> 45 = byte c \<or> 48 \<le> byte c \<and> byte c \<le> 57 \<or> 97 \<le> byte c \<and> byte c \<le> 122" if "c \<in> set d" for c
    using assms that by (auto simp: plain_domain_def list_all_iff is_digit_def)
  then have settled: "\<forall>c \<in> set d. byte c < 0x80 \<and> \<not> is_space (byte c) \<and> lower_byte c = c"
    by (fastforce simp: is_space_def lower_byte_def)
  show "CHR '','' \<notin> set d" "CHR ''/'' \<notin> set d" using b by fastforce+
  show "\<forall>c \<in> set d. byte c < 0x80 \<and> \<not> is_space (byte c) \<and> lower_byte c = c" by (rule settled)
  show "is_ascii d" "TrimSpace d = d" "ToLower lower d = d" by (rule settled_bytes [OF settled])+
qed

lemma overlaid_one:
  assumes "plain_domain d" "d \<noteq> ''-''" "\<not> EqualFold (uc_orbit uc) d ''none''" and True: "Sites c = []"
  shows "applyEnv uc (only_sites d) c =
    Inr (c\<lparr>Sites := [(blank_site d (cfg_Defaults c))\<lparr>Origins := [''https://'' @ d, ''https://www.'' @ d]\<rparr>]\<rparr>)"
proof -
  note b = plain_domain_bytes [OF assms(1)]
  have ne: "d \<noteq> []" using assms(1) by (simp add: plain_domain_def)
  have l: "parse_list (uc_orbit uc) d = [d]" using assms b ne by (simp add: parse_list_def Split_id)
  let ?e = "\<lparr>env_get = only_sites d, env_errs = []\<rparr>"
  have "env_list (uc_orbit uc) ''SITES'' None ?e = (Some [d], ?e)"
    using l b ne by (simp add: readers setting_def variable_only_sites having_read_def malformed_def any_text_def)
  moreover have "overlay_domain uc d (c, ?e) =
      (c\<lparr>Sites := [(blank_site d (cfg_Defaults c))\<lparr>Origins := [''https://'' @ d, ''https://www.'' @ d]\<rparr>]\<rparr>, ?e)"
    using True b ne by (simp add: overlay_domain_def findSite_def Let_def overlay_site_unset)
  moreover have "applyEnvDefaults (uc_orbit uc) [] (cfg_Defaults c) ?e = (cfg_Defaults c, ?e)"
    by (intro applyEnvDefaults_unset) (simp add: variable_only_sites)
  ultimately show ?thesis
    by (simp add: applyEnv_def Let_def overlay_server_unset overlay_geo_unset variable_only_sites)
qed

section \<open>Properties\<close>

text \<open>
  C34: An invalid environment is reported whole. \<open>applyEnv\<close> fails exactly when some variable it reads
  is set and malformed, and then its error names every malformed variable with its value, in the
  order they are read, the per-site ones of every listed domain included; no variable hides the
  error of another.
\<close>

theorem env_errors_all_reported:
  "applyEnv uc getenv c =
     (case malformed getenv (readings uc getenv) of
        [] \<Rightarrow> Inr (fst (overlaid uc getenv c))
      | bad # others \<Rightarrow> Inl (EnvErrors (bad # others)))"
  by (simp add: applyEnv_overlaid Let_def split_beta overlaid_reads split: list.split)

text \<open>
  One variable is a deployment. With \<open>RIDICULYTICS_SITES\<close> set to one host name and nothing else
  in the environment, \<open>LoadEnv\<close> succeeds with one site of that domain, found by its name in any
  case, which accepts events from \<open>https://<domain>\<close> and \<open>https://www.<domain>\<close> and from no other
  origin up to letter case and one trailing slash.
\<close>

theorem one_variable_deployment:
  assumes "plain_domain d" "d \<noteq> ''-''" "\<not> EqualFold (uc_orbit uc) d ''none''" "pf_LoadLocation pf ''UTC'' \<noteq> None"
  shows "\<exists>c s. LoadEnv pf uc (only_sites d) = Inr c \<and> Sites c = [s] \<and> config_Site pf c d = Some s \<and> Domain s = d \<and>
    knobs_set (Defaults s) \<and>
    (\<forall>origin. AllowsOrigin pf s origin \<longleftrightarrow>
       ToLower (pf_lower pf) (TrimSuffix origin ''/'') \<in> {''https://'' @ d, ''https://www.'' @ d})"
proof -
  let ?c = "newConfig :: 'a config"
  let ?site = "(blank_site d (cfg_Defaults ?c))\<lparr>Origins := [''https://'' @ d, ''https://www.'' @ d]\<rparr> :: 'a site"
  let ?c1 = "?c\<lparr>Sites := [?site]\<rparr>"
  let ?g = "global_defaults ?c1"
  note b = plain_domain_bytes [OF assms(1)]
  have ne: "d \<noteq> []" using assms(1) by (simp add: plain_domain_def)
  have applied: "applyEnv uc (only_sites d) ?c = Inr ?c1"
    using assms by (intro overlaid_one) (simp_all add: newConfig_def)
  have key: "domain_key pf ?site = d" using b by (simp add: domain_key_def blank_site_def)
  have "set (site_labels ?g ?site) \<subseteq> set AllDimensions"
    by (simp add: site_labels_def blank_site_def newConfig_def builtin_defaults_def AllDimensions_def)
  moreover have "site_timezone ?g ?site = ''UTC''"
    by (simp add: site_timezone_def blank_site_def newConfig_def builtin_defaults_def)
  ultimately have ok: "acceptable pf ?g ?site"
    using assms(4) ne key by (auto simp: acceptable_def blank_site_def)
  define c where "c = ?c1\<lparr>cfg_Defaults := ?g, Sites := [built_site pf ?g ?site], cfg_sites := [(d, built_site pf ?g ?site)]\<rparr>"
  have fin: "finalize pf ?c1 = Inr c"
    unfolding finalize_Inr using ok key by (simp add: c_def)
  then have load: "LoadEnv pf uc (only_sites d) = Inr c" by (simp add: LoadEnv_def applied)
  let ?s = "built_site pf ?g ?site"
  have origins: "origin_key pf o' = o'" if "o' \<in> {''https://'' @ d, ''https://www.'' @ d}" for o'
  proof -
    have "\<forall>c \<in> set ''https://www.''. byte c < 0x80 \<and> \<not> is_space (byte c) \<and> lower_byte c = c"
      by (simp add: is_space_def lower_byte_def)
    then have "\<forall>c \<in> set o'. byte c < 0x80 \<and> \<not> is_space (byte c) \<and> lower_byte c = c"
      using that b(6) by auto
    note settled = settled_bytes [OF this]
    have "last d \<noteq> CHR ''/''" using b(5) last_in_set [OF ne] by metis
    then have "last o' \<noteq> CHR ''/''" using that ne by auto
    then have "\<not> HasSuffix o' ''/''" by (auto simp: HasSuffix_iff)
    then show ?thesis by (simp add: origin_key_def settled TrimSuffix_def)
  qed
  have "AllowsOrigin pf ?s origin \<longleftrightarrow>
       ToLower (pf_lower pf) (TrimSuffix origin ''/'') \<in> {''https://'' @ d, ''https://www.'' @ d}" for origin
    using origin_set_dom [of pf ?site "ToLower (pf_lower pf) (TrimSuffix origin ''/'')"] origins
      origin_set_nonempty [of ?site pf] by (simp add: AllowsOrigin_def) 
  moreover have "config_Site pf c d = Some ?s" using b by (simp add: config_Site_def c_def)
  ultimately show ?thesis
    using load key knobs_set_fillZero [OF knobs_set_global] by (intro exI [of _ c] exI [of _ ?s]) (simp add: c_def)
qed

theorem one_variable_deployment_witness:
  "\<exists>c s. LoadEnv plain_platform \<lparr>uc_lower = id, uc_upper = id, uc_orbit = id\<rparr> (only_sites ''example.org'') = Inr c \<and>
     config_Site plain_platform c ''example.org'' = Some s"
proof -
  have "plain_domain ''example.org''" "pf_LoadLocation plain_platform ''UTC'' \<noteq> None"
    by (simp_all add: plain_domain_def is_digit_def plain_platform_def)
  moreover have "\<not> EqualFold (uc_orbit \<lparr>uc_lower = id, uc_upper = id, uc_orbit = id\<rparr>) ''example.org'' ''none''"
    by code_simp
  ultimately show ?thesis
    using one_variable_deployment [of "''example.org''" "\<lparr>uc_lower = id, uc_upper = id, uc_orbit = id\<rparr>" plain_platform] by auto
qed

end
