(* ===== verification/Store.thy ===== *)
theory Store
  imports Env
begin

text \<open>
  The live configuration, \<open>Load\<close> and \<open>Store\<close> of \<open>internal/config/config.go\<close>. The files and the
  environment of a moment are the record \<open>surroundings\<close>; the YAML decoder is a parameter that fills
  a configuration or fails. \<open>reload_keeps_last_good\<close>: whatever the files become, the store serves
  the last configuration that loaded.
\<close>

section \<open>The code\<close>

record surroundings =
  sr_files :: "string \<Rightarrow> string option"
  sr_env :: "string \<Rightarrow> string"

record 're loader =
  ld_platform :: "'re platform"
  ld_unicode :: unicode
  ld_yaml :: "string \<Rightarrow> 're config \<Rightarrow> 're config option"

definition Load :: "'re loader \<Rightarrow> surroundings \<Rightarrow> string \<Rightarrow> config_error + 're config" where
  "Load ld sr path =
     (case sr_files sr path of
        None \<Rightarrow> Inl ReadError
      | Some raw \<Rightarrow>
          (case ld_yaml ld raw newConfig of
             None \<Rightarrow> Inl ParseError
           | Some c \<Rightarrow>
               (case applyEnv (ld_unicode ld) (sr_env sr) c of
                  Inl e \<Rightarrow> Inl e
                | Inr c \<Rightarrow> finalize (ld_platform ld) c)))"

record 're store =
  st_path :: string
  st_cur :: "'re config option"

definition store_load :: "'re loader \<Rightarrow> surroundings \<Rightarrow> 're store \<Rightarrow> config_error + 're config" where
  "store_load ld sr s =
     (if st_path s = [] then LoadEnv (ld_platform ld) (ld_unicode ld) (sr_env sr)
      else Load ld sr (st_path s))"

definition NewStore :: "'re loader \<Rightarrow> surroundings \<Rightarrow> string \<Rightarrow> config_error + 're store" where
  "NewStore ld sr path =
     (let s = \<lparr>st_path = path, st_cur = None\<rparr> in
      case store_load ld sr s of
        Inl e \<Rightarrow> Inl e
      | Inr c \<Rightarrow> Inr (s\<lparr>st_cur := Some c\<rparr>))"

text \<open>\<open>Get\<close>; a store \<open>NewStore\<close> returned always has a configuration.\<close>

definition store_Get :: "'re store \<Rightarrow> 're config option" where
  "store_Get s = st_cur s"

definition Reload :: "'re loader \<Rightarrow> surroundings \<Rightarrow> 're store \<Rightarrow> config_error option \<times> 're store" where
  "Reload ld sr s =
     (case store_load ld sr s of
        Inl e \<Rightarrow> (Some e, s)
      | Inr c \<Rightarrow> (None, s\<lparr>st_cur := Some c\<rparr>))"

section \<open>Lemmas\<close>

lemma store_load_path: "st_path s = st_path s' \<Longrightarrow> store_load ld sr s = store_load ld sr s'"
  by (simp add: store_load_def)

lemma loaded_is_finalized: "store_load ld sr s = Inr c \<Longrightarrow> \<exists>c0. finalize (ld_platform ld) c0 = Inr c"
  by (auto simp: store_load_def Load_def LoadEnv_def split: if_splits option.splits sum.splits)

lemma Reload_eq:
  "snd (Reload ld sr s) = (case store_load ld sr s of Inl e \<Rightarrow> s | Inr c \<Rightarrow> s\<lparr>st_cur := Some c\<rparr>)"
  "fst (Reload ld sr s) = (case store_load ld sr s of Inl e \<Rightarrow> Some e | Inr c \<Rightarrow> None)"
  "st_path (snd (Reload ld sr s)) = st_path s"
  by (simp_all add: Reload_def split: sum.split)

text \<open>The configurations that loaded, in order.\<close>

definition loaded :: "'re loader \<Rightarrow> string \<Rightarrow> surroundings list \<Rightarrow> 're config list" where
  "loaded ld path srs =
     List.map_filter (\<lambda>sr. case store_load ld sr \<lparr>st_path = path, st_cur = None\<rparr> of Inl _ \<Rightarrow> None | Inr c \<Rightarrow> Some c) srs"

lemma loaded_finalized: "c \<in> set (loaded ld path srs) \<Longrightarrow> \<exists>c0. finalize (ld_platform ld) c0 = Inr c"
proof (induction srs)
  case (Cons sr srs)
  then show ?case
    using loaded_is_finalized [of ld sr "\<lparr>st_path = path, st_cur = None\<rparr>"]
    by (cases "store_load ld sr \<lparr>st_path = path, st_cur = None\<rparr>") (auto simp: loaded_def List.map_filter_simps)
qed (simp add: loaded_def List.map_filter_simps)

lemma reloads_latest:
  assumes "st_cur s = Some c" and "st_path s = path"
  shows "st_cur (fold (\<lambda>sr s. snd (Reload ld sr s)) srs s) = Some (last (c # loaded ld path srs))"
  using assms
proof (induction srs arbitrary: s c)
  case (Cons sr srs)
  have "store_load ld sr s = store_load ld sr \<lparr>st_path = path, st_cur = None\<rparr>"
    using Cons.prems(2) by (intro store_load_path) simp
  with Cons show ?case by (auto simp: Reload_eq loaded_def List.map_filter_simps split: sum.split)
qed (simp add: loaded_def List.map_filter_simps)

section \<open>Properties\<close>

text \<open>
  A bad reload never takes the configuration down. After a successful start and any reloads,
  whatever the file and the environment were at each of them, the store serves the configuration
  of the last load that succeeded, and that configuration was accepted by \<open>finalize\<close>; the reloads
  that failed report an error and change nothing.
\<close>

theorem reload_keeps_last_good:
  assumes "NewStore ld sr0 path = Inr s0" and "s = fold (\<lambda>sr s. snd (Reload ld sr s)) srs s0"
  shows "store_Get s = Some (last (loaded ld path (sr0 # srs))) \<and>
    (\<exists>c0. finalize (ld_platform ld) c0 = Inr (last (loaded ld path (sr0 # srs)))) \<and>
    (\<forall>sr. fst (Reload ld sr s) \<noteq> None \<longrightarrow> snd (Reload ld sr s) = s)"
proof -
  obtain c where c: "store_load ld sr0 \<lparr>st_path = path, st_cur = None\<rparr> = Inr c" "s0 = \<lparr>st_path = path, st_cur = Some c\<rparr>"
    using assms(1) by (cases "store_load ld sr0 \<lparr>st_path = path, st_cur = None\<rparr>") (simp_all add: NewStore_def)
  then have first: "loaded ld path (sr0 # srs) = c # loaded ld path srs"
    by (simp add: loaded_def List.map_filter_simps)
  have "store_Get s = Some (last (loaded ld path (sr0 # srs)))"
    using reloads_latest [of s0 c path ld srs] c(2) unfolding first assms(2) store_Get_def by simp
  moreover have "last (loaded ld path (sr0 # srs)) \<in> set (loaded ld path (sr0 # srs))"
    unfolding first by (rule last_in_set) simp
  then have "\<exists>c0. finalize (ld_platform ld) c0 = Inr (last (loaded ld path (sr0 # srs)))"
    by (rule loaded_finalized)
  moreover have "fst (Reload ld sr s) \<noteq> None \<longrightarrow> snd (Reload ld sr s) = s" for sr
    by (simp add: Reload_eq split: sum.split)
  ultimately show ?thesis by blast
qed

text \<open>A loader whose file is the word of a domain, for the witness.\<close>

definition toy_loader :: "string loader" where
  "toy_loader = \<lparr>ld_platform = plain_platform, ld_unicode = \<lparr>uc_lower = id, uc_upper = id, uc_orbit = id\<rparr>,
     ld_yaml = (\<lambda>raw c. if raw = ''broken'' then None else Some (c\<lparr>Sites := [example_site]\<rparr>))\<rparr>"

definition toy_surroundings :: "string \<Rightarrow> surroundings" where
  "toy_surroundings content = \<lparr>sr_files = (\<lambda>p. Some content), sr_env = (\<lambda>_. [])\<rparr>"

lemma applyEnv_unset: "applyEnv uc (\<lambda>_. []) c = Inr c"
proof -
  have "variable (\<lambda>_. []) k = []" for k by (simp add: variable_def TrimSpace_def)
  then show ?thesis
    by (simp add: applyEnv_def Let_def overlay_server_unset overlay_geo_unset applyEnvDefaults_unset env_list_def read_unset)
qed

lemma toy_load:
  "p \<noteq> [] \<Longrightarrow> content \<noteq> ''broken'' \<Longrightarrow> \<exists>c. store_load toy_loader (toy_surroundings content) \<lparr>st_path = p, st_cur = x\<rparr> = Inr c"
  using example_finalized
  by (simp add: store_load_def Load_def toy_loader_def toy_surroundings_def applyEnv_unset example_config_def [symmetric])

theorem reload_keeps_last_good_witness:
  "\<exists>s0. NewStore toy_loader (toy_surroundings ''ok'') ''sites.yaml'' = Inr s0 \<and>
     store_Get (snd (Reload toy_loader (toy_surroundings ''broken'') s0)) =
       Some (last (loaded toy_loader ''sites.yaml'' [toy_surroundings ''ok'', toy_surroundings ''broken'']))"
proof -
  obtain s0 where "NewStore toy_loader (toy_surroundings ''ok'') ''sites.yaml'' = Inr s0"
    using toy_load [of "''sites.yaml''" "''ok''" None] by (auto simp: NewStore_def Let_def)
  with reload_keeps_last_good [OF this refl, of "[toy_surroundings ''broken'']"] show ?thesis by auto
qed

end
