(* ===== verification/Geo.thy ===== *)
theory Geo
  imports Netip
begin

text \<open>
  Geolocation, \<open>internal/geo/geo.go\<close>: the providers \<open>Null\<close> and \<open>MMDB\<close>. The MaxMind reader is
  third-party: a database is a value of a type parameter, a file may open as one, and what a lookup
  in one finds is the record \<open>mmdb_lib\<close>. A reader is a database with the number of its handle; the
  handles that are open are the record \<open>heap\<close>.

  \<^item> \<open>provider\<close>: the interface, interpreted for both providers.
  \<^item> \<open>readers_neither_leak_nor_dangle\<close>: between operations the open handles are exactly those held.
  \<^item> \<open>geo_step\<close>: lookups in flight beside a reload, as interleaved critical sections;
    \<open>lookup_may_use_closed_reader\<close>.
\<close>

section \<open>The code\<close>

record geo_result =
  gr_Country :: string
  gr_Region :: string
  gr_City :: string
  gr_ASN :: string
  gr_ASOrg :: string

definition no_geo :: geo_result where
  "no_geo = \<lparr>gr_Country = [], gr_Region = [], gr_City = [], gr_ASN = [], gr_ASOrg = []\<rparr>"

record 'db reader =
  rd_handle :: nat
  rd_db :: 'db

record heap =
  hp_next :: nat
  hp_open :: "nat list"

record 'db mmdb =
  mm_cityPath :: string
  mm_countryPath :: string
  mm_asnPath :: string
  mm_city :: "'db reader option"
  mm_country :: "'db reader option"
  mm_asn :: "'db reader option"
  mm_loaded :: time

text \<open>The records the lookups decode into; \<open>names\<close> maps are in some order.\<close>

record cityRecord =
  cr_ISOCode :: string
  cr_Subdivisions :: "(string, string) gomap list"
  cr_City :: "(string, string) gomap"

record asnRecord =
  ar_Number :: nat
  ar_Org :: string
  ar_AltNumber :: nat
  ar_AltOrg :: string

record 'db mmdb_lib =
  ml_city :: "'db \<Rightarrow> addr \<Rightarrow> cityRecord option"
  ml_country :: "'db \<Rightarrow> addr \<Rightarrow> string option"
  ml_asn :: "'db \<Rightarrow> addr \<Rightarrow> asnRecord option"

text \<open>A file that is there may still not open.\<close>

type_synonym 'db files = "string \<Rightarrow> 'db option option"

text \<open>The function \<open>open\<close> inside \<open>Reload\<close>.\<close>

definition open_db :: "'db files \<Rightarrow> string \<Rightarrow> heap \<Rightarrow> 'db reader option option \<times> heap" where
  "open_db fs p h =
     (if p = [] then (Some None, h)
      else (case fs p of
          None \<Rightarrow> (None, h)
        | Some None \<Rightarrow> (None, h)
        | Some (Some db) \<Rightarrow>
            (Some (Some \<lparr>rd_handle = hp_next h, rd_db = db\<rparr>),
             h\<lparr>hp_next := Suc (hp_next h), hp_open := hp_next h # hp_open h\<rparr>)))"

definition close_reader :: "'db reader \<Rightarrow> heap \<Rightarrow> heap" where
  "close_reader r h = h\<lparr>hp_open := removeAll (rd_handle r) (hp_open h)\<rparr>"

definition closeAll :: "'db reader option list \<Rightarrow> heap \<Rightarrow> heap" where
  "closeAll rs h = fold (\<lambda>r h. case r of None \<Rightarrow> h | Some r \<Rightarrow> close_reader r h) rs h"

text \<open>The first half of \<open>Reload\<close>, without the lock: all three databases, or none.\<close>

definition open_all ::
  "'db files \<Rightarrow> 'db mmdb \<Rightarrow> heap \<Rightarrow> ('db reader option \<times> 'db reader option \<times> 'db reader option) option \<times> heap" where
  "open_all fs m h =
     (case open_db fs (mm_cityPath m) h of
        (None, h) \<Rightarrow> (None, h)
      | (Some city, h) \<Rightarrow>
          (case open_db fs (mm_countryPath m) h of
             (None, h) \<Rightarrow> (None, closeAll [city] h)
           | (Some country, h) \<Rightarrow>
               (case open_db fs (mm_asnPath m) h of
                  (None, h) \<Rightarrow> (None, closeAll [city, country] h)
                | (Some asn, h) \<Rightarrow> (Some (city, country, asn), h))))"

definition held :: "'db mmdb \<Rightarrow> 'db reader option list" where
  "held m = [mm_city m, mm_country m, mm_asn m]"

text \<open>The critical section of \<open>Reload\<close>: the readers to close, and the provider.\<close>

definition swap ::
  "'db reader option \<times> 'db reader option \<times> 'db reader option \<Rightarrow> time \<Rightarrow> 'db mmdb \<Rightarrow> 'db reader option list \<times> 'db mmdb" where
  "swap rs clock m =
     (let (city, country, asn) = rs
      in (held m, m\<lparr>mm_city := city, mm_country := country, mm_asn := asn, mm_loaded := clock\<rparr>))"

text \<open>\<open>Reload\<close>: whether it succeeded, the provider and the open handles.\<close>

definition mmdb_Reload :: "'db files \<times> time \<Rightarrow> 'db mmdb \<times> heap \<Rightarrow> bool \<times> 'db mmdb \<times> heap" where
  "mmdb_Reload w mh =
     (let (fs, clock) = w; (m, h) = mh in
      case open_all fs m h of
        (None, h) \<Rightarrow> (False, m, h)
      | (Some rs, h) \<Rightarrow> (let (old, m) = swap rs clock m in (True, m, closeAll old h)))"

definition mmdb_Open :: "string \<Rightarrow> string \<Rightarrow> string \<Rightarrow> 'db files \<times> time \<Rightarrow> heap \<Rightarrow> 'db mmdb option \<times> heap" where
  "mmdb_Open cityPath countryPath asnPath w h =
     (let m = \<lparr>mm_cityPath = cityPath, mm_countryPath = countryPath, mm_asnPath = asnPath,
                mm_city = None, mm_country = None, mm_asn = None, mm_loaded = zero_time\<rparr>;
          (ok, m, h) = mmdb_Reload w (m, h)
      in (if ok then Some m else None, h))"

definition pickName :: "(string, string) gomap \<Rightarrow> string" where
  "pickName names =
     (case map_of names ''en'' of Some n \<Rightarrow> n | None \<Rightarrow> (case names of [] \<Rightarrow> [] | (_, n) # _ \<Rightarrow> n))"

definition city_result :: "'db mmdb_lib \<Rightarrow> 'db reader option \<Rightarrow> 'db reader option \<Rightarrow> addr \<Rightarrow> geo_result" where
  "city_result lib city country ip =
     (case (city, country) of
        (Some r, _) \<Rightarrow>
          (case ml_city lib (rd_db r) ip of
             None \<Rightarrow> no_geo
           | Some rec \<Rightarrow> no_geo\<lparr>gr_Country := cr_ISOCode rec, gr_City := pickName (cr_City rec),
               gr_Region := (case cr_Subdivisions rec of [] \<Rightarrow> [] | names # _ \<Rightarrow> pickName names)\<rparr>)
      | (None, Some r) \<Rightarrow>
          (case ml_country lib (rd_db r) ip of None \<Rightarrow> no_geo | Some code \<Rightarrow> no_geo\<lparr>gr_Country := code\<rparr>)
      | (None, None) \<Rightarrow> no_geo)"

definition asn_result :: "'db mmdb_lib \<Rightarrow> 'db reader option \<Rightarrow> addr \<Rightarrow> geo_result \<Rightarrow> geo_result" where
  "asn_result lib asn ip out =
     (case asn of
        None \<Rightarrow> out
      | Some r \<Rightarrow>
          (case ml_asn lib (rd_db r) ip of
             None \<Rightarrow> out
           | Some rec \<Rightarrow>
               (let (num, org) = (if ar_Number rec = 0 then (ar_AltNumber rec, ar_AltOrg rec) else (ar_Number rec, ar_Org rec))
                in if num \<noteq> 0 then out\<lparr>gr_ASN := FormatUint num, gr_ASOrg := org\<rparr> else out)))"

definition mmdb_Lookup :: "'db mmdb_lib \<Rightarrow> 'db mmdb \<Rightarrow> addr \<Rightarrow> geo_result" where
  "mmdb_Lookup lib m ip =
     (if \<not> IsValid ip then no_geo
      else asn_result lib (mm_asn m) ip (city_result lib (mm_city m) (mm_country m) ip))"

definition mmdb_DBAge :: "time \<Rightarrow> 'db mmdb \<Rightarrow> duration" where
  "mmdb_DBAge now m = (if mm_loaded m = zero_time then 0 else time_sub now (mm_loaded m))"

definition mmdb_Close :: "'db mmdb \<times> heap \<Rightarrow> 'db mmdb \<times> heap" where
  "mmdb_Close mh =
     (let (m, h) = mh in (m\<lparr>mm_city := None, mm_country := None, mm_asn := None\<rparr>, closeAll (held m) h))"

text \<open>The provider \<open>Null\<close>.\<close>

definition null_Lookup :: "unit \<Rightarrow> addr \<Rightarrow> geo_result" where "null_Lookup n ip = no_geo"
definition null_DBAge :: "unit \<Rightarrow> duration" where "null_DBAge n = 0"
definition null_Reload :: "'w \<Rightarrow> unit \<Rightarrow> bool \<times> unit" where "null_Reload w n = (True, n)"
definition null_Close :: "unit \<Rightarrow> unit" where "null_Close n = n"

section \<open>Handles\<close>

definition handles :: "'db reader option list \<Rightarrow> nat set" where
  "handles rs = {rd_handle r | r. Some r \<in> set rs}"

lemma handles_simps [simp]:
  "handles [] = {}" "handles (None # rs) = handles rs" "handles (Some r # rs) = insert (rd_handle r) (handles rs)"
  by (auto simp: handles_def)

lemma handles_Cons: "handles (r # rs) = handles [r] \<union> handles rs"
  by (cases r) simp_all

lemma closeAll_simps [simp]:
  "set (hp_open (closeAll rs h)) = set (hp_open h) - handles rs" "hp_next (closeAll rs h) = hp_next h"
proof -
  have "set (hp_open (closeAll rs h)) = set (hp_open h) - handles rs \<and> hp_next (closeAll rs h) = hp_next h"
    unfolding closeAll_def
  proof (induction rs arbitrary: h)
    case (Cons r rs)
    then show ?case by (cases r) (auto simp: close_reader_def)
  qed simp
  then show "set (hp_open (closeAll rs h)) = set (hp_open h) - handles rs" "hp_next (closeAll rs h) = hp_next h"
    by simp_all
qed

text \<open>Handles are numbered as they are opened.\<close>

definition heap_ok :: "heap \<Rightarrow> bool" where
  "heap_ok h \<longleftrightarrow> (\<forall>i \<in> set (hp_open h). i < hp_next h)"

lemma heap_ok_closeAll: "heap_ok h \<Longrightarrow> heap_ok (closeAll rs h)"
  by (simp add: heap_ok_def)

lemma open_db_cases:
  assumes "open_db fs p h = (res, h')"
  obtains "res = None" "h' = h" | "res = Some None" "h' = h"
  | db where "res = Some (Some \<lparr>rd_handle = hp_next h, rd_db = db\<rparr>)"
      "h' = h\<lparr>hp_next := Suc (hp_next h), hp_open := hp_next h # hp_open h\<rparr>"
proof (cases "p = []")
  case True
  with assms that(2) show thesis by (simp add: open_db_def)
next
  case False
  show thesis
  proof (cases "fs p")
    case None
    with False assms that(1) show thesis by (simp add: open_db_def)
  next
    case (Some found)
    show thesis
    proof (cases found)
      case None
      with False Some assms that(1) show thesis by (simp add: open_db_def)
    next
      case (Some db)
      with False \<open>fs p = Some found\<close> assms
      have "res = Some (Some \<lparr>rd_handle = hp_next h, rd_db = db\<rparr>)"
        "h' = h\<lparr>hp_next := Suc (hp_next h), hp_open := hp_next h # hp_open h\<rparr>"
        by (simp_all add: open_db_def)
      then show thesis by (rule that(3))
    qed
  qed
qed

lemma open_db_handles:
  assumes "open_db fs p h = (res, h')" and "heap_ok h"
  shows "heap_ok h'" "hp_next h \<le> hp_next h'"
    "res = None \<Longrightarrow> h' = h"
    "res = Some r \<Longrightarrow> set (hp_open h') = set (hp_open h) \<union> handles [r]"
    "res = Some r \<Longrightarrow> handles [r] \<subseteq> {hp_next h..<hp_next h'}"
proof -
  have "heap_ok h' \<and> hp_next h \<le> hp_next h' \<and> (res = None \<longrightarrow> h' = h) \<and>
    (\<forall>r. res = Some r \<longrightarrow> set (hp_open h') = set (hp_open h) \<union> handles [r] \<and> handles [r] \<subseteq> {hp_next h..<hp_next h'})"
  proof (rule open_db_cases [OF assms(1)])
    fix db
    assume "res = Some (Some \<lparr>rd_handle = hp_next h, rd_db = db\<rparr>)"
      "h' = h\<lparr>hp_next := Suc (hp_next h), hp_open := hp_next h # hp_open h\<rparr>"
    then show ?thesis using assms(2) by (simp add: heap_ok_def less_Suc_eq)
  qed (use assms(2) in simp_all)
  then show "heap_ok h'" "hp_next h \<le> hp_next h'"
    "res = None \<Longrightarrow> h' = h"
    "res = Some r \<Longrightarrow> set (hp_open h') = set (hp_open h) \<union> handles [r]"
    "res = Some r \<Longrightarrow> handles [r] \<subseteq> {hp_next h..<hp_next h'}"
    by simp_all
qed

lemma handles_fresh: "heap_ok h \<Longrightarrow> hp_next h \<le> n \<Longrightarrow> A \<subseteq> {n..<n'} \<Longrightarrow> A \<inter> set (hp_open h) = {}"
  by (fastforce simp: heap_ok_def)

lemma open_all_failed:
  assumes "open_all fs m h = (None, h')" and "heap_ok h"
  shows "set (hp_open h') = set (hp_open h) \<and> heap_ok h'"
proof -
  obtain c h1 where 1: "open_db fs (mm_cityPath m) h = (c, h1)" by force
  obtain k h2 where 2: "open_db fs (mm_countryPath m) h1 = (k, h2)" by force
  obtain a h3 where 3: "open_db fs (mm_asnPath m) h2 = (a, h3)" by force
  note h1 = open_db_handles [OF 1 assms(2)]
  note h2 = open_db_handles [OF 2 h1(1)]
  note h3 = open_db_handles [OF 3 h2(1)]

  show ?thesis
  proof (cases c)
    case None
    with assms 1 h1 show ?thesis by (auto simp: open_all_def)
  next
    case (Some city)
    note c = h1(4,5) [OF Some]
    show ?thesis
    proof (cases k)
      case None
      then have "h' = closeAll [city] h1" using assms(1) 1 2 Some h2(3) by (simp add: open_all_def)
      with c handles_fresh [OF assms(2) _ c(2)] h1(1) show ?thesis by (auto simp: heap_ok_closeAll)
    next
      case (Some country)
      note k = h2(4,5) [OF Some]
      have "h' = closeAll [city, country] h3" "a = None"
        using assms(1) 1 2 3 \<open>c = Some city\<close> Some by (auto simp: open_all_def split: option.splits)
      with h3(3) have "h' = closeAll [city, country] h2" by simp
      then have "set (hp_open h') = set (hp_open h) \<union> handles [city] \<union> handles [country] - (handles [city] \<union> handles [country])"
        using c k by (simp only: closeAll_simps handles_Cons [of city "[country]"])
      moreover have "handles [city] \<inter> set (hp_open h) = {}" "handles [country] \<inter> set (hp_open h) = {}"
        using handles_fresh [OF assms(2) _ c(2)] handles_fresh [OF assms(2) h1(2) k(2)] by simp_all
      ultimately have "set (hp_open h') = set (hp_open h)" by blast
      then show ?thesis using \<open>h' = closeAll [city, country] h2\<close> h2(1) by (simp add: heap_ok_closeAll)
    qed
  qed
qed

lemma open_all_done:
  assumes "open_all fs m h = (Some (city, country, asn), h')" and "heap_ok h"
  shows "set (hp_open h') = set (hp_open h) \<union> handles [city, country, asn]" "heap_ok h'"
    "handles [city, country, asn] \<inter> set (hp_open h) = {}"
proof -
  obtain c h1 where 1: "open_db fs (mm_cityPath m) h = (c, h1)" by force
  obtain k h2 where 2: "open_db fs (mm_countryPath m) h1 = (k, h2)" by force
  obtain a h3 where 3: "open_db fs (mm_asnPath m) h2 = (a, h3)" by force
  have r: "c = Some city" "k = Some country" "a = Some asn" "h' = h3"
    using assms(1) 1 2 3 by (auto simp: open_all_def split: option.splits)
  note h1 = open_db_handles [OF 1 assms(2)]
  note h2 = open_db_handles [OF 2 h1(1)]
  note h3 = open_db_handles [OF 3 h2(1)]
  note new = h1(4,5) [OF r(1)] h2(4,5) [OF r(2)] h3(4,5) [OF r(3)]
  have all: "handles [city, country, asn] = handles [city] \<union> handles [country] \<union> handles [asn]"
    unfolding handles_Cons [of city "[country, asn]"] handles_Cons [of country "[asn]"] by blast
  show "set (hp_open h') = set (hp_open h) \<union> handles [city, country, asn]"
    unfolding all r(4) using new by blast
  show "heap_ok h'" using h3(1) r(4) by simp
  have "handles [city] \<inter> set (hp_open h) = {}" "handles [country] \<inter> set (hp_open h) = {}" "handles [asn] \<inter> set (hp_open h) = {}"
    using handles_fresh [OF assms(2) order_refl new(2)] handles_fresh [OF assms(2) h1(2) new(4)]
      handles_fresh [OF assms(2) order_trans [OF h1(2) h2(2)] new(6)] by simp_all
  then show "handles [city, country, asn] \<inter> set (hp_open h) = {}" unfolding all by blast
qed

section \<open>The provider's contract\<close>

text \<open>What \<open>geo_ok\<close> says between operations: the handles that are open are those the provider holds.\<close>

definition geo_ok :: "'db mmdb \<times> heap \<Rightarrow> bool" where
  "geo_ok mh \<longleftrightarrow> heap_ok (snd mh) \<and> set (hp_open (snd mh)) = handles (held (fst mh))"

lemma mmdb_Reload_ok:
  assumes "geo_ok mh"
  shows "geo_ok (snd (mmdb_Reload w mh))" "\<not> fst (mmdb_Reload w mh) \<Longrightarrow> fst (snd (mmdb_Reload w mh)) = fst mh"
proof -
  obtain fs clock where w: "w = (fs, clock)" by (cases w)
  obtain m h where mh: "mh = (m, h)" by (cases mh)
  have ok: "heap_ok h" "set (hp_open h) = handles (held m)" using assms by (simp_all add: geo_ok_def mh)
  obtain res h' where open': "open_all fs m h = (res, h')" by force
  show "geo_ok (snd (mmdb_Reload w mh))"
  proof (cases res)
    case None
    with open_all_failed [of fs m h h'] open' ok show ?thesis by (simp add: mmdb_Reload_def w mh geo_ok_def)
  next
    case (Some rs)
    obtain city country asn where rs: "rs = (city, country, asn)" by (cases rs) auto
    note new = open_all_done [OF open' [unfolded Some rs] ok(1)]
    have "set (hp_open (closeAll (held m) h')) = handles [city, country, asn]"
      unfolding closeAll_simps new(1) using new(3) ok(2) by blast
    with new(2) show ?thesis
      by (simp add: mmdb_Reload_def w mh geo_ok_def swap_def open' Some rs heap_ok_closeAll held_def)
  qed
  show "\<not> fst (mmdb_Reload w mh) \<Longrightarrow> fst (snd (mmdb_Reload w mh)) = fst mh"
    by (cases res) (auto simp: mmdb_Reload_def w mh open' Let_def split: prod.split)
qed

lemma mmdb_Close_ok: "geo_ok mh \<Longrightarrow> geo_ok (mmdb_Close mh)"
  by (cases mh) (simp add: geo_ok_def mmdb_Close_def heap_ok_closeAll held_def)

text \<open>A provider: reloads that fail change no answer, a closed one and an invalid address have none.\<close>

locale provider =
  fixes Lookup :: "'s \<Rightarrow> addr \<Rightarrow> geo_result" and Reload :: "'w \<Rightarrow> 's \<Rightarrow> bool \<times> 's"
    and Close :: "'s \<Rightarrow> 's" and ok :: "'s \<Rightarrow> bool"
  assumes reload_ok: "ok s \<Longrightarrow> ok (snd (Reload w s))"
    and close_ok: "ok s \<Longrightarrow> ok (Close s)"
    and failed_reload: "ok s \<Longrightarrow> \<not> fst (Reload w s) \<Longrightarrow> Lookup (snd (Reload w s)) = Lookup s"
    and closed: "Lookup (Close s) ip = no_geo"
    and invalid: "Lookup s AddrNone = no_geo"
begin

lemma reloads_ok: "ok s \<Longrightarrow> ok (fold (\<lambda>w s. snd (Reload w s)) ws s)"
  by (induction ws arbitrary: s) (simp_all add: reload_ok)

lemma failed_reloads:
  assumes "ok s" and "\<And>s w. w \<in> set ws \<Longrightarrow> \<not> fst (Reload w s)"
  shows "Lookup (fold (\<lambda>w s. snd (Reload w s)) ws s) = Lookup s"
  using assms
proof (induction ws arbitrary: s)
  case (Cons w ws)
  then have "Lookup (fold (\<lambda>w s. snd (Reload w s)) ws (snd (Reload w s))) = Lookup (snd (Reload w s))"
    by (intro Cons.IH) (simp_all add: reload_ok)
  with Cons.prems show ?case by (simp add: failed_reload)
qed simp

end

interpretation null: provider null_Lookup null_Reload null_Close "\<lambda>_. True"
  by unfold_locales (simp_all add: null_Lookup_def null_Reload_def)

interpretation mm: provider "\<lambda>mh. mmdb_Lookup lib (fst mh)" mmdb_Reload mmdb_Close geo_ok
proof
  fix s :: "'a mmdb \<times> heap" and w ip
  show "geo_ok s \<Longrightarrow> geo_ok (snd (mmdb_Reload w s))" by (rule mmdb_Reload_ok)
  show "geo_ok s \<Longrightarrow> geo_ok (mmdb_Close s)" by (rule mmdb_Close_ok)
  show "geo_ok s \<Longrightarrow> \<not> fst (mmdb_Reload w s) \<Longrightarrow>
      mmdb_Lookup lib (fst (snd (mmdb_Reload w s))) = mmdb_Lookup lib (fst s)"
    using mmdb_Reload_ok(2) [of s w] by simp
  show "mmdb_Lookup lib (fst (mmdb_Close s)) ip = no_geo"
    by (cases s) (simp add: mmdb_Lookup_def mmdb_Close_def city_result_def asn_result_def)
  show "mmdb_Lookup lib (fst s) AddrNone = no_geo" by (simp add: mmdb_Lookup_def IsValid_def)
qed

section \<open>Properties\<close>

datatype 'db geo_op = GReload "'db files" time | GClose

fun geo_run :: "'db geo_op \<Rightarrow> 'db mmdb \<times> heap \<Rightarrow> 'db mmdb \<times> heap" where
  "geo_run (GReload fs clock) mh = snd (mmdb_Reload (fs, clock) mh)"
| "geo_run GClose mh = mmdb_Close mh"

lemma geo_runs_ok: "geo_ok mh \<Longrightarrow> geo_ok (fold geo_run ops mh)"
proof (induction ops arbitrary: mh)
  case (Cons op ops)
  then show ?case by (cases op) (simp_all add: mm.reload_ok mm.close_ok)
qed simp

text \<open>
  C37: Database handles neither leak nor dangle. After \<open>Open\<close> and any reloads and closes, with the
  files present, absent or broken at each of them, the open handles are exactly those of the readers
  the provider holds; an \<open>Open\<close> that fails leaves none open; and a reload that fails half way answers
  every lookup as before.
\<close>

theorem readers_neither_leak_nor_dangle:
  assumes "mmdb_Open city country asn w \<lparr>hp_next = 0, hp_open = []\<rparr> = (opened, h0)"
  shows "case opened of
      None \<Rightarrow> hp_open h0 = []
    | Some m0 \<Rightarrow> (let (m, h) = fold geo_run ops (m0, h0) in
        set (hp_open h) = handles (held m) \<and>
        (fst (mmdb_Reload w' (m, h)) \<or>
         mmdb_Lookup lib (fst (snd (mmdb_Reload w' (m, h)))) = mmdb_Lookup lib m))"
proof -
  let ?m = "\<lparr>mm_cityPath = city, mm_countryPath = country, mm_asnPath = asn,
                mm_city = None, mm_country = None, mm_asn = None, mm_loaded = zero_time\<rparr>"
  let ?mh = "(?m, \<lparr>hp_next = 0, hp_open = []\<rparr>)"
  have ok: "geo_ok ?mh" by (simp add: geo_ok_def heap_ok_def held_def)
  have o': "opened = (if fst (mmdb_Reload w ?mh) then Some (fst (snd (mmdb_Reload w ?mh))) else None)"
      "h0 = snd (snd (mmdb_Reload w ?mh))"
    using assms by (auto simp: mmdb_Open_def Let_def split: prod.splits)
  note loaded = mmdb_Reload_ok [OF ok, of w]
  show ?thesis
  proof (cases "fst (mmdb_Reload w ?mh)")
    case False
    then have "set (hp_open h0) = {}" using loaded o'(2) by (simp add: geo_ok_def held_def)
    with False o'(1) show ?thesis by simp
  next
    case True
    obtain m h where run: "fold geo_run ops (fst (snd (mmdb_Reload w ?mh)), h0) = (m, h)" by force
    have mh: "geo_ok (m, h)" using geo_runs_ok [OF loaded(1), of ops] run o'(2) by simp
    then show ?thesis
      using True o'(1) run mm.failed_reload [OF mh, of w' lib] by (auto simp: geo_ok_def)
  qed
qed

theorem readers_neither_leak_nor_dangle_witness:
  "\<exists>m h. mmdb_Open ''city.mmdb'' [] [] ((\<lambda>p. Some (Some p)), 5) \<lparr>hp_next = 0, hp_open = []\<rparr> = (Some m, h) \<and>
     set (hp_open h) = handles (held m)"
proof -
  obtain opened h where o': "mmdb_Open ''city.mmdb'' [] [] ((\<lambda>p. Some (Some p)), 5) \<lparr>hp_next = 0, hp_open = []\<rparr> = (opened, h)"
    by force
  moreover from this obtain m where "opened = Some m"
    by (auto simp: mmdb_Open_def mmdb_Reload_def open_all_def open_db_def swap_def)
  ultimately show ?thesis
    using readers_neither_leak_nor_dangle [OF o', of "[]" "((\<lambda>_. None), 9)"] by auto
qed

section \<open>Lookups beside a reload\<close>

text \<open>
  \<open>Lookup\<close> copies the readers under the read lock and uses them after it; \<open>Reload\<close> swaps the readers
  under the lock and closes the old ones after it. The state: the provider, the handles, the copies
  that lookups in flight hold, and the readers a reload has still to close.
\<close>

record 'db geo_sys =
  gs_m :: "'db mmdb"
  gs_h :: heap
  gs_flight :: "(nat, 'db reader option list) gomap"
  gs_closing :: "'db reader option list"

inductive geo_step :: "'db geo_sys \<Rightarrow> 'db geo_sys \<Rightarrow> bool" where
  lookup_copies: "map_of (gs_flight s) tid = None \<Longrightarrow>
    geo_step s (s\<lparr>gs_flight := AList.update tid (held (gs_m s)) (gs_flight s)\<rparr>)"
| lookup_returns: "geo_step s (s\<lparr>gs_flight := AList.delete tid (gs_flight s)\<rparr>)"
| reload_swaps: "gs_closing s = [] \<Longrightarrow> open_all fs (gs_m s) (gs_h s) = (Some rs, h) \<Longrightarrow> swap rs clock (gs_m s) = (old, m) \<Longrightarrow>
    geo_step s (s\<lparr>gs_m := m, gs_h := h, gs_closing := old\<rparr>)"
| reload_fails: "gs_closing s = [] \<Longrightarrow> open_all fs (gs_m s) (gs_h s) = (None, h) \<Longrightarrow> geo_step s (s\<lparr>gs_h := h\<rparr>)"
| reload_closes: "gs_closing s = r # rs \<Longrightarrow> geo_step s (s\<lparr>gs_h := closeAll [r] (gs_h s), gs_closing := rs\<rparr>)"

inductive geo_reach :: "'db mmdb \<times> heap \<Rightarrow> 'db geo_sys \<Rightarrow> bool" for start where
  geo_start: "geo_reach start \<lparr>gs_m = fst start, gs_h = snd start, gs_flight = [], gs_closing = []\<rparr>"
| geo_more: "geo_reach start s \<Longrightarrow> geo_step s s' \<Longrightarrow> geo_reach start s'"

text \<open>What a lookup copies is open when it copies it, whatever a reload is doing.\<close>

lemma copied_readers_open:
  assumes "geo_reach start s" and "geo_ok start"
  shows "heap_ok (gs_h s) \<and> handles (held (gs_m s)) \<inter> handles (gs_closing s) = {} \<and>
    handles (held (gs_m s)) \<subseteq> set (hp_open (gs_h s))"
  using assms(1)
proof induction
  case geo_start
  with assms(2) show ?case by (simp add: geo_ok_def)
next
  case (geo_more s s')
  note IH = geo_more.IH
  from geo_more.hyps(2) show ?case
  proof (cases rule: geo_step.cases)
    case (reload_swaps fs rs h clock old m)
    obtain city country asn where rs: "rs = (city, country, asn)" by (cases rs) auto
    note new = open_all_done [OF reload_swaps(3) [unfolded rs] conjunct1 [OF IH]]
    have m: "held m = [city, country, asn]" "old = held (gs_m s)"
      using reload_swaps(4) by (auto simp: swap_def rs held_def)
    with new IH reload_swaps(1,2) show ?thesis by auto
  next
    case (reload_fails fs h)
    with open_all_failed [OF reload_fails(3)] IH show ?thesis by simp
  next
    case (reload_closes r rs)
    have "handles [r] \<inter> handles (held (gs_m s)) = {}"
      using IH reload_closes(2) handles_Cons [of r rs] by auto
    with IH reload_closes handles_Cons [of r rs] show ?thesis by (auto simp: heap_ok_closeAll)
  qed (use IH in simp_all)
qed

text \<open>
  C40: A lookup in flight can hold a closed reader. With any database that opens, a lookup can copy the
  readers, a reload can then swap them and close the old ones, and the lookup goes on with a reader
  whose handle is closed, although every reader was open when it was copied: the order of swap and
  close does not protect lookups that copied before the swap.
\<close>

theorem lookup_may_use_closed_reader:
  fixes db :: 'db
  shows "\<exists>start s readers r.
    mmdb_Open ''city.mmdb'' [] [] (\<lambda>_. Some (Some db), 5) \<lparr>hp_next = 0, hp_open = []\<rparr> = (Some (fst start), snd start) \<and>
    geo_reach start s \<and> map_of (gs_flight s) 1 = Some readers \<and> Some r \<in> set readers \<and>
    rd_handle r \<notin> set (hp_open (gs_h s)) \<and> handles (held (gs_m s)) \<subseteq> set (hp_open (gs_h s))"
proof -
  define m0 where "m0 = \<lparr>mm_cityPath = ''city.mmdb'', mm_countryPath = [], mm_asnPath = [],
    mm_city = Some \<lparr>rd_handle = 0, rd_db = db\<rparr>, mm_country = None, mm_asn = None, mm_loaded = 5\<rparr>"
  define h0 :: heap where "h0 = \<lparr>hp_next = 1, hp_open = [0]\<rparr>"
  define new where "new = \<lparr>rd_handle = 1, rd_db = db\<rparr>"
  define s0 where "s0 = \<lparr>gs_m = m0, gs_h = h0, gs_flight = [], gs_closing = []\<rparr>"
  define s1 where "s1 = s0\<lparr>gs_flight := [(1 :: nat, held m0)]\<rparr>"
  define s2 where "s2 = s1\<lparr>gs_m := m0\<lparr>mm_city := Some new, mm_loaded := 9\<rparr>,
    gs_h := \<lparr>hp_next = 2, hp_open = [1, 0]\<rparr>, gs_closing := held m0\<rparr>"
  define s3 where "s3 = s2\<lparr>gs_h := closeAll [mm_city m0] (gs_h s2), gs_closing := [None, None]\<rparr>"
  have "mmdb_Open ''city.mmdb'' [] [] (\<lambda>_. Some (Some db), 5) \<lparr>hp_next = 0, hp_open = []\<rparr> = (Some m0, h0)"
    by (simp add: mmdb_Open_def mmdb_Reload_def open_all_def open_db_def swap_def closeAll_def held_def m0_def h0_def)
  moreover have "geo_reach (m0, h0) s0" using geo_start [of "(m0, h0)"] by (simp add: s0_def)
  then have "geo_reach (m0, h0) s1"
    using lookup_copies [of s0 1] by (auto simp: s0_def s1_def intro: geo_more)
  then have "geo_reach (m0, h0) s2"
  proof (rule geo_more)
    have "open_all (\<lambda>_. Some (Some db)) (gs_m s1) (gs_h s1) = (Some (Some new, None, None), \<lparr>hp_next = 2, hp_open = [1, 0]\<rparr>)"
      by (simp add: open_all_def open_db_def s1_def s0_def m0_def h0_def new_def)
    moreover have "swap (Some new, None, None) 9 (gs_m s1) = (held m0, m0\<lparr>mm_city := Some new, mm_loaded := 9\<rparr>)"
      by (simp add: swap_def s1_def s0_def m0_def held_def)
    ultimately show "geo_step s1 s2"
      unfolding s2_def by (rule reload_swaps [rotated]) (simp add: s1_def s0_def)
  qed
  then have "geo_reach (m0, h0) s3"
    using reload_closes [of s2 "mm_city m0" "[None, None]"] by (auto simp: s3_def s2_def held_def m0_def intro: geo_more)
  moreover have "map_of (gs_flight s3) 1 = Some (held m0)" "Some \<lparr>rd_handle = 0, rd_db = db\<rparr> \<in> set (held m0)"
      "0 \<notin> set (hp_open (gs_h s3))" "handles (held (gs_m s3)) \<subseteq> set (hp_open (gs_h s3))"
    by (simp_all add: s3_def s2_def s1_def s0_def held_def m0_def new_def)
  ultimately show ?thesis
    by (intro exI [of _ "(m0, h0)"] exI [of _ s3] exI [of _ "held m0"] exI [of _ "\<lparr>rd_handle = 0, rd_db = db\<rparr>"]) simp
qed

end
