(* ===== verification/GoJson.thy ===== *)
theory GoJson
  imports GoStrconv Netip
begin

text \<open>
  The part of the package \<open>encoding/json\<close> the program uses: \<open>Decoder.Decode\<close> of one value, with
  unknown fields refused. \<open>json_value\<close> reads a value and leaves the rest of the input, as the
  decoder does; the first argument is fuel, twice the length of the input, which is enough (\<open>json_decode_fuel\<close>), the
  second the nesting, which the package limits.
\<close>

section \<open>Values\<close>

text \<open>A number is its literal, a string the bytes between its quotes.\<close>

datatype json =
    JNull
  | JBool bool
  | JNum string
  | JStr string
  | JArr "json list"
  | JObj "(string \<times> json) list"

definition json_space :: "char \<Rightarrow> bool" where
  "json_space c \<longleftrightarrow> byte c \<in> {32, 9, 10, 13}"

definition skip_space :: "string \<Rightarrow> string" where
  "skip_space s = dropWhile json_space s"

text \<open>The rest of a string after its opening quote: its raw bytes, and what follows.\<close>

fun string_body :: "string \<Rightarrow> (string \<times> string) option" where
  "string_body [] = None"
| "string_body (c # s) =
     (if c = CHR 0x22 then Some ([], s)
      else if byte c < 32 then None
      else if c = CHR 0x5C then
        (case s of
           [] \<Rightarrow> None
         | e # s' \<Rightarrow>
             if e \<in> {CHR ''b'', CHR ''f'', CHR ''n'', CHR ''r'', CHR ''t'', CHR 0x5C, CHR ''/'', CHR 0x22}
             then map_option (\<lambda>(b, r). (c # e # b, r)) (string_body s')
             else if e = CHR ''u'' then
               (case s' of
                  h1 # h2 # h3 # h4 # r \<Rightarrow>
                    if is_hex h1 \<and> is_hex h2 \<and> is_hex h3 \<and> is_hex h4
                    then map_option (\<lambda>(b, r). (c # e # h1 # h2 # h3 # h4 # b, r)) (string_body r)
                    else None
                | _ \<Rightarrow> None)
             else None)
      else map_option (\<lambda>(b, r). (c # b, r)) (string_body s))"

text \<open>A number literal: sign, integer part, fraction, exponent.\<close>

definition whole_part :: "string \<Rightarrow> string \<times> string" where
  "whole_part s = (let w = (if HasPrefix s ''0'' then ''0'' else takeWhile is_digit s) in (w, drop (length w) s))"

definition fraction :: "string \<Rightarrow> (string \<times> string) option" where
  "fraction s =
     (if HasPrefix s ''.'' then
        (let digits = takeWhile is_digit (tl s)
         in if digits = [] then None else Some (CHR ''.'' # digits, drop (length digits) (tl s)))
      else Some ([], s))"

definition exponent :: "string \<Rightarrow> (string \<times> string) option" where
  "exponent s =
     (if HasPrefix s ''e'' \<or> HasPrefix s ''E'' then
        (let sign = (if HasPrefix (tl s) ''+'' \<or> HasPrefix (tl s) ''-'' then take 1 (tl s) else []);
             digits = takeWhile is_digit (drop (length sign) (tl s))
         in if digits = [] then None
            else Some (hd s # sign @ digits, drop (length digits) (drop (length sign) (tl s))))
      else Some ([], s))"

definition number_literal :: "string \<Rightarrow> (string \<times> string) option" where
  "number_literal s =
     (let sign = (if HasPrefix s ''-'' then ''-'' else []); (w, s1) = whole_part (drop (length sign) s) in
      if w = [] then None
      else
        (case fraction s1 of
           None \<Rightarrow> None
         | Some (f, s2) \<Rightarrow> map_option (\<lambda>(e, r). (sign @ w @ f @ e, r)) (exponent s2)))"

definition max_depth :: nat where "max_depth = 10000"

fun json_value :: "nat \<Rightarrow> nat \<Rightarrow> string \<Rightarrow> (json \<times> string) option"
  and json_elements :: "nat \<Rightarrow> nat \<Rightarrow> string \<Rightarrow> (json list \<times> string) option"
  and json_members :: "nat \<Rightarrow> nat \<Rightarrow> string \<Rightarrow> ((string \<times> json) list \<times> string) option" where
  "json_value 0 d s = None"
| "json_value (Suc f) d s =
     (case skip_space s of
        [] \<Rightarrow> None
      | c # r \<Rightarrow>
          if c = CHR ''{'' then
            (if max_depth \<le> d then None
             else if HasPrefix (skip_space r) ''}'' then Some (JObj [], tl (skip_space r))
             else map_option (\<lambda>(ms, r). (JObj ms, r)) (json_members f (Suc d) r))
          else if c = CHR ''['' then
            (if max_depth \<le> d then None
             else if HasPrefix (skip_space r) '']'' then Some (JArr [], tl (skip_space r))
             else map_option (\<lambda>(vs, r). (JArr vs, r)) (json_elements f (Suc d) r))
          else if c = CHR 0x22 then map_option (\<lambda>(b, r). (JStr b, r)) (string_body r)
          else if HasPrefix (c # r) ''true'' then Some (JBool True, drop 3 r)
          else if HasPrefix (c # r) ''false'' then Some (JBool False, drop 4 r)
          else if HasPrefix (c # r) ''null'' then Some (JNull, drop 3 r)
          else map_option (\<lambda>(n, r). (JNum n, r)) (number_literal (c # r)))"
| "json_elements 0 d s = None"
| "json_elements (Suc f) d s =
     (case json_value f d s of
        None \<Rightarrow> None
      | Some (v, r) \<Rightarrow>
          (case skip_space r of
             [] \<Rightarrow> None
           | c # r' \<Rightarrow>
               if c = CHR '']'' then Some ([v], r')
               else if c = CHR '','' then map_option (\<lambda>(vs, r). (v # vs, r)) (json_elements f d r')
               else None))"
| "json_members 0 d s = None"
| "json_members (Suc f) d s =
     (case skip_space s of
        [] \<Rightarrow> None
      | q # r \<Rightarrow>
          if q \<noteq> CHR 0x22 then None
          else
            (case string_body r of
               None \<Rightarrow> None
             | Some (k, r) \<Rightarrow>
                 (case skip_space r of
                    [] \<Rightarrow> None
                  | c # r \<Rightarrow>
                      if c \<noteq> CHR '':'' then None
                      else
                        (case json_value f d r of
                           None \<Rightarrow> None
                         | Some (v, r) \<Rightarrow>
                             (case skip_space r of
                                [] \<Rightarrow> None
                              | c # r' \<Rightarrow>
                                  if c = CHR ''}'' then Some ([(k, v)], r')
                                  else if c = CHR '','' then map_option (\<lambda>(ms, r). ((k, v) # ms, r)) (json_members f d r')
                                  else None)))))"

definition json_decode :: "string \<Rightarrow> json option" where
  "json_decode s = map_option fst (json_value (Suc (2 * length s)) 0 s)"

section \<open>Strings and numbers\<close>

definition u4 :: "string \<Rightarrow> int" where "u4 s = hexadecimal (take 4 s)"

definition escaped :: "char \<Rightarrow> char" where
  "escaped e =
     (if e = CHR ''b'' then CHR 0x08 else if e = CHR ''f'' then CHR 0x0C else if e = CHR ''n'' then CHR 0x0A
      else if e = CHR ''r'' then CHR 0x0D else if e = CHR ''t'' then CHR 0x09 else e)"

text \<open>
  \<open>unquote\<close>: escapes resolved, surrogate pairs joined, everything that is not UTF-8 replaced. The
  argument is the string cut as a \<open>range\<close> loop cuts it, the first the runes still to skip.
\<close>

fun unquote :: "nat \<Rightarrow> (int \<times> string) list \<Rightarrow> string" where
  "unquote n [] = []"
| "unquote (Suc n) (x # cs) = unquote n cs"
| "unquote 0 ((r, bs) # cs) =
     (if bs \<noteq> [CHR 0x5C] then encode_rune r @ unquote 0 cs
      else
        (case concat (map snd cs) of
           [] \<Rightarrow> []
         | e # t \<Rightarrow>
             if e \<noteq> CHR ''u'' then escaped e # unquote 1 cs
             else if 0xD800 \<le> u4 t \<and> u4 t < 0xDC00 \<and> HasPrefix (drop 4 t) [CHR 0x5C, CHR ''u''] \<and>
                     0xDC00 \<le> u4 (drop 6 t) \<and> u4 (drop 6 t) < 0xE000
             then encode_rune (0x10000 + (u4 t - 0xD800) * 0x400 + (u4 (drop 6 t) - 0xDC00)) @ unquote 11 cs
             else encode_rune (u4 t) @ unquote 5 cs))"

definition json_string :: "string \<Rightarrow> string" where
  "json_string raw = unquote 0 (chunks raw)"

text \<open>The value of a number literal, and \<open>strconv.ParseFloat\<close> of it.\<close>

definition literal_value :: "string \<Rightarrow> rat" where
  "literal_value s =
     (let neg = HasPrefix s ''-''; s1 = (if neg then tl s else s);
          mantissa = takeWhile (\<lambda>c. c \<noteq> CHR ''e'' \<and> c \<noteq> CHR ''E'') s1;
          expo = drop (Suc (length mantissa)) s1;
          (whole, frac, _) = Cut mantissa (CHR ''.'');
          e = (if HasPrefix expo ''-'' then - decimal (tl expo)
               else if HasPrefix expo ''+'' then decimal (tl expo) else decimal expo) - int (length frac);
          m = (of_int (decimal (whole @ frac)) :: rat);
          x = (if 0 \<le> e then m * 10 ^ nat e else m / 10 ^ nat (- e))
      in if neg then - x else x)"

definition ParseFloat :: "string \<Rightarrow> rat option" where
  "ParseFloat s = (let x = fl (literal_value s) in if 2 ^ 1024 \<le> \<bar>x\<bar> then None else Some x)"

section \<open>The fuel is enough\<close>

lemma skip_space_length: "skip_space s = c # r \<Longrightarrow> length r < length s"
  using length_dropWhile_le [of json_space s] by (simp add: skip_space_def)

lemma string_body_length: "string_body s = Some (b, r) \<Longrightarrow> length r < length s"
proof (induction s arbitrary: b r rule: length_induct)
  case (1 s)
  then have IH: "string_body t = Some (b', r) \<Longrightarrow> length t < length s \<Longrightarrow> length r < length s" for t b'
    by (meson less_trans)
  from 1(2) show ?case
    by (cases s) (auto split: if_splits list.splits, (drule IH, simp, simp)+)
qed

lemma fraction_length: "fraction s = Some (f, r) \<Longrightarrow> length r \<le> length s"
  by (auto simp: fraction_def Let_def split: if_splits)

lemma exponent_length: "exponent s = Some (e, r) \<Longrightarrow> length r \<le> length s"
  by (auto simp: exponent_def Let_def split: if_splits)

lemma whole_part_length: "whole_part s = (w, r) \<Longrightarrow> w \<noteq> [] \<Longrightarrow> length r < length s"
proof -
  assume "whole_part s = (w, r)" "w \<noteq> []"
  then have "r = drop (length w) s" "s \<noteq> []" by (auto simp: whole_part_def Let_def split: if_splits)
  with \<open>w \<noteq> []\<close> show ?thesis by simp
qed

lemma number_literal_length: "number_literal s = Some (n, r) \<Longrightarrow> length r < length s"
proof -
  assume n: "number_literal s = Some (n, r)"
  let ?t = "drop (length (if HasPrefix s ''-'' then ''-'' else [])) s"
  obtain w s1 where w: "whole_part ?t = (w, s1)" by force
  with n obtain f s2 e where "w \<noteq> []" "fraction s1 = Some (f, s2)" "exponent s2 = Some (e, r)"
    by (auto simp: number_literal_def Let_def split: if_splits option.splits)
  then have "length r \<le> length s1" "length s1 < length ?t"
    using fraction_length exponent_length whole_part_length [OF w] by (meson order_trans)+
  then show ?thesis by simp
qed

declare json_value.simps(2) [simp del] json_elements.simps(2) [simp del] json_members.simps(2) [simp del]

lemma json_lengths_all:
  "(\<forall>d s v r. json_value f d s = Some (v, r) \<longrightarrow> length r < length s) \<and>
   (\<forall>d s vs r. json_elements f d s = Some (vs, r) \<longrightarrow> length r < length s) \<and>
   (\<forall>d s ms r. json_members f d s = Some (ms, r) \<longrightarrow> length r < length s)"
proof (induction f)
  case (Suc f)
  then have IH: "json_value f d s = Some (v, r) \<Longrightarrow> length r < length s"
      "json_elements f d s = Some (vs, r) \<Longrightarrow> length r < length s"
      "json_members f d s = Some (ms, r) \<Longrightarrow> length r < length s" for d s v vs ms r
    by blast+
  have "length r < length s" if "json_value (Suc f) d s = Some (v, r)" for d s v r
  proof -
    from that obtain c t where t: "skip_space s = c # t" by (auto simp: json_value.simps(2) split: list.splits)
    have "length (tl (skip_space t)) \<le> length t"
      using length_dropWhile_le [of json_space t] by (simp add: skip_space_def)
    with that skip_space_length [OF t] show ?thesis
      by (auto simp: json_value.simps(2) t split: if_splits dest!: IH(2,3) string_body_length number_literal_length)
  qed
  moreover have "length r < length s" if "json_elements (Suc f) d s = Some (vs, r)" for d s vs r
    using that
    by (auto simp: json_elements.simps(2) split: if_splits option.splits list.splits dest!: IH(1,2) skip_space_length)
  moreover have "length r < length s" if "json_members (Suc f) d s = Some (ms, r)" for d s ms r
    using that
    by (auto simp: json_members.simps(2) split: if_splits option.splits list.splits
        dest!: IH(1,3) skip_space_length string_body_length)
  ultimately show ?case by blast
qed simp

lemma json_lengths:
  "json_value f d s = Some (v, r) \<Longrightarrow> length r < length s"
  "json_elements f d s = Some (vs, r) \<Longrightarrow> length r < length s"
  "json_members f d s = Some (ms, r) \<Longrightarrow> length r < length s"
  using json_lengths_all [of f] by blast+

lemma json_fuel_all:
  "(\<forall>d s. 2 * length s < f \<longrightarrow> json_value (Suc f) d s = json_value f d s) \<and>
   (\<forall>d s. 2 * length s + 1 < f \<longrightarrow> json_elements (Suc f) d s = json_elements f d s) \<and>
   (\<forall>d s. 2 * length s + 1 < f \<longrightarrow> json_members (Suc f) d s = json_members f d s)"
proof (induction f)
  case (Suc f)
  then have IH: "2 * length s < f \<Longrightarrow> json_value (Suc f) d s = json_value f d s"
      "2 * length s + 1 < f \<Longrightarrow> json_elements (Suc f) d s = json_elements f d s"
      "2 * length s + 1 < f \<Longrightarrow> json_members (Suc f) d s = json_members f d s" for d s
    by blast+
  have "json_value (Suc (Suc f)) d s = json_value (Suc f) d s" if "2 * length s < Suc f" for d s
    unfolding json_value.simps(2) [of "Suc f" d s] json_value.simps(2) [of f d s]
    using that by (auto simp: IH dest!: skip_space_length split: list.split)
  moreover have "json_elements (Suc (Suc f)) d s = json_elements (Suc f) d s" if "2 * length s + 1 < Suc f" for d s
    unfolding json_elements.simps(2) [of "Suc f" d s] json_elements.simps(2) [of f d s]
    using that by (auto simp: IH dest!: skip_space_length json_lengths(1) split: list.split option.split)
  moreover have "json_members (Suc (Suc f)) d s = json_members (Suc f) d s" if "2 * length s + 1 < Suc f" for d s
  proof (cases "skip_space s")
    case q: (Cons q r)
    show ?thesis
    proof (cases "string_body r")
      case (Some kr)
      obtain k r1 where kr: "kr = (k, r1)" by (cases kr)
      show ?thesis
      proof (cases "skip_space r1")
        case (Cons c r2)
        have l: "length r2 < length s"
          using skip_space_length [OF q] string_body_length [OF Some [unfolded kr]] skip_space_length [OF Cons] by linarith
        then have v: "json_value (Suc f) d r2 = json_value f d r2" using that by (intro IH) simp
        have "json_members (Suc f) d r' = json_members f d r'"
          if "json_value f d r2 = Some (v, r3)" "skip_space r3 = c' # r'" for v r3 c' r'
          using json_lengths(1) [OF that(1)] skip_space_length [OF that(2)] l \<open>2 * length s + 1 < Suc f\<close>
          by (intro IH) simp
        then show ?thesis
          unfolding json_members.simps(2) [of "Suc f" d s] json_members.simps(2) [of f d s]
          by (simp add: q Some kr Cons v split: option.split list.split)
      qed (simp add: json_members.simps(2) q Some kr)
    qed (simp add: json_members.simps(2) q)
  qed (simp add: json_members.simps(2))
  ultimately show ?case by blast
qed simp

text \<open>More fuel than \<open>json_decode\<close> gives changes nothing.\<close>

lemma json_fuel: "2 * length s < f \<Longrightarrow> json_value (f + k) d s = json_value f d s"
proof (induction k)
  case (Suc k)
  then show ?case using json_fuel_all [of "f + k"] by simp
qed simp

lemma json_decode_fuel: "json_decode s = map_option fst (json_value (Suc (2 * length s) + k) 0 s)"
  unfolding json_decode_def using json_fuel [of s "Suc (2 * length s)" k 0] by simp

end
