(* ===== verification/Pool.thy ===== *)
theory Pool
  imports Prelude "HOL-Library.Multiset"
begin

text \<open>
  The queue and its workers, of \<open>internal/ingest/handler.go\<close>: a buffered Go channel, the
  non-blocking send of \<open>handleEvent\<close>, the workers' \<open>range\<close> loops and \<open>Close\<close>. An event is a value
  of a type parameter. The fields \<open>pl_accepted\<close> and \<open>pl_recorded\<close> are the history of what was sent
  and what the workers finished; no operation reads them.

  Conservation: what was accepted is buffered, in work or recorded (\<open>pool_ok\<close>). Draining: after
  \<open>Close\<close> the workers stop after a bounded number of steps, with every accepted event recorded
  (\<open>close_drains\<close>).
\<close>

section \<open>The code\<close>

record 'a pool =
  pl_cap :: nat
  pl_workers :: nat
  pl_buf :: "'a list"
  pl_busy :: "'a list"
  pl_closed :: bool
  pl_accepted :: "'a list"
  pl_recorded :: "'a list"

text \<open>\<open>make(chan raw, n)\<close> and the worker loop of \<open>NewServer\<close>; a negative size panics.\<close>

definition new_pool :: "int \<Rightarrow> int \<Rightarrow> 'a pool option" where
  "new_pool qsize workers =
     (if qsize < 0 then None
      else Some \<lparr>pl_cap = nat qsize, pl_workers = nat (if workers < 1 then 1 else workers),
        pl_buf = [], pl_busy = [], pl_closed = False, pl_accepted = [], pl_recorded = []\<rparr>)"

text \<open>
  The \<open>select\<close> with a default: sending on a closed channel panics, a full buffer takes the default;
  an unbuffered channel hands the event to a worker that waits.
\<close>

definition try_send :: "'a \<Rightarrow> 'a pool \<Rightarrow> (bool \<times> 'a pool) option" where
  "try_send ev p =
     (if pl_closed p then None
      else if length (pl_buf p) < pl_cap p then
        Some (True, p\<lparr>pl_buf := pl_buf p @ [ev], pl_accepted := pl_accepted p @ [ev]\<rparr>)
      else if pl_cap p = 0 \<and> length (pl_busy p) < pl_workers p then
        Some (True, p\<lparr>pl_busy := pl_busy p @ [ev], pl_accepted := pl_accepted p @ [ev]\<rparr>)
      else Some (False, p))"

definition close_pool :: "'a pool \<Rightarrow> 'a pool" where
  "close_pool p = p\<lparr>pl_closed := True\<rparr>"

text \<open>The steps of the workers: one that is free receives, one that is busy finishes its event.\<close>

inductive work_step :: "'a pool \<Rightarrow> 'a pool \<Rightarrow> bool" where
  receive: "pl_buf p = ev # rest \<Longrightarrow> length (pl_busy p) < pl_workers p \<Longrightarrow>
    work_step p (p\<lparr>pl_buf := rest, pl_busy := pl_busy p @ [ev]\<rparr>)"
| finish: "pl_busy p = pre @ ev # post \<Longrightarrow>
    work_step p (p\<lparr>pl_busy := pre @ post, pl_recorded := pl_recorded p @ [ev]\<rparr>)"

text \<open>The steps of the handlers, and \<open>Close\<close>, which runs once.\<close>

inductive serve_step :: "'a pool \<Rightarrow> 'a pool \<Rightarrow> bool" where
  send: "try_send ev p = Some (ok, p') \<Longrightarrow> serve_step p p'"
| closing: "\<not> pl_closed p \<Longrightarrow> serve_step p (close_pool p)"

definition pool_step :: "'a pool \<Rightarrow> 'a pool \<Rightarrow> bool" where
  "pool_step p p' \<longleftrightarrow> work_step p p' \<or> serve_step p p'"

inductive_cases work_stepE: "work_step p p'"
inductive_cases serve_stepE: "serve_step p p'"

section \<open>Conservation\<close>

definition pool_ok :: "'a pool \<Rightarrow> bool" where
  "pool_ok p \<longleftrightarrow>
     1 \<le> pl_workers p \<and> length (pl_buf p) \<le> pl_cap p \<and> length (pl_busy p) \<le> pl_workers p \<and>
     mset (pl_accepted p) = mset (pl_buf p) + mset (pl_busy p) + mset (pl_recorded p) \<and>
     (\<exists>taken. pl_accepted p = taken @ pl_buf p)"

lemma new_pool_ok: "new_pool qsize workers = Some p \<Longrightarrow> pool_ok p"
  by (auto simp: new_pool_def pool_ok_def split: if_splits)

lemma try_send_cases:
  assumes "try_send ev p = Some (ok, p')"
  obtains "ok" "length (pl_buf p) < pl_cap p" "p' = p\<lparr>pl_buf := pl_buf p @ [ev], pl_accepted := pl_accepted p @ [ev]\<rparr>"
  | "ok" "pl_cap p = 0" "length (pl_busy p) < pl_workers p"
      "p' = p\<lparr>pl_busy := pl_busy p @ [ev], pl_accepted := pl_accepted p @ [ev]\<rparr>"
  | "\<not> ok" "p' = p"
proof -
  have open': "\<not> pl_closed p" using assms by (simp add: try_send_def split: if_splits)
  consider "length (pl_buf p) < pl_cap p" | "\<not> length (pl_buf p) < pl_cap p" "pl_cap p = 0 \<and> length (pl_busy p) < pl_workers p"
    | "\<not> length (pl_buf p) < pl_cap p" "\<not> (pl_cap p = 0 \<and> length (pl_busy p) < pl_workers p)"
    by blast
  then show thesis
  proof cases
    case 1
    with open' assms that(1) show thesis by (simp add: try_send_def)
  next
    case 2
    with open' assms that(2) show thesis by (simp add: try_send_def)
  next
    case 3
    with open' assms that(3) show thesis by (simp add: try_send_def)
  qed
qed

lemma try_send_ok:
  assumes "try_send ev p = Some (ok, p')" and "pool_ok p"
  shows "pool_ok p'"
proof (rule try_send_cases [OF assms(1)])
  assume "length (pl_buf p) < pl_cap p" "p' = p\<lparr>pl_buf := pl_buf p @ [ev], pl_accepted := pl_accepted p @ [ev]\<rparr>"
  with assms(2) show ?thesis by (auto simp: pool_ok_def)
next
  assume "pl_cap p = 0" "length (pl_busy p) < pl_workers p"
    "p' = p\<lparr>pl_busy := pl_busy p @ [ev], pl_accepted := pl_accepted p @ [ev]\<rparr>"
  with assms(2) show ?thesis by (auto simp: pool_ok_def)
qed (use assms(2) in simp)

lemma pool_step_ok: "pool_step p p' \<Longrightarrow> pool_ok p \<Longrightarrow> pool_ok p'"
  unfolding pool_step_def
proof (elim disjE)
  assume "work_step p p'" "pool_ok p"
  then show "pool_ok p'" by (elim work_stepE) (auto simp: pool_ok_def)
next
  assume "serve_step p p'" "pool_ok p"
  then show "pool_ok p'"
  proof (elim serve_stepE)
    assume "p' = close_pool p" "pool_ok p"
    then show ?thesis by (simp add: close_pool_def pool_ok_def)
  qed (rule try_send_ok)
qed

lemma pool_steps_ok: "pool_step\<^sup>*\<^sup>* p p' \<Longrightarrow> pool_ok p \<Longrightarrow> pool_ok p'"
  by (induction rule: rtranclp_induct) (auto intro: pool_step_ok)

section \<open>Draining\<close>

definition work_left :: "'a pool \<Rightarrow> nat" where
  "work_left p = 2 * length (pl_buf p) + length (pl_busy p)"

lemma work_step_decreases: "work_step p p' \<Longrightarrow> work_left p = Suc (work_left p') \<and> pl_accepted p' = pl_accepted p"
  by (elim work_stepE) (simp_all add: work_left_def)

lemma work_steps_bounded: "(work_step ^^ n) p p' \<Longrightarrow> n + work_left p' = work_left p \<and> pl_accepted p' = pl_accepted p"
proof (induction n arbitrary: p')
  case (Suc n)
  then show ?case using work_step_decreases by fastforce
qed simp

lemma work_steps_ok: "(work_step ^^ n) p p' \<Longrightarrow> pool_ok p \<Longrightarrow> pool_ok p'"
  by (induction n arbitrary: p') (auto intro: pool_step_ok simp: pool_step_def)

lemma stuck_is_drained:
  assumes "pool_ok p" and "\<nexists>p'. work_step p p'"
  shows "pl_buf p = [] \<and> pl_busy p = [] \<and> mset (pl_recorded p) = mset (pl_accepted p)"
proof -
  have busy: "pl_busy p = []"
  proof (rule ccontr)
    assume "pl_busy p \<noteq> []"
    then have "pl_busy p = [] @ hd (pl_busy p) # tl (pl_busy p)" by simp
    from finish [OF this] assms(2) show False by blast
  qed
  have "pl_buf p = []"
  proof (rule ccontr)
    assume "pl_buf p \<noteq> []"
    then have "pl_buf p = hd (pl_buf p) # tl (pl_buf p)" by simp
    moreover have "length (pl_busy p) < pl_workers p" using assms(1) busy by (simp add: pool_ok_def)
    ultimately have "\<exists>p'. work_step p p'" by (blast intro: receive)
    with assms(2) show False ..
  qed
  with busy assms(1) show ?thesis by (simp add: pool_ok_def)
qed

section \<open>Properties\<close>

text \<open>
  C18: \<open>Close\<close> drains the queue and returns. In every state the program can reach the accepted events
  are exactly the buffered ones, the ones in work and the recorded ones, and the buffer is within its
  size. Once the queue is closed no event is accepted, a sequence of worker steps has at most twice
  as many steps as the buffer has events, and one for each event in work, and when no worker can step any
  more every event that was ever accepted has been recorded, once for each time it was accepted.
\<close>

theorem close_drains:
  assumes "new_pool qsize workers = Some p0" and "pool_step\<^sup>*\<^sup>* p0 p"
    and "(work_step ^^ n) (close_pool p) p'"
  shows "mset (pl_accepted p) = mset (pl_buf p) + mset (pl_busy p) + mset (pl_recorded p) \<and>
    length (pl_buf p) \<le> pl_cap p \<and> try_send ev (close_pool p) = None \<and>
    n \<le> 2 * length (pl_buf p) + length (pl_busy p) \<and>
    ((\<exists>p''. work_step p' p'') \<or> mset (pl_recorded p') = mset (pl_accepted p))"
proof -
  have ok: "pool_ok p" using pool_steps_ok [OF assms(2) new_pool_ok [OF assms(1)]] .
  then have "pool_ok (close_pool p)" by (simp add: pool_ok_def close_pool_def)
  with assms(3) have ok': "pool_ok p'" by (rule work_steps_ok)
  have n: "n \<le> work_left (close_pool p)" "pl_accepted p' = pl_accepted p"
    using work_steps_bounded [OF assms(3)] by (simp_all add: close_pool_def)
  show ?thesis
    using ok n stuck_is_drained [OF ok'] by (auto simp: pool_ok_def try_send_def close_pool_def work_left_def)
qed

text \<open>Two events, one worker: four steps after the close, the most there can be, and both are recorded.\<close>

theorem close_drains_witness:
  "\<exists>p p'. pl_buf p = [5, 6 :: nat] \<and> (work_step ^^ 4) (close_pool p) p' \<and> 4 = 2 * length (pl_buf p) + length (pl_busy p) \<and>
     mset (pl_recorded p') = mset (pl_accepted p) \<and> try_send 7 (close_pool p) = None"
proof -
  define at :: "nat list \<Rightarrow> nat list \<Rightarrow> nat list \<Rightarrow> nat list \<Rightarrow> bool \<Rightarrow> nat pool" where
    "at buf busy acc rec closed = \<lparr>pl_cap = 8, pl_workers = 1, pl_buf = buf, pl_busy = busy, pl_closed = closed,
       pl_accepted = acc, pl_recorded = rec\<rparr>" for buf busy acc rec closed
  let ?p = "at [5, 6] [] [5, 6] [] False" and ?e = "at [] [] [5, 6] [5, 6] True"
  have new: "new_pool 8 1 = Some (at [] [] [] [] False)" by (simp add: new_pool_def at_def)
  have "pool_step (at [] [] [] [] False) (at [5] [] [5] [] False)" "pool_step (at [5] [] [5] [] False) ?p"
    unfolding pool_step_def by (auto intro!: serve_step.send [where ok = True] simp: try_send_def at_def)
  then have reach: "pool_step\<^sup>*\<^sup>* (at [] [] [] [] False) ?p" by (meson converse_rtranclp_into_rtranclp rtranclp.rtrancl_refl)
  have c: "close_pool ?p = at [5, 6] [] [5, 6] [] True" by (simp add: close_pool_def at_def)
  have take: "work_step (at (e # buf) [] acc rec True) (at buf [e] acc rec True)" for e buf acc rec
    using work_step.receive [of "at (e # buf) [] acc rec True" e buf] by (simp add: at_def)
  have fin: "work_step (at buf [e] acc rec True) (at buf [] acc (rec @ [e]) True)" for e buf acc rec
    using work_step.finish [of "at buf [e] acc rec True" "[]" e "[]"] by (simp add: at_def)
  have "(work_step ^^ 4) (close_pool ?p) ?e"
    unfolding c using take [of 5 "[6]" "[5, 6]" "[]"] fin [of "[6]" 5 "[5, 6]" "[]"] take [of 6 "[]" "[5, 6]" "[5]"] fin [of "[]" 6 "[5, 6]" "[5]"]
    by (auto simp: numeral_eq_Suc)
  moreover from close_drains [OF new reach this, of 7]
  have "mset (pl_recorded ?e) = mset (pl_accepted ?p)" "try_send 7 (close_pool ?p) = None"
    by (auto simp: at_def elim: work_step.cases)
  ultimately show ?thesis by (intro exI [of _ ?p] exI [of _ ?e]) (simp add: at_def)
qed

end
