(* ===== verification/Handler.thy ===== *)
theory Handler
  imports Registry Limiter Identity Path UA Geo GoJson Pool
begin

text \<open>
  The ingest handler, \<open>internal/ingest/handler.go\<close>: the gates a posted event passes, the answer, the
  queue of accepted events and what a worker makes of one.

  \<^item> \<open>payload\<close>, \<open>raw\<close>, \<open>server\<close>: the structs; \<open>ingest_call\<close>: the metrics of the handler.
  \<^item> \<open>handleEvent\<close> and its parts, \<open>reject\<close>, \<open>writeCORS\<close>, \<open>validate\<close>, \<open>validSignature\<close>;
    \<open>enrichEvent\<close>: the code. A send on the closed queue panics (\<open>None\<close>).
  \<^item> The clock, the salt of the moment and the configuration of the moment are arguments.
\<close>

section \<open>The structs\<close>

record payload =
  p_Name :: string
  p_Domain :: string
  p_URL :: string
  p_Referrer :: string
  p_Width :: int
  p_Engaged :: rat

record 're raw =
  ev_site :: "'re site"
  ev_p :: payload
  ev_ip :: addr
  ev_ua :: string
  ev_at :: time

datatype ingest_call =
    IngestEvent string string
  | QueueDepth nat
  | IngestLatency duration
  | GeoLookup string

record response =
  rs_code :: nat
  rs_header :: "(string, string) gomap"
  rs_body :: string

record 're ingest_server =
  sv_limiter :: limiter
  sv_queue :: "'re raw pool"

text \<open>What lies outside the repository: the platform of the configuration and the URL setting.\<close>

record 're ingest_env =
  ie_platform :: "'re platform"
  ie_strict :: "string \<Rightarrow> bool"

abbreviation ie_lower :: "'re ingest_env \<Rightarrow> int \<Rightarrow> int" where
  "ie_lower ie \<equiv> pf_lower (ie_platform ie)"

definition NewServer :: "'re config \<Rightarrow> 're ingest_server option" where
  "NewServer cfg =
     (case new_pool (QueueSize (Server cfg)) (Workers (Server cfg)) of
        None \<Rightarrow> None
      | Some q \<Rightarrow> Some \<lparr>sv_limiter = NewLimiter (RatePerMin (Server cfg)) 200000, sv_queue = q\<rparr>)"

definition server_Sweep :: "time \<Rightarrow> 're ingest_server \<Rightarrow> 're ingest_server" where
  "server_Sweep now s = s\<lparr>sv_limiter := limiter_Sweep now (sv_limiter s)\<rparr>"

section \<open>Decoding\<close>

definition zero_payload :: payload where
  "zero_payload = \<lparr>p_Name = [], p_Domain = [], p_URL = [], p_Referrer = [], p_Width = 0, p_Engaged = 0\<rparr>"

text \<open>One member of the object into its field; \<open>null\<close> leaves a field as it is.\<close>

definition decode_member :: "string \<times> json \<Rightarrow> payload \<Rightarrow> payload option" where
  "decode_member kv p =
     (let k = json_string (fst kv); v = snd kv;
          str = (\<lambda>set. case v of JNull \<Rightarrow> Some p | JStr s \<Rightarrow> Some (set (\<lambda>_. json_string s) p) | _ \<Rightarrow> None)
      in if k = ''n'' \<or> k = ''N'' then str p_Name_update
         else if k = ''d'' \<or> k = ''D'' then str p_Domain_update
         else if k = ''u'' \<or> k = ''U'' then str p_URL_update
         else if k = ''r'' \<or> k = ''R'' then str p_Referrer_update
         else if k = ''w'' \<or> k = ''W'' then
           (case v of
              JNull \<Rightarrow> Some p
            | JNum n \<Rightarrow> map_option (\<lambda>w. p\<lparr>p_Width := w\<rparr>) (ParseInt n)
            | _ \<Rightarrow> None)
         else if k = ''e'' \<or> k = ''E'' then
           (case v of
              JNull \<Rightarrow> Some p
            | JNum n \<Rightarrow> map_option (\<lambda>x. p\<lparr>p_Engaged := x\<rparr>) (ParseFloat n)
            | _ \<Rightarrow> None)
         else if k = ''p'' \<or> k = ''P'' then Some p
         else None)"

definition decode_payload :: "string \<Rightarrow> payload option" where
  "decode_payload body =
     (case json_decode body of
        Some JNull \<Rightarrow> Some zero_payload
      | Some (JObj ms) \<Rightarrow> loop_opt decode_member ms zero_payload
      | _ \<Rightarrow> None)"

definition read_body :: "int \<Rightarrow> request \<Rightarrow> string option" where
  "read_body limit r =
     (case rq_Body r of
        None \<Rightarrow> None
      | Some b \<Rightarrow> if int (length b) \<le> max 0 limit then Some b else None)"

section \<open>The handler\<close>

definition writeCORS :: "string \<Rightarrow> (string, string) gomap \<Rightarrow> (string, string) gomap" where
  "writeCORS origin h =
     (let origin = (if origin = [] then ''*'' else origin) in
      fold (\<lambda>(k, v). AList.update k v)
        [(''Access-Control-Allow-Origin'', origin), (''Access-Control-Allow-Methods'', ''POST, OPTIONS''),
         (''Access-Control-Allow-Headers'', ''Content-Type, X-Signature''), (''Access-Control-Max-Age'', ''86400''),
         (''Vary'', ''Origin'')] h)"

definition reject :: "string \<Rightarrow> string \<Rightarrow> string \<Rightarrow> nat \<Rightarrow> ingest_call list \<times> response" where
  "reject origin site reason code =
     ([IngestEvent (if site = [] then ''unknown'' else site) reason],
      \<lparr>rs_code = code, rs_header = writeCORS origin [], rs_body = []\<rparr>)"

definition validate :: "(int \<Rightarrow> int) \<Rightarrow> payload \<Rightarrow> payload option" where
  "validate lower p =
     (let p = p\<lparr>p_Name := ToLower lower (TrimSpace (p_Name p))\<rparr> in
      if p_Name p = [] \<or> 64 < length (p_Name p) then None
      else if p_URL p = [] \<or> 2048 < length (p_URL p) then None
      else
        (let p = (if 2048 < length (p_Referrer p) then p\<lparr>p_Referrer := []\<rparr> else p);
             p = (if p_Width p < 0 \<or> 30000 < p_Width p then p\<lparr>p_Width := 0\<rparr> else p);
             p = (if p_Engaged p < 0 \<or> 3600 < p_Engaged p then p\<lparr>p_Engaged := 0\<rparr> else p)
         in Some p))"

text \<open>\<open>hex.DecodeString\<close>.\<close>

fun hex_decode :: "string \<Rightarrow> string option" where
  "hex_decode [] = Some []"
| "hex_decode [_] = None"
| "hex_decode (a # b # s) =
     (if is_hex a \<and> is_hex b then map_option ((#) (char_of (16 * hex_val a + hex_val b))) (hex_decode s) else None)"

definition validSignature :: "string \<Rightarrow> string \<Rightarrow> string \<Rightarrow> bool" where
  "validSignature key body sig =
     (case hex_decode sig of None \<Rightarrow> False | Some got \<Rightarrow> hmac_sha256 key body = got)"

text \<open>The gates, in order: a rejection (site, reason, status) or the site and the payload.\<close>

definition event_gates ::
  "'re ingest_env \<Rightarrow> 're config \<Rightarrow> request \<Rightarrow> (string \<times> string \<times> nat) + ('re site \<times> payload)" where
  "event_gates ie cfg r =
     (let origin = rq_Header r ''Origin'' in
      case read_body (MaxBodyD (Server cfg)) r of
        None \<Rightarrow> Inl ([], ''malformed'', 413)
      | Some body \<Rightarrow>
          (case decode_payload body of
             None \<Rightarrow> Inl ([], ''malformed'', 400)
           | Some p \<Rightarrow>
               (let p = p\<lparr>p_Domain := ToLower (ie_lower ie) (TrimSpace (p_Domain p))\<rparr> in
                case config_Site (ie_platform ie) cfg (p_Domain p) of
                  None \<Rightarrow> Inl ([], ''unknown_site'', 404)
                | Some site \<Rightarrow>
                    if \<not> AllowsOrigin (ie_platform ie) site origin then Inl (Domain site, ''rejected_origin'', 403)
                    else if HMACKey site \<noteq> [] \<and> \<not> validSignature (HMACKey site) body (rq_Header r ''X-Signature'')
                    then Inl (Domain site, ''bad_signature'', 403)
                    else
                      (case validate (ie_lower ie) p of
                         None \<Rightarrow> Inl (Domain site, ''malformed'', 400)
                       | Some p \<Rightarrow>
                           if ua_Bot (ParseUA (ie_lower ie) (rq_Header r ''User-Agent'')) then Inl (Domain site, ''bot'', 202)
                           else Inr (site, p)))))"

text \<open>The send to the queue, its count and the queue depth.\<close>

definition enqueue ::
  "'re raw \<Rightarrow> 're ingest_server \<Rightarrow> ('re ingest_server \<times> ingest_call list) option" where
  "enqueue ev s =
     (case try_send ev (sv_queue s) of
        None \<Rightarrow> None
      | Some (ok, q) \<Rightarrow>
          Some (s\<lparr>sv_queue := q\<rparr>,
            [IngestEvent (Domain (ev_site ev)) (if ok then ''accepted'' else ''queue_full''), QueueDepth (length (pl_buf q))]))"

definition handle_post ::
  "'re ingest_env \<Rightarrow> 're config \<Rightarrow> request \<Rightarrow> time \<Rightarrow> 're ingest_server \<Rightarrow>
     ('re ingest_server \<times> ingest_call list \<times> response) option" where
  "handle_post ie cfg r now s =
     (let origin = rq_Header r ''Origin'' in
      case event_gates ie cfg r of
        Inl (site, reason, code) \<Rightarrow> Some (s, reject origin site reason code)
      | Inr (site, p) \<Rightarrow>
          (let ip = ClientIP r (TrustProxy (Server cfg)); (ok, l) = Allow (rateKey ip) now (sv_limiter s);
               s = s\<lparr>sv_limiter := l\<rparr>
           in if \<not> ok then Some (s, reject origin (Domain site) ''rate_limited'' 429)
              else
                (case enqueue \<lparr>ev_site = site, ev_p = p, ev_ip = ip, ev_ua = rq_Header r ''User-Agent'', ev_at = now\<rparr> s of
                   None \<Rightarrow> None
                 | Some (s, calls) \<Rightarrow>
                     Some (s, calls, \<lparr>rs_code = 202, rs_header = writeCORS origin [], rs_body = []\<rparr>))))"

text \<open>\<open>http.Error\<close> sets two headers and writes the text with a newline.\<close>

definition handleEvent ::
  "'re ingest_env \<Rightarrow> 're config \<Rightarrow> request \<Rightarrow> time \<Rightarrow> duration \<Rightarrow> 're ingest_server \<Rightarrow>
     ('re ingest_server \<times> ingest_call list \<times> response) option" where
  "handleEvent ie cfg r now elapsed s =
     map_option (\<lambda>(s, calls, rs). (s, calls @ [IngestLatency elapsed], rs))
       (if rq_Method r = ''OPTIONS'' then
          Some (s, [], \<lparr>rs_code = 204, rs_header = writeCORS (rq_Header r ''Origin'') [], rs_body = []\<rparr>)
        else if rq_Method r \<noteq> ''POST'' then
          Some (s, [], \<lparr>rs_code = 405,
            rs_header = [(''Allow'', ''POST, OPTIONS''), (''Content-Type'', ''text/plain; charset=utf-8''),
              (''X-Content-Type-Options'', ''nosniff'')],
            rs_body = ''method not allowed'' @ [CHR 0x0A]\<rparr>)
        else handle_post ie cfg r now s)"

section \<open>The worker\<close>

definition base_observation :: "'re ingest_env \<Rightarrow> salt \<Rightarrow> 're raw \<Rightarrow> observation" where
  "base_observation ie salt ev =
     \<lparr>o_Site = Domain (ev_site ev), o_Kind = KindPageview, o_Name = p_Name (ev_p ev),
      o_Path = site_Rewrite (ie_platform ie) (ev_site ev) (NormalizePath (ie_lower ie) (ie_strict ie) (p_URL (ev_p ev))),
      o_Referrer = [], o_Source = [], o_Medium = [], o_Campaign = [], o_Country = [], o_Region = [], o_City = [],
      o_ASN = [], o_ASOrg = [], o_Browser = [], o_OS = [], o_Device = [], o_Screen = [],
      o_VisitorID = VisitorID (ev_ip ev) (ev_ua ev) (Domain (ev_site ev)) salt, o_TimeOnPage = 0, o_At = ev_at ev\<rparr>"

definition pageview_observation :: "'re ingest_env \<Rightarrow> 're raw \<Rightarrow> observation \<Rightarrow> observation" where
  "pageview_observation ie ev ob =
     (let u = ParseUTM (ie_lower ie) (ie_strict ie) (p_URL (ev_p ev));
          ref = ReferrerHost (ie_lower ie) (ie_strict ie) (p_Referrer (ev_p ev)) (Domain (ev_site ev));
          c = ParseUA (ie_lower ie) (ev_ua ev)
      in ob\<lparr>o_Source := (if utm_Source u = [] \<and> ref \<noteq> [] then ref else utm_Source u),
            o_Medium := utm_Medium u, o_Campaign := utm_Campaign u, o_Referrer := ref,
            o_Browser := ua_Browser c, o_OS := ua_OS c, o_Device := ua_Device c,
            o_Screen := ScreenClass (p_Width (ev_p ev))\<rparr>)"

definition geo_observation :: "geo_result \<Rightarrow> observation \<Rightarrow> observation \<times> ingest_call list" where
  "geo_observation g ob =
     (ob\<lparr>o_Country := gr_Country g, o_Region := gr_Region g, o_City := gr_City g, o_ASN := gr_ASN g, o_ASOrg := gr_ASOrg g\<rparr>,
      [GeoLookup (if gr_Country g = [] \<and> gr_ASN g = [] then ''miss'' else ''hit'')])"

text \<open>\<open>enrichEvent\<close>; the provider may be nil.\<close>

definition enrichEvent ::
  "'re ingest_env \<Rightarrow> salt \<Rightarrow> (addr \<Rightarrow> geo_result) option \<Rightarrow> 're raw \<Rightarrow> observation \<times> ingest_call list" where
  "enrichEvent ie salt lookup ev =
     (let ob = base_observation ie salt ev in
      if p_Name (ev_p ev) = ''pageview'' then
        (let ob = pageview_observation ie ev ob in
         case lookup of None \<Rightarrow> (ob, []) | Some f \<Rightarrow> geo_observation (f (ev_ip ev)) ob)
      else if p_Name (ev_p ev) = ''engagement'' then
        (ob\<lparr>o_Kind := KindEngagement, o_TimeOnPage := float_to_int (fl (p_Engaged (ev_p ev) * 1000000000))\<rparr>, [])
      else (ob\<lparr>o_Kind := KindCustom\<rparr>, []))"

section \<open>Routes\<close>

datatype endpoint = EventEndpoint | HealthEndpoint | ScriptEndpoint

text \<open>The patterns of the mux are whole paths.\<close>

definition Routes :: "string \<Rightarrow> bool \<Rightarrow> (string, endpoint) gomap" where
  "Routes counterJS serveJS =
     [(''/api/event'', EventEndpoint), (''/api/health'', HealthEndpoint)] @
     (if serveJS \<and> counterJS \<noteq> [] then [(''/counter.js'', ScriptEndpoint)] else [])"

definition handle_health :: response where
  "handle_health = \<lparr>rs_code = 200, rs_header = [], rs_body = ''ok'' @ [CHR 0x0A]\<rparr>"

definition script_headers :: "(string, string) gomap" where
  "script_headers = [(''Content-Type'', ''application/javascript; charset=utf-8''),
     (''Cache-Control'', ''public, max-age=86400''), (''Access-Control-Allow-Origin'', ''*'')]"

section \<open>The gates\<close>

text \<open>A payload \<open>validate\<close> lets pass.\<close>

definition valid_payload :: "payload \<Rightarrow> bool" where
  "valid_payload p \<longleftrightarrow>
     p_Name p \<noteq> [] \<and> length (p_Name p) \<le> 64 \<and> p_URL p \<noteq> [] \<and> length (p_URL p) \<le> 2048 \<and> length (p_Referrer p) \<le> 2048 \<and>
     0 \<le> p_Width p \<and> p_Width p \<le> 30000 \<and> 0 \<le> p_Engaged p \<and> p_Engaged p \<le> 3600"

lemma validate_valid: "validate lower p = Some p' \<Longrightarrow> valid_payload p' \<and> p_URL p' = p_URL p \<and> p_Domain p' = p_Domain p"
  by (auto simp: validate_def Let_def valid_payload_def split: if_splits)

lemma validate_None:
  "validate lower p = None \<longleftrightarrow>
     ToLower lower (TrimSpace (p_Name p)) = [] \<or> 64 < length (ToLower lower (TrimSpace (p_Name p))) \<or>
     p_URL p = [] \<or> 2048 < length (p_URL p)"
  by (simp add: validate_def Let_def)

definition passes_gates ::
  "'re ingest_env \<Rightarrow> 're config \<Rightarrow> request \<Rightarrow> 're site \<Rightarrow> payload \<Rightarrow> bool" where
  "passes_gates ie cfg r site p \<longleftrightarrow>
     (\<exists>body sent. read_body (MaxBodyD (Server cfg)) r = Some body \<and> decode_payload body = Some sent \<and>
        config_Site (ie_platform ie) cfg (ToLower (ie_lower ie) (TrimSpace (p_Domain sent))) = Some site \<and>
        AllowsOrigin (ie_platform ie) site (rq_Header r ''Origin'') \<and>
        (HMACKey site = [] \<or> validSignature (HMACKey site) body (rq_Header r ''X-Signature'')) \<and>
        validate (ie_lower ie) (sent\<lparr>p_Domain := ToLower (ie_lower ie) (TrimSpace (p_Domain sent))\<rparr>) = Some p \<and>
        \<not> ua_Bot (ParseUA (ie_lower ie) (rq_Header r ''User-Agent'')))"

lemma event_gates_Inr: "event_gates ie cfg r = Inr (site, p) \<longleftrightarrow> passes_gates ie cfg r site p"
  by (auto simp: event_gates_def passes_gates_def Let_def split: option.splits if_splits)

text \<open>The outcomes the ingest counter knows, each with the status the client sees.\<close>

definition ingest_outcomes :: "(string \<times> nat) list" where
  "ingest_outcomes =
     [(''accepted'', 202), (''queue_full'', 202), (''bot'', 202), (''malformed'', 400), (''malformed'', 413),
      (''unknown_site'', 404), (''rejected_origin'', 403), (''bad_signature'', 403), (''rate_limited'', 429)]"

lemma event_gates_Inl:
  "event_gates ie cfg r = Inl (site, reason, code) \<Longrightarrow>
     (reason, code) \<in> set ingest_outcomes \<and> reason \<noteq> ''accepted'' \<and>
     (site = [] \<or> (\<exists>d s. config_Site (ie_platform ie) cfg d = Some s \<and> site = Domain s))"
  by (auto simp: event_gates_def ingest_outcomes_def Let_def split: option.splits if_splits)

fun counted :: "ingest_call \<Rightarrow> bool" where
  "counted (IngestEvent site result) = True"
| "counted _ = False"

text \<open>A configuration whose lookup finds every site under its own domain, as \<open>finalize\<close> leaves it.\<close>

lemma finalized_lookup:
  assumes "finalize pf c0 = Inr c" and "config_Site pf c d = Some s"
  shows "Domain s \<in> dom (map_of (cfg_sites c)) \<and> Domain s \<noteq> []"
proof -
  let ?g = "global_defaults c0"
  have c: "\<forall>s \<in> set (Sites c0). acceptable pf ?g s" "distinct (map (domain_key pf) (Sites c0))"
      "Sites c = map (built_site pf ?g) (Sites c0)"
      "cfg_sites c = fold (\<lambda>s. AList.update (Domain s) s) (Sites c) []"
    using assms(1) unfolding finalize_Inr by auto
  have dist: "distinct (map Domain (Sites c))" using c(2) by (simp add: c(3) comp_def)
  have look: "map_of (cfg_sites c) k = Some x \<longleftrightarrow> x \<in> set (Sites c) \<and> Domain x = k" for k x
    using find_site [OF dist, of k x] unfolding c(4) fold_update_sites [OF dist] by (auto split: option.split)
  have "s \<in> set (Sites c)" "map_of (cfg_sites c) (Domain s) = Some s"
    using assms(2) look unfolding config_Site_def by auto
  moreover from this have "Domain s \<noteq> []" using c(1,3) by (auto simp: acceptable_def)
  ultimately show ?thesis by blast
qed

text \<open>The calls of one send.\<close>

lemma enqueue_cases:
  assumes "enqueue ev s = Some (s', calls)"
  obtains ok q where "try_send ev (sv_queue s) = Some (ok, q)" "s' = s\<lparr>sv_queue := q\<rparr>"
    "calls = [IngestEvent (Domain (ev_site ev)) (if ok then ''accepted'' else ''queue_full''), QueueDepth (length (pl_buf q))]"
  using assms by (auto simp: enqueue_def split: option.splits)

text \<open>What becomes of a posted event, in the order of the code.\<close>

lemma handle_post_cases:
  assumes "handle_post ie cfg r now s = Some (s', calls, rs)"
  obtains (rejected) site reason code where "event_gates ie cfg r = Inl (site, reason, code)" "s' = s"
      "(calls, rs) = reject (rq_Header r ''Origin'') site reason code"
  | (limited) site p l where "event_gates ie cfg r = Inr (site, p)"
      "Allow (rateKey (ClientIP r (TrustProxy (Server cfg)))) now (sv_limiter s) = (False, l)"
      "s' = s\<lparr>sv_limiter := l\<rparr>" "(calls, rs) = reject (rq_Header r ''Origin'') (Domain site) ''rate_limited'' 429"
  | (sent) site p l ok q where "event_gates ie cfg r = Inr (site, p)"
      "Allow (rateKey (ClientIP r (TrustProxy (Server cfg)))) now (sv_limiter s) = (True, l)"
      "try_send \<lparr>ev_site = site, ev_p = p, ev_ip = ClientIP r (TrustProxy (Server cfg)),
         ev_ua = rq_Header r ''User-Agent'', ev_at = now\<rparr> (sv_queue s) = Some (ok, q)"
      "s' = s\<lparr>sv_limiter := l, sv_queue := q\<rparr>"
      "calls = [IngestEvent (Domain site) (if ok then ''accepted'' else ''queue_full''), QueueDepth (length (pl_buf q))]"
      "rs = \<lparr>rs_code = 202, rs_header = writeCORS (rq_Header r ''Origin'') [], rs_body = []\<rparr>"
proof (cases "event_gates ie cfg r")
  case (Inl x)
  then show thesis using assms rejected by (cases x) (auto simp: handle_post_def Let_def)
next
  case (Inr x)
  obtain site p where x: "x = (site, p)" by (cases x)
  obtain ok l where a: "Allow (rateKey (ClientIP r (TrustProxy (Server cfg)))) now (sv_limiter s) = (ok, l)" by force
  show thesis
  proof (cases ok)
    case False
    then show thesis using assms Inr x a limited by (auto simp: handle_post_def Let_def)
  next
    case True
    let ?ev = "\<lparr>ev_site = site, ev_p = p, ev_ip = ClientIP r (TrustProxy (Server cfg)),
         ev_ua = rq_Header r ''User-Agent'', ev_at = now\<rparr>"
    from True assms Inr x a obtain s'' where e: "enqueue ?ev (s\<lparr>sv_limiter := l\<rparr>) = Some (s', calls)"
      and rs: "rs = \<lparr>rs_code = 202, rs_header = writeCORS (rq_Header r ''Origin'') [], rs_body = []\<rparr>"
      by (auto simp: handle_post_def Let_def split: option.splits)
    from e show thesis
      by (rule enqueue_cases) (use sent Inr x a True rs in auto)
  qed
qed

lemma handleEvent_POST:
  assumes "rq_Method r = ''POST''" and "handleEvent ie cfg r now elapsed s = Some (s', calls, rs)"
  obtains calls' where "handle_post ie cfg r now s = Some (s', calls', rs)" "calls = calls' @ [IngestLatency elapsed]"
  using assms by (auto simp: handleEvent_def)

lemma config_domain:
  assumes "finalize (ie_platform ie) c0 = Inr cfg" and "event_gates ie cfg r = Inr (site, p)"
  shows "Domain site \<in> dom (map_of (cfg_sites cfg)) \<and> Domain site \<noteq> []"
  using assms finalized_lookup [OF assms(1)] unfolding event_gates_Inr passes_gates_def by blast

section \<open>Properties\<close>

text \<open>
  C10: Every posted event is counted exactly once, under a closed vocabulary. With a configuration that
  \<open>finalize\<close> accepted, a POST adds one to exactly one series of the ingest counter; its result is
  one of eight words, each with the status the client sees; and its site is a configured one or
  \<open>unknown\<close>, never a string of the client. Any other method counts nothing.
\<close>

theorem every_post_counted_once:
  assumes "finalize (ie_platform ie) c0 = Inr cfg" and "handleEvent ie cfg r now elapsed s = Some (s', calls, rs)"
  shows "filter counted calls \<in>
    (if rq_Method r = ''POST'' then
       {[IngestEvent site result] | site result.
         (result, rs_code rs) \<in> set ingest_outcomes \<and> site \<in> insert ''unknown'' (dom (map_of (cfg_sites cfg)))}
     else {[]})"
proof (cases "rq_Method r = ''POST''")
  case False
  with assms(2) show ?thesis by (auto simp: handleEvent_def split: if_splits)
next
  case True
  from handleEvent_POST [OF this assms(2)] obtain calls' where
    p: "handle_post ie cfg r now s = Some (s', calls', rs)" and c: "calls = calls' @ [IngestLatency elapsed]" .
  from p show ?thesis
  proof (cases rule: handle_post_cases)
    case (rejected site reason code)
    have "site = [] \<or> site \<in> dom (map_of (cfg_sites cfg))"
      using event_gates_Inl [OF rejected(1)] finalized_lookup [OF assms(1)] by blast
    with event_gates_Inl [OF rejected(1)] rejected True c show ?thesis by (auto simp: reject_def)
  next
    case (limited site p l)
    with config_domain [OF assms(1) limited(1)] True c show ?thesis by (auto simp: reject_def ingest_outcomes_def)
  next
    case (sent site p l ok q)
    with config_domain [OF assms(1) sent(1)] True c show ?thesis by (auto simp: ingest_outcomes_def)
  qed
qed

definition example_env :: "string ingest_env" where
  "example_env = \<lparr>ie_platform = plain_platform, ie_strict = (\<lambda>_. True)\<rparr>"

definition unreadable_request :: request where
  "unreadable_request = \<lparr>rq_Method = ''POST'', rq_Header = (\<lambda>_. []), rq_RemoteAddr = ''192.0.2.1:4711'', rq_Body = None\<rparr>"

definition example_server :: "string ingest_server" where
  "example_server = \<lparr>sv_limiter = \<lparr>lm_rate = 1, lm_burst = 5, lm_max = 9, lm_buckets = []\<rparr>,
     sv_queue = \<lparr>pl_cap = 2, pl_workers = 1, pl_buf = [], pl_busy = [], pl_closed = False, pl_accepted = [], pl_recorded = []\<rparr>\<rparr>"

theorem every_post_counted_once_witness:
  "\<exists>s' calls rs site result. handleEvent example_env
       (example_config\<lparr>cfg_Defaults := global_defaults example_config, Sites := [example_built],
          cfg_sites := [(domain_key plain_platform example_site, example_built)]\<rparr>)
       unreadable_request 7 3 example_server = Some (s', calls, rs) \<and>
     filter counted calls = [IngestEvent site result]"
proof -
  let ?cfg = "example_config\<lparr>cfg_Defaults := global_defaults example_config, Sites := [example_built],
          cfg_sites := [(domain_key plain_platform example_site, example_built)]\<rparr>"
  have f: "finalize (ie_platform example_env) example_config = Inr ?cfg"
    using example_finalized by (simp add: example_env_def)
  have "event_gates example_env ?cfg unreadable_request = Inl ([], ''malformed'', 413)"
    by (simp add: event_gates_def read_body_def unreadable_request_def)
  then obtain s' calls rs where h: "handleEvent example_env ?cfg unreadable_request 7 3
      example_server = Some (s', calls, rs)"
    by (auto simp: handleEvent_def handle_post_def reject_def unreadable_request_def)
  from every_post_counted_once [OF f h] h show ?thesis by (auto simp: unreadable_request_def)
qed

text \<open>Everything that must hold for an event to be queued, and the event that is.\<close>

definition has_room :: "'a pool \<Rightarrow> bool" where
  "has_room q \<longleftrightarrow> length (pl_buf q) < pl_cap q \<or> pl_cap q = 0 \<and> length (pl_busy q) < pl_workers q"

definition queues ::
  "'re ingest_env \<Rightarrow> 're config \<Rightarrow> request \<Rightarrow> time \<Rightarrow> 're ingest_server \<Rightarrow> 're raw \<Rightarrow> bool" where
  "queues ie cfg r now s ev \<longleftrightarrow>
     rq_Method r = ''POST'' \<and> passes_gates ie cfg r (ev_site ev) (ev_p ev) \<and> valid_payload (ev_p ev) \<and>
     ev_ip ev = ClientIP r (TrustProxy (Server cfg)) \<and> fst (Allow (rateKey (ev_ip ev)) now (sv_limiter s)) \<and>
     has_room (sv_queue s) \<and> ev_ua ev = rq_Header r ''User-Agent'' \<and> ev_at ev = now"

lemma try_send_room: "try_send ev q = Some (ok, q') \<Longrightarrow> ok = has_room q \<and> pl_accepted q' = pl_accepted q @ (if ok then [ev] else [])"
  by (auto simp: try_send_def has_room_def split: if_splits)

lemma passes_gates_valid: "passes_gates ie cfg r site p \<Longrightarrow> valid_payload p"
  unfolding passes_gates_def using validate_valid by blast

text \<open>
  C8: Only events that pass every gate reach the queue, and all of them that find room do. An event is
  sent to the workers exactly when it was posted, its body was within the limit and decoded, its
  domain is a configured site, the origin is on the site's allowlist, the signature verifies if
  the site has a key, the payload is within its bounds, the client is no bot, the rate limiter
  lets it through and the buffer has room; then exactly one such event is appended and counted as
  accepted, and otherwise the queue is as before and nothing is counted as accepted.
\<close>

theorem event_queued_iff_gates_pass:
  assumes "handleEvent ie cfg r now elapsed s = Some (s', calls, rs)"
  shows "(\<exists>ev. queues ie cfg r now s ev \<and> pl_accepted (sv_queue s') = pl_accepted (sv_queue s) @ [ev] \<and>
            IngestEvent (Domain (ev_site ev)) ''accepted'' \<in> set calls) \<or>
         (\<nexists>ev. queues ie cfg r now s ev) \<and> sv_queue s' = sv_queue s \<and> (\<nexists>d. IngestEvent d ''accepted'' \<in> set calls)"
proof (cases "rq_Method r = ''POST''")
  case False
  with assms have "sv_queue s' = sv_queue s" "\<nexists>d. IngestEvent d ''accepted'' \<in> set calls"
    by (auto simp: handleEvent_def split: if_splits)
  with False show ?thesis by (simp add: queues_def)
next
  case True
  from handleEvent_POST [OF this assms] obtain calls' where
    p: "handle_post ie cfg r now s = Some (s', calls', rs)" and c: "calls = calls' @ [IngestLatency elapsed]" .
  from p show ?thesis
  proof (cases rule: handle_post_cases)
    case (rejected site reason code)
    then have "\<nexists>ev. queues ie cfg r now s ev"
      unfolding queues_def event_gates_Inr [symmetric] by simp
    with rejected event_gates_Inl [OF rejected(1)] c show ?thesis by (auto simp: reject_def)
  next
    case (limited site p l)
    then have "\<nexists>ev. queues ie cfg r now s ev" by (auto simp: queues_def)
    with limited c show ?thesis by (auto simp: reject_def)
  next
    case (sent site p l ok q)
    let ?ev = "\<lparr>ev_site = site, ev_p = p, ev_ip = ClientIP r (TrustProxy (Server cfg)),
         ev_ua = rq_Header r ''User-Agent'', ev_at = now\<rparr>"
    note room = try_send_room [OF sent(3)]
    show ?thesis
    proof (cases ok)
      case ok': True
      have "queues ie cfg r now s ?ev"
        using True sent(1,2) room ok' passes_gates_valid by (auto simp: queues_def event_gates_Inr)
      moreover have "pl_accepted (sv_queue s') = pl_accepted (sv_queue s) @ [?ev]" using room ok' sent(4) by simp
      ultimately show ?thesis using sent(5) ok' c by (intro disjI1 exI [of _ ?ev]) simp
    next
      case full: False
      then have "q = sv_queue s" using sent(3) by (auto simp: try_send_def split: if_splits)
      moreover have "\<nexists>ev. queues ie cfg r now s ev" using room full by (simp add: queues_def)
      ultimately show ?thesis using sent(4,5) full c by simp
    qed
  qed
qed

definition example_request :: request where
  "example_request = \<lparr>rq_Method = ''POST'',
     rq_Header = (\<lambda>h. if h = ''Origin'' then ''https://example.org'' else if h = ''User-Agent'' then ''Firefox/128'' else []),
     rq_RemoteAddr = ''192.0.2.1:4711'',
     rq_Body = Some (map (\<lambda>c. if c = CHR ''~'' then CHR 0x22 else c) ''{~n~:~pageview~,~d~:~Example.org~,~u~:~/about~,~w~:800}'')\<rparr>"

abbreviation example_running :: "string config" where
  "example_running \<equiv> example_config\<lparr>cfg_Defaults := global_defaults example_config, Sites := [example_built],
     cfg_sites := [(domain_key plain_platform example_site, example_built)]\<rparr>"

lemma example_accepted:
  "map_option (\<lambda>(s, calls, rs). calls) (handleEvent example_env example_running example_request 7 3 example_server) =
     Some [IngestEvent ''example.org'' ''accepted'', QueueDepth 1, IngestLatency 3]"
  by code_simp

theorem event_queued_iff_gates_pass_witness:
  "\<exists>s' calls rs ev. handleEvent example_env example_running example_request 7 3 example_server = Some (s', calls, rs) \<and>
     queues example_env example_running example_request 7 example_server ev \<and> pl_accepted (sv_queue s') = [ev]"
proof -
  obtain s' calls rs where h: "handleEvent example_env example_running example_request 7 3 example_server = Some (s', calls, rs)"
    "calls = [IngestEvent ''example.org'' ''accepted'', QueueDepth 1, IngestLatency 3]"
    using example_accepted by auto
  moreover have "pl_accepted (sv_queue example_server) = []" by (simp add: example_server_def)
  ultimately show ?thesis using event_queued_iff_gates_pass [OF h(1)] by auto
qed

text \<open>What the handler does to the queue is a step of the pool, so \<open>Pool\<close>'s results hold of the server.\<close>

lemma handleEvent_pool_step:
  assumes "handleEvent ie cfg r now elapsed s = Some (s', calls, rs)"
  shows "pool_step\<^sup>*\<^sup>* (sv_queue s) (sv_queue s')"
proof (cases "rq_Method r = ''POST''")
  case False
  with assms show ?thesis by (auto simp: handleEvent_def split: if_splits)
next
  case True
  from handleEvent_POST [OF this assms] obtain calls' where "handle_post ie cfg r now s = Some (s', calls', rs)" .
  then show ?thesis
  proof (cases rule: handle_post_cases)
    case (sent site p l ok q)
    then have "pool_step (sv_queue s) (sv_queue s')" by (auto simp: pool_step_def intro: serve_step.send)
    then show ?thesis by simp
  qed simp_all
qed

text \<open>The handler panics only on a closed queue.\<close>

lemma handleEvent_panics: "handleEvent ie cfg r now elapsed s = None \<Longrightarrow> pl_closed (sv_queue s)"
  by (auto simp: handleEvent_def handle_post_def enqueue_def try_send_def Let_def reject_def
      split: if_splits sum.splits prod.splits option.splits)

end
