(* ===== verification/Labels.thy ===== *)
theory Labels
  imports Registry_Counts GoStrings
begin

text \<open>
  What the metrics client asks of a label, and where the labels come from.

  \<^item> \<open>well_labelled\<close>: the documented contract of \<open>WithLabelValues\<close> in \<open>client_golang\<close>. It panics
    when the number of values is not the number of label names of the family, or when a value is not
    UTF-8; the deletions never panic.
  \<^item> \<open>texts\<close>, \<open>labelled\<close>: every text a site keeps for later use as a label is UTF-8, and an operation
    makes well-labelled calls only.
  \<^item> \<open>Record\<close> and \<open>Maintain\<close> never panic on UTF-8 text; a pageview whose path is an admitted label
    that is not UTF-8 always does.
\<close>

section \<open>The client's contract\<close>

definition well_labelled :: "metric_call \<Rightarrow> bool" where
  "well_labelled c \<longleftrightarrow>
     (case call_labels c of
        None \<Rightarrow> True
      | Some (f, ls) \<Rightarrow> length ls = length (label_names f) \<and> list_all valid_utf8 ls)"

definition labelled :: "metric_call list \<Rightarrow> metric_call list \<Rightarrow> bool" where
  "labelled a b \<longleftrightarrow> (\<exists>new. b = a @ new \<and> list_all well_labelled new)"

named_theorems label_simps "the label names of the families, and texts that are UTF-8"

lemma labelled_refl [simp]: "labelled a a"
  by (simp add: labelled_def)

lemma labelled_trans [trans]: "labelled a b \<Longrightarrow> labelled b c \<Longrightarrow> labelled a c"
  unfolding labelled_def by (metis append_assoc list_all_append)

lemma labelled_append [simp]: "labelled a (a @ new) \<longleftrightarrow> list_all well_labelled new"
  by (simp add: labelled_def)

lemma labelled_deletes: "only_deletes a b \<Longrightarrow> labelled a b"
  by (auto simp: only_deletes_def labelled_def well_labelled_def list_all_iff)

lemma sentinels_valid [label_simps]: "valid_utf8 OtherLabel" "valid_utf8 NoneLabel" "valid_utf8 AllLabel" "valid_utf8 []"
  by (intro valid_utf8_ascii; simp add: OtherLabel_def NoneLabel_def AllLabel_def is_ascii_def)+

lemma dimension_arity [label_simps]:
  "dim \<in> dims \<Longrightarrow> length (label_names (FDim dim)) = (if dim = DimASN then 4 else 3)"
  by (auto simp: dims_def dimensions_def dim_defs)

lemma well_labelled_simps [label_simps]:
  "well_labelled (Inc f ls) \<longleftrightarrow> length ls = length (label_names f) \<and> list_all valid_utf8 ls"
  "well_labelled (Observe f ls d) \<longleftrightarrow> length ls = length (label_names f) \<and> list_all valid_utf8 ls"
  "well_labelled (DeleteLabelValues f ls)" "well_labelled (DeletePartialMatch f kvs)"
  by (simp_all add: well_labelled_def)

section \<open>The session tracker\<close>

definition exits :: "(u64, session) gomap \<Rightarrow> bool" where
  "exits m \<longleftrightarrow> list_all (\<lambda>e. valid_utf8 (s_exit (snd e))) m"

definition session_texts :: "sessions \<Rightarrow> bool" where
  "session_texts ss \<longleftrightarrow> sessions_ok ss \<and> valid_utf8 (ss_site ss) \<and> exits (ss_map ss)"

lemma exits_update [simp]: "exits m \<Longrightarrow> valid_utf8 (s_exit c) \<Longrightarrow> exits (AList.update i c m)"
  by (induction m) (auto simp: exits_def)

lemma exits_filter [simp]: "exits m \<Longrightarrow> exits (filter P m)"
  by (auto simp: exits_def list_all_iff)

lemma exits_get: "exits m \<Longrightarrow> map_of m i = Some c \<Longrightarrow> valid_utf8 (s_exit c)"
  by (force simp: exits_def list_all_iff dest: map_of_SomeD)

lemma sink_labelled:
  "valid_utf8 site \<Longrightarrow> labelled k (SessionStarted registry_sink site p k)"
  "valid_utf8 site \<Longrightarrow> valid_utf8 (e_exit e) \<Longrightarrow> labelled k (SessionEnded registry_sink site e k)"
  by (simp_all add: registry_sink_def label_simps)

lemma report_labelled:
  "valid_utf8 site \<Longrightarrow> \<forall>e \<in> set es. valid_utf8 (e_exit e) \<Longrightarrow> labelled k (report_ended registry_sink site es k)"
  unfolding report_ended_def
proof (induction es arbitrary: k)
  case (Cons e es)
  from Cons.prems have "labelled k (SessionEnded registry_sink site e k)" by (simp add: sink_labelled)
  from labelled_trans [OF this Cons.IH] Cons.prems show ?case by simp
qed simp

lemma evict_labelled:
  assumes t: "session_texts s" and e: "evictOldest registry_sink (s, k) = (s', k')"
  shows "session_texts s' \<and> labelled k k'"
proof -
  obtain es where es: "evict_loop s = (es, s')" "k' = report_ended registry_sink (ss_site s') es k"
    using e by (auto simp: evictOldest_def split: prod.splits)
  have ok: "sessions_ok s" using t by (simp add: session_texts_def)
  obtain gone where gone: "mset (ss_map s) = mset gone + mset (ss_map s')" "es = map (finish \<circ> snd) gone"
    using evict_loop_spec [OF ok es(1)] by blast
  note shape = evict_loop_shape [OF ok es(1)]
  have "set (ss_map s) = set gone \<union> set (ss_map s')"
    using arg_cong [OF gone(1), of set_mset] by simp
  with t have "exits (ss_map s')" "exits gone"
    by (auto simp: session_texts_def exits_def list_all_iff)
  moreover from this(2) have "\<forall>e \<in> set es. valid_utf8 (e_exit e)"
    by (auto simp: gone(2) finish_def exits_def list_all_iff)
  ultimately show ?thesis
    using t shape report_labelled [of "ss_site s'" es k] by (simp add: es(2) session_texts_def)
qed

lemma touch_first_texts:
  assumes "session_texts s" and "valid_utf8 p" and "touch_first i p now s = (out, s1)"
  shows "session_texts s1 \<and> ss_site s1 = ss_site s \<and> (\<forall>e. out = Idle e \<longrightarrow> valid_utf8 (e_exit e))"
  using assms exits_get
  by (auto simp: touch_first_def session_texts_def hit_session_def finish_def gm_delete_filter
    split: option.splits if_splits)

lemma touch_open_texts:
  assumes "session_texts s" and "valid_utf8 p" and "touch_open i p now s = (over, s')"
  shows "session_texts s' \<and> ss_site s' = ss_site s"
  using assms by (auto simp: touch_open_def session_texts_def new_session_def Let_def)

lemma Touch_labelled:
  assumes t: "session_texts s" and p: "valid_utf8 p" and e: "Touch registry_sink i p now (s, k) = (b, s', k')"
  shows "session_texts s' \<and> labelled k k'"
proof -
  obtain out s1 where f: "touch_first i p now s = (out, s1)" by force
  note s1 = touch_first_texts [OF t p f]
  obtain over s2 where o: "touch_open i p now s1 = (over, s2)" by force
  note s2 = touch_open_texts [OF conjunct1 [OF s1] p o]
  have site: "valid_utf8 (ss_site s1)" "valid_utf8 (ss_site s2)" using s1 s2 by (auto simp: session_texts_def)
  define k1 where "k1 = (case out of Idle e \<Rightarrow> SessionEnded registry_sink (ss_site s1) e k | _ \<Rightarrow> k)"
  define k2 where "k2 = SessionStarted registry_sink (ss_site s2) p k1"
  have "labelled k k1" using s1 site by (auto simp: k1_def sink_labelled split: touch_outcome.split)
  with site have k2: "labelled k k2" unfolding k2_def using labelled_trans sink_labelled(1) by blast
  obtain s3 k3 where ev: "evictOldest registry_sink (s2, k2) = (s3, k3)" by force
  have "out = Hit \<and> s' = s1 \<and> k' = k \<or> (s', k') = (if over then (s3, k3) else (s2, k2))"
    using e ev by (cases out) (auto simp: Touch_def f o k1_def k2_def Let_def split: if_splits)
  with s1 s2 k2 evict_labelled [OF _ ev] labelled_trans show ?thesis by (auto split: if_splits)
qed

lemma Extend_texts: "session_texts s \<Longrightarrow> session_texts (Extend i now s)"
  using exits_get by (auto simp: Extend_def session_texts_def split: option.split)

lemma Sweep_labelled:
  assumes t: "session_texts s" and e: "Sweep registry_sink now (s, k) = (n, s', k')"
  shows "session_texts s' \<and> labelled k k'"
proof -
  have m: "range_delete P (ss_map s) = (filter (\<lambda>(i, c). P i c) (ss_map s), filter (\<lambda>(i, c). \<not> P i c) (ss_map s))" for P
    using t by (simp add: session_texts_def range_delete_filter)
  obtain es where es: "sweep_locked now s = (es, s')" "k' = report_ended registry_sink (ss_site s') es k"
    using e by (auto simp: Sweep_def split: prod.splits)
  then have "session_texts s' \<and> (\<forall>e \<in> set es. valid_utf8 (e_exit e))"
    using t by (force simp: sweep_locked_def m session_texts_def finish_def exits_def list_all_iff split: prod.splits)
  with report_labelled [of "ss_site s'" es k] show ?thesis by (simp add: es(2) session_texts_def)
qed

section \<open>One site\<close>

definition observation_texts :: "observation \<Rightarrow> bool" where
  "observation_texts ob \<longleftrightarrow> list_all valid_utf8
     [o_Site ob, o_Name ob, o_Path ob, o_Referrer ob, o_Source ob, o_Medium ob, o_Campaign ob, o_Country ob,
      o_Region ob, o_City ob, o_ASN ob, o_ASOrg ob, o_Browser ob, o_OS ob, o_Device ob, o_Screen ob]"

definition texts :: "('s, 're) site_state \<Rightarrow> bool" where
  "texts st \<longleftrightarrow> session_texts (st_sessions st) \<and> list_all (\<lambda>e. valid_utf8 (fst e)) (st_pathUniques st)"

lemma Admit_label: "Admit xx v now gc = Some (l, gc') \<Longrightarrow> l = v \<or> l = OtherLabel \<or> l = NoneLabel"
  by (auto simp: Admit_def admit_locked_def Let_def split: if_splits bind_splits)

lemma Admit_valid: "Admit xx v now gc = Some (l, gc') \<Longrightarrow> valid_utf8 v \<Longrightarrow> valid_utf8 l"
  using Admit_label [of xx v now gc l gc'] by (auto simp: label_simps)

lemma admit_paths_texts:
  assumes "admit_paths ev ob st = Some (p, x, st')" and "texts st" and "valid_utf8 (o_Path ob)"
  shows "texts st' \<and> valid_utf8 p \<and> valid_utf8 x"
  using assms by (auto simp: admit_paths_def texts_def split: bind_splits dest: Admit_valid)

lemma admit_dim_texts:
  assumes "admit_dim ev dim v now st = Some (l, st')" and "texts st" and "valid_utf8 v"
  shows "texts st' \<and> valid_utf8 l"
  using assms by (auto simp: admit_dim_def texts_def split: bind_splits dest: Admit_valid)

lemma path_uniques_update:
  "list_all (\<lambda>e. valid_utf8 (fst e)) m \<Longrightarrow> valid_utf8 p \<Longrightarrow> list_all (\<lambda>e. valid_utf8 (fst e)) (AList.update p r m)"
  by (induction m) auto

lemma recordPathUnique_texts:
  assumes "recordPathUnique ev x ob st = Some st'" and "texts st" and "valid_utf8 x"
  shows "texts st'"
  using assms path_uniques_update
  by (auto simp: recordPathUnique_def texts_def Let_def split: if_splits bind_splits)

lemma record_pageview_labelled:
  assumes r: "record_pageview ev ob p x (st, calls) = Some (st', calls')" and t: "texts st"
    and v: "valid_utf8 (o_Site ob)" "valid_utf8 p" "valid_utf8 x"
  shows "texts st' \<and> labelled calls calls'"
proof (cases "o_Kind ob = KindPageview")
  case False
  with r t show ?thesis by (auto simp: record_pageview_def)
next
  case True
  define pv where "pv = calls @ [Inc FPageviews [o_Site ob, p]]"
  obtain b ss k where to: "Touch registry_sink (o_VisitorID ob) p (o_At ob) (st_sessions st, pv) = (b, ss, k)"
    by (metis prod.collapse)
  obtain w where w: "recordPathUnique ev x ob (st\<lparr>st_sessions := ss, st_windows := w\<rparr>) = Some st'"
      and k: "calls' = k @ (if b then [Inc FEntries [o_Site ob, p]] else [])"
    using r True to by (auto simp: record_pageview_def pv_def Let_def split: bind_splits if_splits)
  have "labelled calls pv" using v by (simp add: pv_def label_simps)
  also have "labelled pv k" using Touch_labelled [OF _ v(2) to] t by (simp add: texts_def)
  also have "labelled k calls'" using v by (simp add: k label_simps)
  finally show ?thesis
    using recordPathUnique_texts [OF w _ v(3)] Touch_labelled [OF _ v(2) to] t by (simp add: texts_def)
qed

lemma dimValue_valid: "observation_texts ob \<Longrightarrow> valid_utf8 (dimValue ob dim)"
  by (simp add: observation_texts_def dimValue_def label_simps)

lemma record_dimension_labelled:
  assumes r: "record_dimension ev ob x d (st, calls) = Some (st', calls')" and t: "texts st"
    and v: "observation_texts ob" "valid_utf8 x" and d: "d \<in> set dimensions"
  shows "texts st' \<and> labelled calls calls'"
proof -
  have dim: "d_dim d \<in> dims" using d by (simp add: dims_def)
  have ob: "valid_utf8 (o_Site ob)" "valid_utf8 (o_Name ob)" "valid_utf8 (o_ASN ob)" "valid_utf8 (o_ASOrg ob)"
    using v by (simp_all add: observation_texts_def)
  have keep: "texts st1 \<and> valid_utf8 l"
    if "admit_dim ev (d_dim d) u (o_At ob) st = Some (l, st1)" "valid_utf8 u" for u l st1
    using admit_dim_texts [OF that(1) t that(2)] .
  have ev: "DimEvent \<noteq> DimASN" by (simp add: dim_defs)
  consider "st' = st" "calls' = calls"
    | "d_dim d = DimEvent" "o_Kind ob = KindCustom" | "d_dim d = DimASN" "o_Kind ob = KindPageview"
    | "d_dim d \<noteq> DimEvent" "d_dim d \<noteq> DimASN" "o_Kind ob = KindPageview"
    using r by (auto simp: record_dimension_def Let_def split: if_splits)
  then show ?thesis
  proof cases
    case 2
    with r keep [of "o_Name ob"] ob dim v(2) ev show ?thesis
      by (auto simp: record_dimension_def Let_def label_simps simp del: label_names.simps(1) split: bind_splits)
  next
    case 3
    with r keep [of "o_ASN ob"] ob dim v(2) ev [symmetric] show ?thesis
      by (auto simp: record_dimension_def Let_def label_simps simp del: label_names.simps(1) split: bind_splits)
  next
    case 4
    with r keep [of "dimValue ob (d_dim d)"] dimValue_valid [OF v(1)] ob dim v(2) show ?thesis
      by (auto simp: record_dimension_def Let_def label_simps simp del: label_names.simps(1) split: bind_splits)
  qed (use t in simp)
qed

lemma record_dimensions_labelled:
  assumes "loop_opt (record_dimension ev ob x) dimensions (st, calls) = Some (st', calls')" and "texts st"
    and "observation_texts ob" "valid_utf8 x"
  shows "texts st' \<and> labelled calls calls'"
proof -
  have "(\<lambda>(t, c). texts t \<and> labelled calls c) (st', calls')"
  proof (rule loop_opt_invariant [OF assms(1)])
    show "case (st, calls) of (t, c) \<Rightarrow> texts t \<and> labelled calls c" using assms(2) by simp
    show "case s' of (t, c) \<Rightarrow> texts t \<and> labelled calls c"
      if "d \<in> set dimensions" "case s of (t, c) \<Rightarrow> texts t \<and> labelled calls c" "record_dimension ev ob x d s = Some s'" for d s s'
    proof -
      obtain t c t' c' where s: "s = (t, c)" "s' = (t', c')" by (metis prod.collapse)
      with that record_dimension_labelled [of ev ob x d t c t' c'] assms(3,4) labelled_trans show ?thesis by auto
    qed
  qed
  then show ?thesis by simp
qed

lemma record_site_labelled:
  assumes r: "record_site ev ob (st, calls) = Some (st', calls')" and t: "texts st" and v: "observation_texts ob"
  shows "texts st' \<and> labelled calls calls'"
proof (cases "o_Kind ob = KindEngagement")
  case True
  have "valid_utf8 (fst (Peek (st_crossPath st) (o_Path ob)))" "valid_utf8 (o_Site ob)"
    using v by (simp_all add: Peek_def observation_texts_def label_simps)
  with r True t show ?thesis
    by (auto simp: record_site_def recordEngagement_def texts_def Let_def label_simps intro!: Extend_texts split: if_splits)
next
  case False
  then obtain p x st1 st2 calls2 st3 calls3 where
    a: "admit_paths ev ob st = Some (p, x, st1)" and
    b: "record_pageview ev ob p x (st1, calls) = Some (st2, calls2)" and
    c: "loop_opt (record_dimension ev ob x) dimensions (st2, calls2) = Some (st3, calls3)" and
    e: "st' = st3" "calls' = calls3 @ geo_detail ob (st_cfg st3)"
    using r by (auto simp: record_site_def split: bind_splits)
  have ob: "valid_utf8 (o_Site ob)" "valid_utf8 (o_Path ob)" using v by (simp_all add: observation_texts_def)
  note a' = admit_paths_texts [OF a t ob(2)]
  then have b': "texts st2 \<and> labelled calls calls2" using record_pageview_labelled [OF b _ ob(1)] by simp
  with a' have c': "texts st3 \<and> labelled calls2 calls3" using record_dimensions_labelled [OF c _ v] by simp
  have "labelled calls3 calls'"
    using v by (simp add: e geo_detail_def observation_texts_def label_simps)
  with b' c' labelled_trans e(1) show ?thesis by blast
qed

lemma maintain_dimensions_uniques:
  assumes "loop_opt (maintain_dimension now) ds (st, a) = Some (st', b)"
  shows "st_pathUniques st' = st_pathUniques st"
proof -
  have "st_pathUniques (fst (st', b)) = st_pathUniques (fst (st, a))"
    by (rule loop_opt_invariant [OF assms])
      (auto simp: maintain_dimension_def Let_def split: bind_splits prod.splits)
  then show ?thesis by simp
qed

lemma fold_delete_texts:
  "list_all (\<lambda>e. valid_utf8 (fst e)) m \<Longrightarrow> list_all (\<lambda>e. valid_utf8 (fst e)) (fold AList.delete ks m)"
proof (induction ks arbitrary: m)
  case (Cons k ks)
  have "list_all (\<lambda>e. valid_utf8 (fst e)) (AList.delete k m)"
    using Cons.prems by (auto simp: gm_delete_filter list_all_iff)
  from Cons.IH [OF this] show ?case by simp
qed simp

lemma maintain_site_labelled:
  assumes m: "maintain_site now (st, calls) = Some (st', calls')" and t: "texts st"
  shows "texts st' \<and> labelled calls calls'"
proof -
  obtain n ss k where sw: "Sweep registry_sink now (st_sessions st, calls) = (n, ss, k)" by (metis prod.collapse)
  obtain st1 a1 where p: "maintain_pure now (st\<lparr>st_sessions := ss\<rparr>, k) = (st1, a1)" by (metis prod.collapse)
  obtain st2 a2 where x: "maintain_cross now (st1, a1) = (st2, a2)" by (metis prod.collapse)
  have d: "loop_opt (maintain_dimension now) dimensions (st2, a2) = Some (st', calls')"
    using m by (simp add: maintain_site_def sw p x)
  note p' = maintain_pure_calls [OF p] and x' = maintain_cross_calls [OF x] and d' = maintain_dimensions_calls [OF d]
  have sweep: "session_texts ss \<and> labelled calls k" using Sweep_labelled [OF _ sw] t by (simp add: texts_def)
  have "st_pathUniques st1 = st_pathUniques st"
    using p by (auto simp: maintain_pure_def Let_def split: prod.splits)
  then have "list_all (\<lambda>e. valid_utf8 (fst e)) (st_pathUniques st2)"
    using x t by (auto simp: maintain_cross_def Let_def texts_def intro!: fold_delete_texts split: prod.splits)
  moreover have "labelled k calls'"
    using labelled_deletes p' x' d' labelled_trans by blast
  ultimately show ?thesis
    using maintain_dimensions_uniques [OF d] p' x' d' sweep labelled_trans by (auto simp: texts_def)
qed

section \<open>The registry\<close>

definition registry_texts :: "('s, 're) registry \<Rightarrow> bool" where
  "registry_texts r \<longleftrightarrow> (\<forall>k st. map_of (rg_sites r) k = Some st \<longrightarrow> texts st) \<and> list_all well_labelled (rg_calls r)"

definition takes_labelled :: "'s env \<Rightarrow> bool" where
  "takes_labelled ev \<longleftrightarrow> (\<forall>c. well_labelled c \<longrightarrow> ev_accepts ev c)"

lemma survives_labelled: "takes_labelled ev \<Longrightarrow> labelled a (rg_calls r) \<Longrightarrow> survives ev a r = Some r"
  by (auto simp: takes_labelled_def labelled_def survives_def list_all_iff)

lemma registry_texts_set:
  assumes "registry_texts r" and "texts st" and "labelled (rg_calls r) calls"
  shows "registry_texts (r\<lparr>rg_sites := AList.update k st (rg_sites r), rg_calls := calls\<rparr>)"
  using assms by (auto simp: registry_texts_def update_conv' labelled_def)

lemma Record_labelled:
  assumes inv: "reg_inv r" and t: "registry_texts r" and tm: "timely (record_time clock ob)"
    and v: "observation_texts ob" and cl: "takes_labelled ev"
  shows "\<exists>r'. Record ev clock ob r = Some r' \<and> reg_inv r' \<and> registry_texts r'"
proof -
  have "\<exists>r'. Record ev clock ob r = Some r' \<and> registry_texts r'"
  proof (cases "map_of (rg_sites r) (o_Site ob)")
    case None
    have w: "well_labelled (Inc FIngestEvents [''unknown'', ''unknown_site''])" by code_simp
    let ?r = "r\<lparr>rg_calls := rg_calls r @ [Inc FIngestEvents [''unknown'', ''unknown_site'']]\<rparr>"
    have "survives ev (rg_calls r) ?r = Some ?r" using w by (intro survives_labelled [OF cl]) simp
    with None t w show ?thesis by (simp add: Record_def registry_texts_def)
  next
    case (Some st)
    define ob' where "ob' = (if o_At ob = zero_time then ob\<lparr>o_At := clock\<rparr> else ob)"
    have ob': "o_Site ob' = o_Site ob" "0 \<le> o_At ob'" "o_At ob' \<le> max_duration" "observation_texts ob'"
      using tm v by (simp_all add: ob'_def timely_def record_time_def observation_texts_def split: if_splits)
    have "site_inv (o_Site ob) st (rg_calls r)" using reg_site [OF inv Some] .
    then obtain st' calls where rec: "record_site ev ob' (st, rg_calls r) = Some (st', calls)"
      using record_site_ok [of st ob' ev "rg_calls r"] ob' by (auto simp: site_inv_def)
    have l: "texts st'" "labelled (rg_calls r) calls"
      using record_site_labelled [OF rec _ ob'(4)] t Some by (simp_all add: registry_texts_def)
    let ?r = "r\<lparr>rg_sites := AList.update (o_Site ob) st' (rg_sites r), rg_calls := calls\<rparr>"
    have "survives ev (rg_calls r) ?r = Some ?r" using l by (intro survives_labelled [OF cl]) simp
    with Some rec registry_texts_set [OF t l] show ?thesis
      by (simp add: Record_def Let_def ob'(1) flip: ob'_def)
  qed
  with Record_shape [OF inv tm, of ev] survives_Some show ?thesis by metis
qed

lemma maintain_key_labelled:
  assumes m: "maintain_key now k r = Some r'" and t: "registry_texts r"
  shows "registry_texts r' \<and> labelled (rg_calls r) (rg_calls r')"
proof (cases "map_of (rg_sites r) k")
  case None
  with m t show ?thesis by (simp add: maintain_key_def)
next
  case (Some st)
  then obtain st' calls where s: "maintain_site now (st, rg_calls r) = Some (st', calls)"
      "r' = r\<lparr>rg_sites := AList.update k st' (rg_sites r), rg_calls := calls\<rparr>"
    using m by (auto simp: maintain_key_def split: bind_splits)
  have "texts st" using t Some by (simp add: registry_texts_def)
  note l = maintain_site_labelled [OF s(1) this]
  from registry_texts_set [OF t conjunct1 [OF l] conjunct2 [OF l]] l show ?thesis by (simp add: s(2))
qed

lemma Maintain_labelled:
  assumes inv: "reg_inv r" and t: "registry_texts r" and cl: "takes_labelled ev"
  shows "\<exists>r'. Maintain ev now r = Some r' \<and> reg_inv r' \<and> registry_texts r'"
proof -
  have "\<exists>r'. loop_opt (maintain_key now) ks r = Some r' \<and>
      (reg_inv r' \<and> registry_texts r' \<and> labelled (rg_calls r) (rg_calls r'))" for ks
  proof (rule loop_opt_total)
    show "\<exists>x'. maintain_key now k x = Some x' \<and> reg_inv x' \<and> registry_texts x' \<and> labelled (rg_calls r) (rg_calls x')"
      if "reg_inv x \<and> registry_texts x \<and> labelled (rg_calls r) (rg_calls x)" for k x
      using that maintain_key_ok [of x now k] maintain_key_labelled labelled_trans by blast
  qed (use inv t in simp)
  then obtain r' where r': "loop_opt (maintain_key now) (map fst (rg_sites r)) r = Some r'" "reg_inv r'" "registry_texts r'"
      "labelled (rg_calls r) (rg_calls r')" by blast
  with survives_labelled [OF cl r'(4)] show ?thesis by (simp add: Maintain_def)
qed

fun op_texts :: "'re reg_op \<Rightarrow> bool" where
  "op_texts (ORecord clock ob) = observation_texts ob"
| "op_texts (OMaintain now) = True"
| "op_texts (OConfigure cfg) = list_all (\<lambda>s. valid_utf8 (Domain s)) (Sites cfg)"

lemma Configure_texts:
  assumes "registry_texts r" and "list_all (\<lambda>s. valid_utf8 (Domain s)) (Sites cfg)"
  shows "registry_texts (Configure ev cfg r)"
proof -
  have "registry_texts (r\<lparr>rg_sites := fold (configure_site ev) ss (rg_sites r)\<rparr>)"
    if "list_all (\<lambda>s. valid_utf8 (Domain s)) ss" for ss
    using that assms(1)
  proof (induction ss arbitrary: r)
    case (Cons sc ss)
    have "registry_texts (r\<lparr>rg_sites := configure_site ev sc (rg_sites r)\<rparr>)"
      using Cons.prems by (auto simp: registry_texts_def configure_site_def update_conv' texts_def new_site_state_def
        NewSessions_def session_texts_def exits_def split: option.splits)
    from Cons.IH [OF _ this] Cons.prems show ?case by simp
  qed simp
  with assms(2) show ?thesis by (simp add: Configure_def)
qed

lemma reg_step_labelled:
  assumes "reg_inv r" and "registry_texts r" and "takes_labelled ev" and "op_timely op" and "op_texts op"
  shows "\<exists>r'. reg_step ev op r = Some r' \<and> reg_inv r' \<and> registry_texts r'"
proof (cases op)
  case (ORecord clock ob)
  with assms Record_labelled [OF assms(1,2), of clock ob ev] show ?thesis by simp
next
  case (OMaintain now)
  with assms Maintain_labelled [OF assms(1-3), of now] show ?thesis by simp
next
  case (OConfigure cfg)
  with assms Configure_ok [OF assms(1), of ev cfg] Configure_texts [OF assms(2)] show ?thesis by simp
qed

lemma New_texts: "list_all (\<lambda>s. valid_utf8 (Domain s)) (Sites cfg) \<Longrightarrow> registry_texts (New ev cfg)"
  unfolding New_def by (rule Configure_texts) (simp_all add: registry_texts_def)


section \<open>A label that is not UTF-8\<close>

lemma bad_label_panics:
  assumes ob: "o_Kind ob = KindPageview" "\<not> valid_utf8 (o_Path ob)"
    and st: "map_of (rg_sites r) (o_Site ob) = Some st" "sessions_ok (st_sessions st)" "ss_site (st_sessions st) = o_Site ob"
    and p: "\<And>now. \<exists>gc. Admit (ev_xx ev) (o_Path ob) now (st_purePath st, st_pathCounter st) = Some (o_Path ob, gc)"
    and cl: "\<And>c. ev_accepts ev c \<Longrightarrow> well_labelled c"
  shows "Record ev clock ob r = None"
proof -
  define ob' where "ob' = (if o_At ob = zero_time then ob\<lparr>o_At := clock\<rparr> else ob)"
  have ob': "o_Site ob' = o_Site ob" "o_Path ob' = o_Path ob" "o_Kind ob' = KindPageview"
    using ob by (simp_all add: ob'_def)
  have bad: "\<exists>new. calls = rg_calls r @ Inc FPageviews [o_Site ob, o_Path ob] # new"
    if site: "record_site ev ob' (st, rg_calls r) = Some (st', calls)" for st' calls
  proof -
    obtain p x st1 st2 calls2 st3 calls3 where
      a: "admit_paths ev ob' st = Some (p, x, st1)" and
      b: "record_pageview ev ob' p x (st1, rg_calls r) = Some (st2, calls2)" and
      c: "loop_opt (record_dimension ev ob' x) dimensions (st2, calls2) = Some (st3, calls3)" and
      e: "calls = calls3 @ geo_detail ob' (st_cfg st3)"
      using site ob'(3) by (auto simp: record_site_def split: bind_splits)
    from p [of "o_At ob'"] have "p = o_Path ob" and s1: "st_sessions st1 = st_sessions st"
      using a by (auto simp: admit_paths_def ob' split: bind_splits)
    define pv where "pv = rg_calls r @ [Inc FPageviews [o_Site ob, o_Path ob]]"
    obtain t ss k where to: "Touch registry_sink (o_VisitorID ob') p (o_At ob') (st_sessions st1, pv) = (t, ss, k)"
      by (metis prod.collapse)
    have "calls2 = k @ (if t then [Inc FEntries [o_Site ob, p]] else [])"
      using b to ob' \<open>p = o_Path ob\<close> by (auto simp: record_pageview_def pv_def Let_def split: bind_splits if_splits)
    moreover obtain n1 where "k = pv @ n1"
      using Touch_adds [OF _ to] st(2) by (auto simp: s1 session_adds_def)
    moreover obtain n2 where "calls3 = calls2 @ n2" using record_dimensions_calls [OF c] by blast
    ultimately show ?thesis by (simp add: e pv_def)
  qed
  have "\<not> well_labelled (Inc FPageviews [o_Site ob, o_Path ob])" using ob(2) by (simp add: label_simps)
  then have "\<not> ev_accepts ev (Inc FPageviews [o_Site ob, o_Path ob])" using cl by blast
  with bad have "survives ev (rg_calls r)
      (r\<lparr>rg_sites := AList.update (o_Site ob) st' (rg_sites r), rg_calls := calls\<rparr>) = None"
    if "record_site ev ob' (st, rg_calls r) = Some (st', calls)" for st' calls
    using that by (fastforce simp: survives_def)
  then show ?thesis
    by (auto simp: Record_def st(1) Let_def ob'(1) simp flip: ob'_def split: bind_split)
qed

section \<open>Properties\<close>

text \<open>The installation of the witnesses: its texts are UTF-8.\<close>

lemma example_texts:
  "list_all (\<lambda>s. valid_utf8 (Domain s)) (Sites example_live)" "\<forall>op \<in> set example_ops. op_timely op \<and> op_texts op"
proof -
  show site: "list_all (\<lambda>s. valid_utf8 (Domain s)) (Sites example_live)" by code_simp
  have "observation_texts (visit k ''/a'' i t)" for k i t
  proof -
    have "list_all valid_utf8 [Domain example_built, ''signup'', ''/a'', [], ''DE'', ''firefox'', ''linux'', ''desktop'', ''lg'']"
      by code_simp
    then show ?thesis by (simp add: observation_texts_def visit_def)
  qed
  then show "\<forall>op \<in> set example_ops. op_timely op \<and> op_texts op"
    using example_run(2) site by (simp add: example_ops_def)
qed

text \<open>
  C17: Text that is UTF-8 never stops the daemon. Whatever the order of observations, sweeps and
  reloads, when every text of every observation and every configured domain is UTF-8, no operation
  panics with the documented client, and each call of the run carries one UTF-8 value per label name
  of its family.
\<close>

theorem valid_text_never_panics:
  assumes "list_all (\<lambda>s. valid_utf8 (Domain s)) (Sites cfg)" and "\<forall>op \<in> set ops. op_timely op \<and> op_texts op"
    and "\<forall>c. well_labelled c \<longrightarrow> ev_accepts ev c"
  shows "\<exists>r. loop_opt (reg_step ev) ops (New ev cfg) = Some r \<and> (\<forall>c \<in> set (rg_calls r). well_labelled c)"
proof -
  have cl: "takes_labelled ev" using assms(3) by (simp add: takes_labelled_def)
  have "\<exists>r. loop_opt (reg_step ev) ops (New ev cfg) = Some r \<and> (reg_inv r \<and> registry_texts r)"
  proof (rule loop_opt_total)
    show "reg_inv (New ev cfg) \<and> registry_texts (New ev cfg)" using New_ok New_texts [OF assms(1)] by blast
    show "\<exists>r'. reg_step ev op r = Some r' \<and> reg_inv r' \<and> registry_texts r'"
      if "op \<in> set ops" "reg_inv r \<and> registry_texts r" for op r
      using reg_step_labelled [OF _ _ cl] that assms(2) by blast
  qed
  then show ?thesis by (auto simp: registry_texts_def list_all_iff)
qed

theorem valid_text_never_panics_witness:
  "\<exists>r. loop_opt (reg_step (example_env\<lparr>ev_accepts := well_labelled\<rparr>)) example_ops
       (New (example_env\<lparr>ev_accepts := well_labelled\<rparr>) example_live) = Some r"
  using valid_text_never_panics [OF example_texts, of "example_env\<lparr>ev_accepts := well_labelled\<rparr>"] by auto

end
