(* ===== verification/Ingest.thy ===== *)
theory Ingest
  imports Handler Labels
begin

text \<open>
  The worker of \<open>internal/ingest/handler.go\<close> on the registry: an accepted event becomes an
  observation, \<open>enrichEvent\<close>, which \<open>Record\<close> counts.

  \<^item> \<open>worker\<close>: the body of the loop over the queue.
  \<^item> \<open>vocabulary\<close>: the values the program's own classifiers give browser, system, device and screen;
    their guards admit each on first sight and have room for all, so none is ever folded.
  \<^item> A path cut inside a rune stops the worker, and with it the daemon.
\<close>

section \<open>The worker\<close>

text \<open>The clock is the one \<open>Record\<close> would read for an event without a time.\<close>

definition worker ::
  "'s env \<Rightarrow> 're ingest_env \<Rightarrow> salt \<Rightarrow> (addr \<Rightarrow> geo_result) option \<Rightarrow> time \<Rightarrow> 're raw \<Rightarrow>
     ('s, 're) registry \<times> ingest_call list \<Rightarrow> (('s, 're) registry \<times> ingest_call list) option" where
  "worker ev ie salt lookup clock e rc =
     (let (ob, calls) = enrichEvent ie salt lookup e
      in map_option (\<lambda>r. (r, snd rc @ calls)) (Record ev clock ob (fst rc)))"

section \<open>Closed vocabularies\<close>

definition screen_names :: "string set" where
  "screen_names = {''xs'', ''sm'', ''md'', ''lg'', ''xl''}"

definition vocabulary :: "string \<Rightarrow> string set" where
  "vocabulary dn =
     (if dn = DimBrowser then browser_names else if dn = DimOS then os_names
      else if dn = DimDevice then device_names else screen_names)"

definition closed_dims :: "string set" where
  "closed_dims = {DimBrowser, DimOS, DimDevice, DimScreen}"

definition classified :: "observation \<Rightarrow> bool" where
  "classified ob \<longleftrightarrow> (\<forall>dn \<in> closed_dims. dimValue ob dn = [] \<or> dimValue ob dn \<in> vocabulary dn)"

lemma vocabulary_small:
  assumes "dn \<in> closed_dims"
  shows "finite (vocabulary dn)" "int (card (vocabulary dn)) \<le> 40" "[] \<notin> vocabulary dn" "OtherLabel \<notin> vocabulary dn"
proof -
  show "finite (vocabulary dn)" "int (card (vocabulary dn)) \<le> 40" "[] \<notin> vocabulary dn"
    using names_small by (auto simp: vocabulary_def screen_names_def card_insert_if)
  have "OtherLabel \<notin> browser_names" "OtherLabel \<notin> os_names" "OtherLabel \<notin> device_names" "OtherLabel \<notin> screen_names"
    by (simp_all add: OtherLabel_def browser_names_def os_names_def device_names_def screen_names_def
      browserRules_def osRules_def)
  then show "OtherLabel \<notin> vocabulary dn" by (simp add: vocabulary_def)
qed

lemma closed_dims_facts:
  assumes "dn \<in> closed_dims"
  shows "dn \<in> dims" "dn \<noteq> DimEvent" "dn \<noteq> DimASN" "capFor sc dn = 40" "minCountFor sc dn = 1"
  using assms by (auto simp: closed_dims_def dims_def dimensions_def capFor_def minCountFor_def dim_defs)

lemma closed_values:
  "classified ob \<longleftrightarrow>
     (o_Browser ob = [] \<or> o_Browser ob \<in> browser_names) \<and> (o_OS ob = [] \<or> o_OS ob \<in> os_names) \<and>
     (o_Device ob = [] \<or> o_Device ob \<in> device_names) \<and> (o_Screen ob = [] \<or> o_Screen ob \<in> screen_names)"
proof -
  have "dimValue ob DimBrowser = o_Browser ob" "dimValue ob DimOS = o_OS ob"
      "dimValue ob DimDevice = o_Device ob" "dimValue ob DimScreen = o_Screen ob"
    by (simp_all add: dimValue_def dim_defs)
  moreover have "vocabulary DimBrowser = browser_names" "vocabulary DimOS = os_names"
      "vocabulary DimDevice = device_names" "vocabulary DimScreen = screen_names"
    by (simp_all add: vocabulary_def dim_defs)
  ultimately show ?thesis by (simp add: classified_def closed_dims_def)
qed

lemma enriched_classified:
  assumes "\<not> ua_Bot (ParseUA (ie_lower ie) (ev_ua e))"
  shows "classified (fst (enrichEvent ie salt lookup e))"
proof -
  have screen: "ScreenClass w = [] \<or> ScreenClass w \<in> screen_names" for w
    by (simp add: ScreenClass_def screen_names_def)
  let ?ob = "pageview_observation ie e (base_observation ie salt e)"
  have "classified ?ob" "classified (fst (geo_observation g ?ob))" for g
    using client_names [OF assms] screen by (simp_all add: closed_values pageview_observation_def geo_observation_def Let_def)
  moreover have "classified (base_observation ie salt e\<lparr>o_Kind := KindCustom\<rparr>)"
      "classified (base_observation ie salt e\<lparr>o_Kind := KindEngagement, o_TimeOnPage := t\<rparr>)" for t
    by (simp_all add: closed_values base_observation_def)
  ultimately show ?thesis by (auto simp: enrichEvent_def Let_def split: option.split)
qed

section \<open>The guards of the closed dimensions\<close>

definition closed_ok :: "('s, 're) site_state \<Rightarrow> bool" where
  "closed_ok st \<longleftrightarrow> (\<forall>dn \<in> closed_dims. \<exists>gc. map_of (st_guards st) dn = Some gc \<and>
     within_vocabulary 40 (vocabulary dn) gc)"

lemma closed_ok_cfg [simp]: "closed_ok (st\<lparr>st_cfg := sc\<rparr>) = closed_ok st"
  by (simp add: closed_ok_def)

text \<open>A value of a closed dimension that was counted is a name of the vocabulary, or none.\<close>

definition named :: "metric_call \<Rightarrow> bool" where
  "named c \<longleftrightarrow> (\<forall>dn s v ls. dn \<in> closed_dims \<longrightarrow> c = Inc (FDim dn) (s # v # ls) \<longrightarrow> v \<in> insert NoneLabel (vocabulary dn))"

definition names_only :: "metric_call list \<Rightarrow> metric_call list \<Rightarrow> bool" where
  "names_only a b \<longleftrightarrow> (\<exists>new. b = a @ new \<and> list_all named new)"

lemma names_only_refl [simp]: "names_only a a"
  by (simp add: names_only_def)

lemma names_only_trans [trans]: "names_only a b \<Longrightarrow> names_only b c \<Longrightarrow> names_only a c"
  unfolding names_only_def by (metis append_assoc list_all_append)

lemma names_only_deletes: "only_deletes a b \<Longrightarrow> names_only a b"
  by (force simp: only_deletes_def names_only_def named_def list_all_iff)

lemma pageview_dim [simp]: "pageview_family (FDim d)"
  by (simp add: pageview_family_def)

lemma tally_names:
  assumes "b = a @ new" and "\<And>dn s. dn \<in> dims \<Longrightarrow> tally (FDim dn) s new = 0"
  shows "names_only a b"
proof -
  have "Inc (FDim dn) (s # ls) \<notin> set new" if "dn \<in> closed_dims" for dn s ls
    using assms(2) [OF closed_dims_facts(1) [OF that], of s] by (auto simp: tally_def filter_empty_conv)
  with assms(1) show ?thesis by (auto simp: names_only_def list_all_iff named_def)
qed

lemma admit_paths_guards: "admit_paths ev ob st = Some (p, x, st') \<Longrightarrow> st_guards st' = st_guards st \<and> st_sessions st' = st_sessions st"
  by (auto simp: admit_paths_def split: bind_splits)

lemma record_pageview_guards: "record_pageview ev ob p x (st, calls) = Some (st', calls') \<Longrightarrow> st_guards st' = st_guards st"
  by (auto simp: record_pageview_def recordPathUnique_def Let_def split: bind_splits prod.splits if_splits)

lemma admit_dim_closed:
  assumes a: "admit_dim ev d v now st = Some (l, st')" and ok: "closed_ok st"
    and v: "d \<in> closed_dims \<Longrightarrow> v = [] \<or> v \<in> vocabulary d"
  shows "closed_ok st' \<and> (d \<in> closed_dims \<longrightarrow> l \<in> insert NoneLabel (vocabulary d))"
proof -
  obtain gc gc' where g: "map_of (st_guards st) d = Some gc" "Admit (ev_xx ev) v now gc = Some (l, gc')"
      "st' = st\<lparr>st_guards := AList.update d gc' (st_guards st)\<rparr>"
    using a by (auto simp: admit_dim_def split: bind_splits)
  have "within_vocabulary 40 (vocabulary d) gc' \<and> l \<in> insert NoneLabel (vocabulary d)" if d: "d \<in> closed_dims"
  proof -
    have w: "within_vocabulary 40 (vocabulary d) gc" using ok d g(1) by (auto simp: closed_ok_def)
    show ?thesis
    proof (cases "v = []")
      case True
      with g(2) w show ?thesis by (simp add: Admit_def)
    next
      case False
      with v [OF d] have "v \<in> vocabulary d" by simp
      from vocabulary_admit [OF w vocabulary_small(1,2) [OF d] this, of "ev_xx ev" now] False g(2) \<open>v \<in> vocabulary d\<close>
      show ?thesis by auto
    qed
  qed
  with ok show ?thesis by (auto simp: closed_ok_def g(3) update_conv' simp del: split_paired_Ex)
qed

lemma record_dimension_closed:
  assumes r: "record_dimension ev ob x d (st, calls) = Some (st', calls')" and ok: "closed_ok st" and ob: "classified ob"
  shows "closed_ok st' \<and> names_only calls calls'"
proof -
  have known: "dimValue ob (d_dim d) = [] \<or> dimValue ob (d_dim d) \<in> vocabulary (d_dim d)" if "d_dim d \<in> closed_dims"
    using ob that by (simp add: classified_def)
  have ev: "DimEvent \<notin> closed_dims" "DimASN \<notin> closed_dims" "DimEvent \<noteq> DimASN"
    by (simp_all add: closed_dims_def dim_defs)
  have one: "names_only calls (calls @ [Inc (FDim (d_dim d)) (s # v # ls)])"
    if "d_dim d \<in> closed_dims \<longrightarrow> v \<in> insert NoneLabel (vocabulary (d_dim d))" for s v ls
    using that by (simp add: names_only_def named_def)
  consider "st' = st" "calls' = calls"
    | (event) v st1 l where "d_dim d = DimEvent" "admit_dim ev (d_dim d) v (o_At ob) st = Some (l, st')"
        "calls' = calls @ [Inc (FDim (d_dim d)) (o_Site ob # l # st1)]"
    | (asn) v st1 l where "d_dim d = DimASN" "admit_dim ev (d_dim d) v (o_At ob) st = Some (l, st')"
        "calls' = calls @ [Inc (FDim (d_dim d)) (o_Site ob # l # st1)]"
    | (other) st1 l where "admit_dim ev (d_dim d) (dimValue ob (d_dim d)) (o_At ob) st = Some (l, st')"
        "calls' = calls @ [Inc (FDim (d_dim d)) (o_Site ob # l # st1)]"
    using r by (auto simp: record_dimension_def Let_def split: if_splits bind_splits)
  then show ?thesis
  proof cases
    case event
    with admit_dim_closed [OF event(2) ok] ev one show ?thesis by simp
  next
    case asn
    with admit_dim_closed [OF asn(2) ok] ev one show ?thesis by simp
  next
    case other
    with admit_dim_closed [OF other(1) ok known] one show ?thesis by simp
  qed (use ok in simp)
qed

lemma record_dimensions_closed:
  assumes "loop_opt (record_dimension ev ob x) ds (st, calls) = Some (st', calls')" and "closed_ok st" and "classified ob"
  shows "closed_ok st' \<and> names_only calls calls'"
proof -
  have "(\<lambda>(t, c). closed_ok t \<and> names_only calls c) (st', calls')"
  proof (rule loop_opt_invariant [OF assms(1)])
    show "case (st, calls) of (t, c) \<Rightarrow> closed_ok t \<and> names_only calls c" using assms(2) by simp
    show "case s' of (t, c) \<Rightarrow> closed_ok t \<and> names_only calls c"
      if "case s of (t, c) \<Rightarrow> closed_ok t \<and> names_only calls c" "record_dimension ev ob x d s = Some s'" for d s s'
    proof -
      obtain t c t' c' where s: "s = (t, c)" "s' = (t', c')" by (metis prod.collapse)
      with that record_dimension_closed [of ev ob x d t c t' c'] assms(3) names_only_trans show ?thesis by auto
    qed
  qed
  then show ?thesis by simp
qed

lemma record_site_closed:
  assumes r: "record_site ev ob (st, calls) = Some (st', calls')" and ok: "closed_ok st" and ob: "classified ob"
    and site: "sessions_ok (st_sessions st)" "ss_site (st_sessions st) = o_Site ob"
  shows "closed_ok st' \<and> names_only calls calls'"
proof (cases "o_Kind ob = KindEngagement")
  case True
  with r ok show ?thesis
    by (auto simp: record_site_def recordEngagement_def closed_ok_def names_only_def named_def Let_def split: if_splits)
next
  case False
  then obtain p x st1 st2 calls2 st3 calls3 where
    a: "admit_paths ev ob st = Some (p, x, st1)" and
    b: "record_pageview ev ob p x (st1, calls) = Some (st2, calls2)" and
    c: "loop_opt (record_dimension ev ob x) dimensions (st2, calls2) = Some (st3, calls3)" and
    e: "st' = st3" "calls' = calls3 @ geo_detail ob (st_cfg st3)"
    using r by (auto simp: record_site_def split: bind_splits)
  note a' = admit_paths_guards [OF a]
  then have "closed_ok st2" using record_pageview_guards [OF b] ok by (simp add: closed_ok_def)
  note c' = record_dimensions_closed [OF c this ob]
  have "\<exists>new. calls2 = calls @ new \<and> (\<forall>f s. pageview_family f \<longrightarrow> tally f s new =
      (if s = o_Site ob \<and> f = FPageviews \<and> o_Kind ob = KindPageview then 1 else 0))"
    using record_pageview_calls [OF b] a' site by auto
  then obtain new where "calls2 = calls @ new" "\<And>d s. tally (FDim d) s new = 0" by (auto simp: pageview_dim)
  then have "names_only calls calls2" by (intro tally_names)
  also have "names_only calls2 calls3" using c' by simp
  also have "names_only calls3 calls'" by (simp add: e(2) names_only_def named_def geo_detail_def)
  finally show ?thesis using c' e(1) by simp
qed

lemma maintain_dimension_closed:
  assumes "maintain_dimension now d (st, a) = Some (st', b)" and ok: "closed_ok st"
  shows "closed_ok st'"
proof -
  obtain gc gone gc' where g: "map_of (st_guards st) (d_dim d) = Some gc"
      "Decay now (DecayAfter (Defaults (st_cfg st))) gc = (gone, gc')"
      "st_guards st' = AList.update (d_dim d) gc' (st_guards st)"
    using assms(1) by (auto simp: maintain_dimension_def Let_def split: bind_splits prod.splits)
  have "within_vocabulary 40 V gc \<Longrightarrow> within_vocabulary 40 V gc'" for V
    using Decay_keeps [OF _ g(2)] by (auto simp: within_vocabulary_def)
  with ok g(1) show ?thesis
    by (auto simp: closed_ok_def g(3) update_conv' simp del: split_paired_Ex)
qed

lemma maintain_site_closed:
  assumes m: "maintain_site now (st, calls) = Some (st', calls')" and ok: "closed_ok st"
    and site: "ss_site (st_sessions st) = site" "sessions_ok (st_sessions st)"
  shows "closed_ok st' \<and> names_only calls calls'"
proof -
  obtain n ss k where sw: "Sweep registry_sink now (st_sessions st, calls) = (n, ss, k)" by (metis prod.collapse)
  obtain st1 a1 where p: "maintain_pure now (st\<lparr>st_sessions := ss\<rparr>, k) = (st1, a1)" by (metis prod.collapse)
  obtain st2 a2 where x: "maintain_cross now (st1, a1) = (st2, a2)" by (metis prod.collapse)
  have d: "loop_opt (maintain_dimension now) dimensions (st2, a2) = Some (st', calls')"
    using m by (simp add: maintain_site_def sw p x)
  have "st_guards st2 = st_guards st"
    using p x by (auto simp: maintain_pure_def maintain_cross_def Let_def split: prod.splits)
  then have "closed_ok st2" using ok by (simp add: closed_ok_def)
  then have "closed_ok (fst (st', calls'))"
    by (intro loop_opt_invariant [OF d, where I = "closed_ok \<circ> fst", unfolded comp_def])
      (metis fst_conv surj_pair maintain_dimension_closed)+
  moreover obtain new where new: "calls' = calls @ new" "\<forall>f s. pageview_family f \<longrightarrow> tally f s new = 0"
    using maintain_site_calls [OF m site] by blast
  have "names_only calls calls'" by (rule tally_names [OF new(1)]) (use new(2) pageview_dim in blast)
  ultimately show ?thesis by simp
qed

section \<open>Runs of the daemon\<close>

definition registry_closed :: "('s, 're) registry \<Rightarrow> bool" where
  "registry_closed r \<longleftrightarrow>
     reg_inv r \<and> (\<forall>k st. map_of (rg_sites r) k = Some st \<longrightarrow> closed_ok st) \<and> list_all named (rg_calls r)"

text \<open>The operations on the registry when every observation comes out of a worker.\<close>

definition from_worker :: "'re ingest_env \<Rightarrow> 're reg_op \<Rightarrow> bool" where
  "from_worker ie op \<longleftrightarrow>
     (case op of
        ORecord clock ob \<Rightarrow> \<exists>salt lookup e. \<not> ua_Bot (ParseUA (ie_lower ie) (ev_ua e)) \<and> ob = fst (enrichEvent ie salt lookup e)
      | _ \<Rightarrow> True)"

lemma registry_closed_set:
  assumes "registry_closed r" and "closed_ok st" and "names_only (rg_calls r) calls"
    and "reg_inv (r\<lparr>rg_sites := AList.update k st (rg_sites r), rg_calls := calls\<rparr>)"
  shows "registry_closed (r\<lparr>rg_sites := AList.update k st (rg_sites r), rg_calls := calls\<rparr>)"
  using assms by (auto simp: registry_closed_def update_conv' names_only_def)

lemma Record_closed:
  assumes r: "Record ev clock ob r = Some r'" and c: "registry_closed r" and t: "timely (record_time clock ob)"
    and ob: "classified ob"
  shows "registry_closed r'"
proof -
  have inv: "reg_inv r" using c by (simp add: registry_closed_def)
  with Record_shape [OF inv t, of ev] r survives_Some have inv': "reg_inv r'" by metis
  show ?thesis
  proof (cases "map_of (rg_sites r) (o_Site ob)")
    case None
    with r c inv' show ?thesis
      by (auto simp: Record_def survives_def registry_closed_def named_def split: if_splits)
  next
    case (Some st)
    define ob' where "ob' = (if o_At ob = zero_time then ob\<lparr>o_At := clock\<rparr> else ob)"
    obtain st' calls where rec: "record_site ev ob' (st, rg_calls r) = Some (st', calls)"
        "r' = r\<lparr>rg_sites := AList.update (o_Site ob) st' (rg_sites r), rg_calls := calls\<rparr>"
      using r Some by (auto simp: Record_def Let_def ob'_def survives_def split: bind_splits if_splits)
    have "dimValue ob' d = dimValue ob d" "o_Site ob' = o_Site ob" for d
      by (simp_all add: ob'_def dimValue_def)
    then have "classified ob'" "o_Site ob' = o_Site ob" using ob by (simp_all add: classified_def)
    moreover have "site_inv (o_Site ob) st (rg_calls r)" using reg_site [OF inv Some] .
    then have "sessions_ok (st_sessions st)" "ss_site (st_sessions st) = o_Site ob"
      by (simp_all add: site_inv_def state_ok_def)
    moreover have "closed_ok st" using c Some by (simp add: registry_closed_def)
    ultimately have "closed_ok st' \<and> names_only (rg_calls r) calls" using record_site_closed [OF rec(1)] by simp
    with registry_closed_set [OF c] inv' show ?thesis by (simp add: rec(2))
  qed
qed

lemma maintain_key_closed:
  assumes m: "maintain_key now k r = Some r'" and c: "registry_closed r"
  shows "registry_closed r'"
proof (cases "map_of (rg_sites r) k")
  case None
  with m c show ?thesis by (simp add: maintain_key_def)
next
  case (Some st)
  have inv: "reg_inv r" using c by (simp add: registry_closed_def)
  obtain st' calls where s: "maintain_site now (st, rg_calls r) = Some (st', calls)"
      "r' = r\<lparr>rg_sites := AList.update k st' (rg_sites r), rg_calls := calls\<rparr>"
    using m Some by (auto simp: maintain_key_def split: bind_splits)
  have "reg_inv r'" using maintain_key_ok [OF inv, of now k] m by auto
  moreover have "sessions_ok (st_sessions st)" "closed_ok st"
    using reg_site [OF inv Some] c Some by (simp_all add: site_inv_def state_ok_def registry_closed_def)
  ultimately show ?thesis
    using maintain_site_closed [OF s(1)] registry_closed_set [OF c] by (simp add: s(2))
qed

lemma Configure_closed:
  fixes r :: "('s, 're) registry"
  assumes "registry_closed r"
  shows "registry_closed (Configure ev cfg r)"
proof -
  have new: "closed_ok (new_site_state ev sc)" for sc :: "'re site"
    unfolding closed_ok_def
  proof
    fix d assume d: "d \<in> closed_dims"
    have "within_vocabulary 40 (vocabulary d) (NewGuard 40 1)"
      by (simp add: within_vocabulary_def) (simp add: NewGuard_def NewGuardWith_def admitted_def)
    then show "\<exists>gc. map_of (st_guards (new_site_state ev sc)) d = Some gc \<and> within_vocabulary 40 (vocabulary d) gc"
      using closed_dims_facts(1) [OF d] closed_dims_facts(4,5) [OF d, of sc] by (simp add: new_site_guards)
  qed
  have "\<forall>k st. map_of (fold (configure_site ev) ss m) k = Some st \<longrightarrow> closed_ok st"
    if "\<forall>k st. map_of m k = Some st \<longrightarrow> closed_ok st"
    for ss and m :: "(string, ('s, 're) site_state) gomap"
    using that
  proof (induction ss arbitrary: m)
    case (Cons sc ss)
    have "\<forall>k st. map_of (configure_site ev sc m) k = Some st \<longrightarrow> closed_ok st"
      using Cons.prems new by (auto simp: configure_site_def update_conv' split: option.splits if_splits)
    from Cons.IH [OF this] show ?case by simp
  qed simp
  from this [of "rg_sites r" "Sites cfg"] assms Configure_ok [of r ev cfg] show ?thesis
    by (simp add: registry_closed_def Configure_def)
qed

lemma reg_step_closed:
  assumes "reg_step ev op r = Some r'" and "registry_closed r" and "op_timely op" and "from_worker ie op"
  shows "registry_closed r'"
proof (cases op)
  case (ORecord clock ob)
  with assms(4) enriched_classified have "classified ob" by (auto simp: from_worker_def)
  with Record_closed [of ev clock ob r r'] assms ORecord show ?thesis by simp
next
  case (OMaintain now)
  with assms(1) obtain x where "loop_opt (maintain_key now) (map fst (rg_sites r)) r = Some x" "survives ev (rg_calls r) x = Some r'"
    by (auto simp: Maintain_def split: bind_splits)
  with loop_opt_invariant [OF this(1), where I = registry_closed] maintain_key_closed assms(2) survives_Some show ?thesis by metis
next
  case (OConfigure cfg)
  with assms(1) Configure_closed [OF assms(2)] show ?thesis by auto
qed

lemma New_closed: "registry_closed (New ev cfg)"
  unfolding New_def by (rule Configure_closed) (simp add: registry_closed_def reg_inv_def live_def)

section \<open>Properties\<close>

text \<open>
  C7: A visitor's browser, operating system, device class and screen class are never folded. In any
  run of sweeps, reloads and recorded events of the workers, whatever user agents were sent, each
  value counted in one of these dimensions is a name of the program's own tables or \<open>__none__\<close>,
  never \<open>__other__\<close>: the caps of forty are never reached and no name waits for admission.
\<close>

theorem client_dimensions_never_folded:
  assumes "loop_opt (reg_step ev) ops (New ev cfg) = Some r" and "\<forall>op \<in> set ops. op_timely op \<and> from_worker ie op"
  shows "\<forall>d \<in> closed_dims. \<forall>s v ls. Inc (FDim d) (s # v # ls) \<in> set (rg_calls r) \<longrightarrow>
    v \<in> insert NoneLabel (vocabulary d) \<and> v \<noteq> OtherLabel"
proof -
  have "registry_closed r"
    using loop_opt_invariant [OF assms(1), where I = registry_closed] New_closed reg_step_closed assms(2) by blast
  then have "named c" if "c \<in> set (rg_calls r)" for c
    using that by (simp add: registry_closed_def list_all_iff)
  with vocabulary_small(4) show ?thesis
    by (fastforce simp: named_def NoneLabel_def OtherLabel_def)
qed

section \<open>A path cut inside a rune\<close>

definition cut_url :: string where
  "cut_url = CHR ''/'' # replicate 126 (CHR ''a'') @ [CHR 0xC3, CHR 0xA9]"

lemma Admit_admits:
  assumes "pair_ok gc" and "v \<noteq> []"
    and "v \<in> admitted (fst gc) \<or> g_min (fst gc) = 1 \<and> gm_len (g_admitted (fst gc)) < g_cap (fst gc)"
  shows "\<exists>gc'. Admit xx v now gc = Some (v, gc')"
  using assms(1)
proof (cases rule: Admit_Some [of gc v xx now])
  case (counted est c r g)
  have "1 \<le> est" using counter_add_pos [OF _ counted(2)] assms(1) by (simp add: pair_ok_def)
  with counted(3) assms(3) have "r = v"
    by (cases rule: admit_locked_cases [of v "fst gc" est now]) auto
  with counted(4) show ?thesis by blast
qed (use assms(2) in simp)

lemma cut_path_label:
  assumes "ie_lower ie 0xE9 = 0xE9" and "PathRewrites (ev_site e) = []" and "p_URL (ev_p e) = cut_url"
    and "p_Name (ev_p e) = ''pageview''"
  shows "\<not> valid_utf8 (o_Path (fst (enrichEvent ie salt lookup e)))" "o_Kind (fst (enrichEvent ie salt lookup e)) = KindPageview"
    "o_Site (fst (enrichEvent ie salt lookup e)) = Domain (ev_site e)"
    "o_Path (fst (enrichEvent ie salt lookup e)) = NormalizePath (ie_lower ie) (ie_strict ie) cut_url"
  using path_cut_splits_rune [of "ie_lower ie" "ie_strict ie", OF assms(1)] assms(2-4)
  by (simp_all add: enrichEvent_def Let_def pageview_observation_def geo_observation_def base_observation_def
    site_Rewrite_def cut_url_def split: option.split)

text \<open>
  C33: One crafted address stops the daemon. Its path, which is UTF-8, has a two-byte character at
  bytes 128 and 129, and the cut at 128 bytes leaves half of it. Once that label is admitted, or at
  once where the minimum count is one and the guard has room, the worker that records the event asks
  the client for a series with a label that is not UTF-8; the client panics and nothing recovers.
\<close>

theorem cut_path_stops_daemon:
  assumes "ie_lower ie 0xE9 = 0xE9"
    and e: "PathRewrites (ev_site e) = []" "p_Name (ev_p e) = ''pageview''" "p_URL (ev_p e) = cut_url"
    and r: "reg_inv r" "map_of (rg_sites r) (Domain (ev_site e)) = Some st"
    and room: "NormalizePath (ie_lower ie) (ie_strict ie) cut_url \<in> admitted (st_purePath st) \<or>
      g_min (st_purePath st) = 1 \<and> gm_len (g_admitted (st_purePath st)) < g_cap (st_purePath st)"
    and client: "\<And>c. ev_accepts ev c \<Longrightarrow> well_labelled c"
  shows "worker ev ie salt lookup clock e (r, calls) = None \<and> valid_utf8 cut_url"
proof -
  note label = cut_path_label [OF assms(1) e(1,3,2), of salt lookup]
  have site: "site_inv (Domain (ev_site e)) st (rg_calls r)" using reg_site [OF r] .
  then have "pair_ok (st_purePath st, st_pathCounter st)" by (simp add: site_inv_def state_ok_def pair_ok_def)
  moreover have "NormalizePath (ie_lower ie) (ie_strict ie) cut_url \<noteq> []"
    using label(1,4) by (auto simp: label_simps)
  ultimately have "\<exists>gc. Admit (ev_xx ev) (o_Path (fst (enrichEvent ie salt lookup e))) now
      (st_purePath st, st_pathCounter st) = Some (o_Path (fst (enrichEvent ie salt lookup e)), gc)" for now
    using Admit_admits [of "(st_purePath st, st_pathCounter st)"] room by (simp add: label(4))
  note admits = this
  have "Record ev clock (fst (enrichEvent ie salt lookup e)) r = None"
    by (rule bad_label_panics [OF label(2,1) _ _ _ admits client])
      (use r(2) site in \<open>simp_all add: label(3) site_inv_def state_ok_def\<close>)
  moreover have "valid_utf8 cut_url"
    using path_cut_splits_rune [of "ie_lower ie" "ie_strict ie", OF assms(1)] by (simp add: cut_url_def)
  ultimately show ?thesis by (simp add: worker_def case_prod_unfold)
qed

text \<open>An installation that admits on first sight, and one event.\<close>

definition eager_site :: "string site" where
  "eager_site = example_built\<lparr>Defaults := (Defaults example_built)\<lparr>AdmitMinCount := 1\<rparr>\<rparr>"

definition strict_env :: "u64 set env" where
  "strict_env = Registry_Counts.example_env\<lparr>ev_accepts := well_labelled\<rparr>"

definition example_event :: "string site \<Rightarrow> string \<Rightarrow> string raw" where
  "example_event site url =
     \<lparr>ev_site = site, ev_p = zero_payload\<lparr>p_Name := ''pageview'', p_URL := url, p_Width := 800\<rparr>,
      ev_ip = Addr4 [192, 0, 2, 1], ev_ua = ''Mozilla/5.0 (X11; Linux x86_64) Firefox/128.0'', ev_at = 10\<rparr>"

definition example_salt :: salt where
  "example_salt = \<lparr>sl_cur = [], sl_rotated = 0, sl_interval = 0\<rparr>"

theorem cut_path_stops_daemon_witness:
  "worker strict_env Handler.example_env example_salt None 10 (example_event eager_site cut_url)
     (New strict_env (example_live\<lparr>Sites := [eager_site]\<rparr>), []) = None"
proof -
  let ?r = "New strict_env (example_live\<lparr>Sites := [eager_site]\<rparr>)"
  let ?st = "new_site_state strict_env eager_site"
  have "map_of (rg_sites ?r) (Domain (ev_site (example_event eager_site cut_url))) = Some ?st"
    by (simp add: New_def Configure_def configure_site_def example_event_def)
  moreover have "g_min (st_purePath ?st) = 1 \<and> gm_len (g_admitted (st_purePath ?st)) < g_cap (st_purePath ?st)"
    by (simp add: new_site_state_def NewGuardWith_def eager_site_def)
  moreover have "ie_lower Handler.example_env 0xE9 = 0xE9" by code_simp
  moreover have "PathRewrites (ev_site (example_event eager_site cut_url)) = []"
    by (simp add: example_event_def eager_site_def built_site_def example_site_def)
  moreover have "p_Name (ev_p (example_event eager_site cut_url)) = ''pageview''"
      "p_URL (ev_p (example_event eager_site cut_url)) = cut_url"
    by (simp_all add: example_event_def)
  moreover have "well_labelled c" if "ev_accepts strict_env c" for c
    using that by (simp add: strict_env_def)
  ultimately show ?thesis
    using cut_path_stops_daemon [OF _ _ _ _ New_ok, where st = ?st] by blast
qed

text \<open>Two visitors, one with a browser the tables name and one they do not, and a sweep.\<close>

definition worker_ops :: "string reg_op list" where
  "worker_ops =
     [ORecord 10 (fst (enrichEvent Handler.example_env example_salt None (example_event example_built ''/a''))),
      OMaintain (2 * hour_ns),
      ORecord 20 (fst (enrichEvent Handler.example_env example_salt None
        ((example_event example_built ''/b'')\<lparr>ev_ua := ''Lynx/2.9''\<rparr>)))]"

theorem client_dimensions_never_folded_witness:
  "\<exists>r. loop_opt (reg_step Registry_Counts.example_env) worker_ops (New Registry_Counts.example_env example_live) = Some r \<and>
     tally (FDim DimBrowser) (Domain example_built) (rg_calls r) = 2 \<and>
     (\<forall>s v ls. Inc (FDim DimBrowser) (s # v # ls) \<in> set (rg_calls r) \<longrightarrow> v \<in> insert NoneLabel browser_names)"
proof -
  have bot: "\<not> ua_Bot (ParseUA (ie_lower Handler.example_env) (ev_ua (example_event example_built ''/a'')))"
    by code_simp
  have lynx: "\<not> ua_Bot (ParseUA (ie_lower Handler.example_env) ''Lynx/2.9'')"
    by code_simp
  have ops: "\<forall>op \<in> set worker_ops. op_timely op \<and> from_worker Handler.example_env op"
  proof -
    have at: "o_At (fst (enrichEvent ie salt None e)) = ev_at e" for ie :: "string ingest_env" and salt e
      by (simp add: enrichEvent_def Let_def base_observation_def pageview_observation_def)
    have "from_worker Handler.example_env (ORecord t (fst (enrichEvent Handler.example_env example_salt None e)))"
      if "\<not> ua_Bot (ParseUA (ie_lower Handler.example_env) (ev_ua e))" for t and e :: "string raw"
      using that by (auto simp: from_worker_def)
    with bot lynx show ?thesis
      by (simp add: worker_ops_def at record_time_def timely_def example_event_def zero_time_def)
        (simp add: from_worker_def)
  qed
  obtain r where r: "loop_opt (reg_step Registry_Counts.example_env) worker_ops (New Registry_Counts.example_env example_live) = Some r"
    using reg_run_total [of Registry_Counts.example_env "New Registry_Counts.example_env example_live" worker_ops] New_ok ops
    by (auto simp: Registry_Counts.example_env_def)
  have "map_of (rg_sites (New Registry_Counts.example_env example_live)) (Domain example_built) \<noteq> None"
    using New_caps [OF example_run(3,4)] by blast
  from books_run [OF r books_New _ this, of "FDim DimBrowser"] ops
  have "tally (FDim DimBrowser) (Domain example_built) (rg_calls r) = recorded KindPageview (Domain example_built) worker_ops"
    using closed_dims_facts [of DimBrowser] by (simp add: counted_family_def family_kind_def closed_dims_def)
  moreover have "recorded KindPageview (Domain example_built) worker_ops = 2"
    by (simp add: recorded_def worker_ops_def enrichEvent_def Let_def base_observation_def pageview_observation_def
      example_event_def)
  moreover have browser: "vocabulary DimBrowser = browser_names" "DimBrowser \<in> closed_dims"
    by (simp_all add: vocabulary_def closed_dims_def)
  note bspec [OF client_dimensions_never_folded [OF r ops] browser(2), unfolded browser(1)]
  ultimately show ?thesis using r by (intro exI [of _ r]) auto
qed

end
