(* ===== verification/Collector.thy ===== *)
theory Collector
  imports Labels Limiter
begin

text \<open>
  The state collector of \<open>internal/aggregate/collector.go\<close>: what a scrape reads off the registry.

  \<^item> \<open>desc\<close>: the descriptors, \<open>const_metric\<close>: what \<open>MustNewConstMetric\<close> makes of one. The client is
    a parameter, \<open>sc_takes\<close> says which metrics it makes; one it refuses panics (\<open>None\<close>), and so does
    a missing guard.
  \<^item> \<open>collect_site\<close>, \<open>Collect\<close>: the code. The order of the sites and of the paths is the order in
    which \<open>range\<close> visits them. \<open>scrape_site\<close>: what a scrape of a site must say, in one expression.
\<close>

section \<open>Descriptors\<close>

datatype desc =
    DescUnique | DescActive | DescUniquePath | DescSessionsLive | DescLabelValues
  | DescCapped | DescEvicted | DescGeoAge

definition ns :: string where "ns = ''ridiculytics''"

fun desc_name :: "desc \<Rightarrow> string" where
  "desc_name DescUnique = ns @ ''_unique_visitors''"
| "desc_name DescActive = ns @ ''_visitors_active''"
| "desc_name DescUniquePath = ns @ ''_unique_visitors_by_path''"
| "desc_name DescSessionsLive = ns @ ''_sessions_live''"
| "desc_name DescLabelValues = ns @ ''_label_values''"
| "desc_name DescCapped = ns @ ''_cardinality_capped_total''"
| "desc_name DescEvicted = ns @ ''_sessions_evicted_total''"
| "desc_name DescGeoAge = ns @ ''_geoip_db_age_seconds''"

fun desc_labels :: "desc \<Rightarrow> string list" where
  "desc_labels DescUnique = [''site'', ''window'']"
| "desc_labels DescActive = [''site'']"
| "desc_labels DescUniquePath = [''site'', ''path'']"
| "desc_labels DescSessionsLive = [''site'']"
| "desc_labels DescLabelValues = [''site'', ''dimension'']"
| "desc_labels DescCapped = [''site'', ''dimension'']"
| "desc_labels DescEvicted = [''site'']"
| "desc_labels DescGeoAge = []"

definition Describe :: "desc list" where
  "Describe = [DescUnique, DescActive, DescUniquePath, DescSessionsLive, DescLabelValues, DescCapped, DescEvicted, DescGeoAge]"

text \<open>\<open>Describe\<close> sends every descriptor, once: it enumerates the type.\<close>

instantiation desc :: enum
begin

definition enum_desc :: "desc list" where "enum_desc = Describe"
definition enum_all_desc :: "(desc \<Rightarrow> bool) \<Rightarrow> bool" where "enum_all_desc P = list_all P Describe"
definition enum_ex_desc :: "(desc \<Rightarrow> bool) \<Rightarrow> bool" where "enum_ex_desc P = list_ex P Describe"

instance
proof
  have all: "d \<in> set Describe" for d by (cases d) (simp_all add: Describe_def)
  then show "(UNIV :: desc set) = set enum_class.enum" by (auto simp: enum_desc_def)
  show "distinct (enum_class.enum :: desc list)" by (simp add: enum_desc_def Describe_def)
  show "enum_class.enum_all P \<longleftrightarrow> Ball UNIV P" "enum_class.enum_ex P \<longleftrightarrow> Bex UNIV P" for P :: "desc \<Rightarrow> bool"
    using all by (auto simp: enum_all_desc_def enum_ex_desc_def list_all_iff list_ex_iff)
qed

end

datatype value_type = GaugeValue | CounterValue

record const_metric =
  cm_desc :: desc
  cm_type :: value_type
  cm_value :: rat
  cm_labels :: "string list"

section \<open>A scrape\<close>

record 's scrape =
  sc_hll :: "'s hll"
  sc_now :: time
  sc_takes :: "const_metric \<Rightarrow> bool"

definition const_metric :: "'s scrape \<Rightarrow> const_metric \<Rightarrow> const_metric list option" where
  "const_metric sc m = (if sc_takes sc m then Some [m] else None)"

definition gauge :: "'s scrape \<Rightarrow> desc \<Rightarrow> rat \<Rightarrow> string list \<Rightarrow> const_metric list option" where
  "gauge sc d v ls = const_metric sc \<lparr>cm_desc = d, cm_type = GaugeValue, cm_value = v, cm_labels = ls\<rparr>"

definition counter_metric :: "'s scrape \<Rightarrow> desc \<Rightarrow> rat \<Rightarrow> string list \<Rightarrow> const_metric list option" where
  "counter_metric sc d v ls = const_metric sc \<lparr>cm_desc = d, cm_type = CounterValue, cm_value = v, cm_labels = ls\<rparr>"

text \<open>The conversions to \<open>float64\<close>.\<close>

definition of_u64 :: "u64 \<Rightarrow> rat" where "of_u64 v = fl (of_int (uint v))"
definition of_count :: "int \<Rightarrow> rat" where "of_count n = fl (of_int n)"

fun emit_all :: "'b list option list \<Rightarrow> 'b list option" where
  "emit_all [] = Some []"
| "emit_all (m # ms) = do { xs \<leftarrow> m; ys \<leftarrow> emit_all ms; Some (xs @ ys) }"

definition window_gauge :: "'s scrape \<Rightarrow> desc \<Rightarrow> 's rolling \<Rightarrow> string list \<Rightarrow> const_metric list option" where
  "window_gauge sc d roll ls =
     do { v \<leftarrow> rolling_Estimate (sc_hll sc) (sc_now sc) roll; gauge sc d (of_u64 v) ls }"

definition collect_dimension :: "'s scrape \<Rightarrow> ('s, 're) site_state \<Rightarrow> dimension \<Rightarrow> const_metric list option" where
  "collect_dimension sc st d =
     do {
       gc \<leftarrow> map_of (st_guards st) (d_dim d);
       emit_all
         [gauge sc DescLabelValues (of_count (guard_Len (fst gc))) [Domain (st_cfg st), d_dim d],
          counter_metric sc DescCapped (of_u64 (guard_Capped (fst gc))) [Domain (st_cfg st), d_dim d]]
     }"

definition collect_site :: "'s scrape \<Rightarrow> ('s, 're) site_state \<Rightarrow> const_metric list option" where
  "collect_site sc st =
     (let site = Domain (st_cfg st); w = st_windows st in
      emit_all
        ([window_gauge sc DescActive (w_Active w) [site],
          window_gauge sc DescUnique (w_H1 w) [site, ''1h''],
          window_gauge sc DescUnique (w_D1 w) [site, ''24h''],
          window_gauge sc DescUnique (w_D7 w) [site, ''7d''],
          window_gauge sc DescUnique (w_D30 w) [site, ''30d''],
          gauge sc DescUnique (of_u64 (daily_Estimate (sc_hll sc) (Location (st_cfg st)) (sc_now sc) (w_Today w))) [site, ''today''],
          gauge sc DescSessionsLive (of_count (sessions_Len (st_sessions st))) [site],
          counter_metric sc DescEvicted (of_u64 (sessions_Evicted (st_sessions st))) [site],
          gauge sc DescLabelValues (of_count (guard_Len (st_purePath st))) [site, ''path''],
          gauge sc DescLabelValues (of_count (guard_Len (st_crossPath st))) [site, ''path_cross''],
          counter_metric sc DescCapped (of_u64 (guard_Capped (st_purePath st))) [site, ''path''],
          counter_metric sc DescCapped (of_u64 (guard_Capped (st_crossPath st))) [site, ''path_cross'']] @
         map (collect_dimension sc st) dimensions @
         (if UniqueVisitorsByPath (Defaults (st_cfg st))
          then map (\<lambda>(p, roll). window_gauge sc DescUniquePath roll [site, p]) (st_pathUniques st)
          else [])))"

definition Collect :: "'s scrape \<Rightarrow> duration option \<Rightarrow> ('s, 're) registry \<Rightarrow> const_metric list option" where
  "Collect sc geoAge r =
     emit_all (map (\<lambda>(k, st). collect_site sc st) (rg_sites r) @
       (case geoAge of None \<Rightarrow> [] | Some age \<Rightarrow> [gauge sc DescGeoAge (Seconds age) []]))"

section \<open>What is emitted\<close>

abbreviation series_of :: "const_metric \<Rightarrow> desc \<times> string list" where
  "series_of m \<equiv> (cm_desc m, cm_labels m)"

text \<open>\<open>emits m ks\<close>: \<open>m\<close> does not panic and emits the series \<open>ks\<close>, in order.\<close>

definition emits :: "const_metric list option \<Rightarrow> (desc \<times> string list) list \<Rightarrow> bool" where
  "emits m ks \<longleftrightarrow> (\<exists>xs. m = Some xs \<and> map series_of xs = ks)"

lemma emits_all: "list_all2 emits ms kss \<Longrightarrow> emits (emit_all ms) (concat kss)"
  by (induction ms kss rule: list_all2_induct) (auto simp: emits_def)

lemma emit_all_member: "emit_all ms = Some ys \<Longrightarrow> Some xs \<in> set ms \<Longrightarrow> set xs \<subseteq> set ys"
proof (induction ms arbitrary: ys)
  case (Cons m ms)
  then obtain zs zs' where "m = Some zs" "emit_all ms = Some zs'" "ys = zs @ zs'" by (auto split: bind_splits)
  with Cons show ?case by auto
qed simp

lemma emit_all_each: "emit_all ms = Some ys \<Longrightarrow> m \<in> set ms \<Longrightarrow> \<exists>xs. m = Some xs \<and> set xs \<subseteq> set ys"
proof -
  assume ys: "emit_all ms = Some ys" "m \<in> set ms"
  then have "m \<noteq> None" by (induction ms arbitrary: ys) (auto split: bind_splits)
  with ys emit_all_member show ?thesis by blast
qed

text \<open>The client makes a metric of the right number of labels, each of them UTF-8.\<close>

definition well_formed :: "const_metric \<Rightarrow> bool" where
  "well_formed m \<longleftrightarrow> length (cm_labels m) = length (desc_labels (cm_desc m)) \<and> list_all valid_utf8 (cm_labels m)"

definition takes_well_formed :: "'s scrape \<Rightarrow> bool" where
  "takes_well_formed sc \<longleftrightarrow> (\<forall>m. well_formed m \<longrightarrow> sc_takes sc m)"

lemma emits_metric:
  assumes "takes_well_formed sc" and "length ls = length (desc_labels d)" and "list_all valid_utf8 ls"
  shows "emits (gauge sc d v ls) [(d, ls)]" "emits (counter_metric sc d v ls) [(d, ls)]"
  using assms by (simp_all add: emits_def gauge_def counter_metric_def const_metric_def takes_well_formed_def well_formed_def)

lemma emits_window:
  assumes "takes_well_formed sc" and "length ls = length (desc_labels d)" and "list_all valid_utf8 ls"
    and "ring_shape res n roll" and "0 < res"
  shows "emits (window_gauge sc d roll ls) [(d, ls)]"
  using rolling_estimate_total [OF assms(4,5), of "sc_hll sc" "sc_now sc"] emits_metric(1) [OF assms(1-3)]
  by (auto simp: window_gauge_def)

section \<open>One site\<close>

text \<open>The series a scrape of a site consists of, without and with the site label.\<close>

definition fixed_tags :: "(desc \<times> string list) list" where
  "fixed_tags =
     [(DescActive, []), (DescUnique, [''1h'']), (DescUnique, [''24h'']), (DescUnique, [''7d'']),
      (DescUnique, [''30d'']), (DescUnique, [''today'']), (DescSessionsLive, []), (DescEvicted, []),
      (DescLabelValues, [''path'']), (DescLabelValues, [''path_cross'']),
      (DescCapped, [''path'']), (DescCapped, [''path_cross''])] @
     concat (map (\<lambda>d. [(DescLabelValues, [d_dim d]), (DescCapped, [d_dim d])]) dimensions)"

definition site_tags :: "('s, 're) site_state \<Rightarrow> (desc \<times> string list) list" where
  "site_tags st = fixed_tags @
     (if UniqueVisitorsByPath (Defaults (st_cfg st)) then map (\<lambda>e. (DescUniquePath, [fst e])) (st_pathUniques st) else [])"

definition site_series :: "string \<Rightarrow> ('s, 're) site_state \<Rightarrow> (desc \<times> string list) list" where
  "site_series site st = map (\<lambda>(d, ls). (d, site # ls)) (site_tags st)"

lemma site_series_distinct:
  assumes "gm_ok (st_pathUniques st)"
  shows "distinct (site_series site st)"
proof -
  have fixed: "distinct fixed_tags" "DescUniquePath \<notin> fst ` set fixed_tags" by code_simp+
  have "distinct (map (\<lambda>e. (DescUniquePath, [fst e])) (st_pathUniques st))"
    using assms by (simp add: gm_ok_def distinct_map inj_on_def)
  with fixed have "distinct (site_tags st)" by (force simp: site_tags_def)
  then show ?thesis by (auto simp: site_series_def distinct_map inj_on_def)
qed

lemma site_series_site: "k \<in> set (site_series site st) \<Longrightarrow> \<exists>ls. snd k = site # ls"
  by (auto simp: site_series_def)

lemma fixed_labels_valid:
  "list_all valid_utf8 [''1h'', ''24h'', ''7d'', ''30d'', ''today'', ''path'', ''path_cross'']"
  "list_all valid_utf8 (map d_dim dimensions)"
  by code_simp+

lemma emits_dimension:
  assumes sc: "takes_well_formed sc" and d: "d \<in> set dimensions" and st: "state_ok st" and v: "valid_utf8 (Domain (st_cfg st))"
  shows "emits (collect_dimension sc st d)
    [(DescLabelValues, [Domain (st_cfg st), d_dim d]), (DescCapped, [Domain (st_cfg st), d_dim d])]"
proof -
  have "valid_utf8 (d_dim d)" using fixed_labels_valid(2) d by (simp add: list_all_iff)
  with v have ls: "list_all valid_utf8 [Domain (st_cfg st), d_dim d]" by simp
  obtain gc where gc: "map_of (st_guards st) (d_dim d) = Some gc"
    using st d by (auto simp: state_ok_def dims_def split: option.splits)
  have "emits (emit_all [gauge sc DescLabelValues a [Domain (st_cfg st), d_dim d],
      counter_metric sc DescCapped b [Domain (st_cfg st), d_dim d]])
      (concat [[(DescLabelValues, [Domain (st_cfg st), d_dim d])], [(DescCapped, [Domain (st_cfg st), d_dim d])]])" for a b
    by (intro emits_all list.rel_intros emits_metric sc ls) simp_all
  then show ?thesis by (simp add: collect_dimension_def gc)
qed

lemma emits_site:
  assumes sc: "takes_well_formed sc" and st: "state_ok st" "texts st" and v: "valid_utf8 (Domain (st_cfg st))"
  shows "emits (collect_site sc st) (site_series (Domain (st_cfg st)) st)"
proof -
  let ?site = "Domain (st_cfg st)" and ?w = "st_windows st"
  note shape = st(1) [unfolded state_ok_def windows_shape_def]
  have fixed: "valid_utf8 ''1h''" "valid_utf8 ''24h''" "valid_utf8 ''7d''" "valid_utf8 ''30d''" "valid_utf8 ''today''"
      "valid_utf8 ''path''" "valid_utf8 ''path_cross''"
    using fixed_labels_valid(1) by simp_all
  have windows: "emits (window_gauge sc DescActive (w_Active ?w) [?site]) [(DescActive, [?site])]"
      "emits (window_gauge sc DescUnique (w_H1 ?w) [?site, ''1h'']) [(DescUnique, [?site, ''1h''])]"
      "emits (window_gauge sc DescUnique (w_D1 ?w) [?site, ''24h'']) [(DescUnique, [?site, ''24h''])]"
      "emits (window_gauge sc DescUnique (w_D7 ?w) [?site, ''7d'']) [(DescUnique, [?site, ''7d''])]"
      "emits (window_gauge sc DescUnique (w_D30 ?w) [?site, ''30d'']) [(DescUnique, [?site, ''30d''])]"
    using shape fixed v
    by (intro emits_window [OF sc, of _ _ minute_ns 5] emits_window [OF sc, of _ _ "5 * minute_ns" 12]
      emits_window [OF sc, of _ _ hour_ns 24] emits_window [OF sc, of _ _ "24 * hour_ns" 7]
      emits_window [OF sc, of _ _ "24 * hour_ns" 30]; simp)+
  have dims: "list_all2 emits (map (collect_dimension sc st) dimensions)
      (map (\<lambda>d. [(DescLabelValues, [?site, d_dim d]), (DescCapped, [?site, d_dim d])]) dimensions)"
    using emits_dimension [OF sc _ st(1) v] by (simp add: list.rel_map list.rel_refl_strong)
  have path: "emits (window_gauge sc DescUniquePath roll [?site, p]) [(DescUniquePath, [?site, p])]"
    if "(p, roll) \<in> set (st_pathUniques st)" for p roll
  proof -
    have "ring_shape hour_ns 24 roll" "valid_utf8 p"
      using st that by (auto simp: state_ok_def texts_def list_all_iff)
    then show ?thesis using v by (intro emits_window [OF sc, of _ _ hour_ns 24]) simp_all
  qed
  have paths: "list_all2 emits (map (\<lambda>(p, roll). window_gauge sc DescUniquePath roll [?site, p]) (st_pathUniques st))
      (map (\<lambda>e. [(DescUniquePath, [?site, fst e])]) (st_pathUniques st))"
    unfolding list.rel_map by (rule list.rel_refl_strong) (use path in auto)
  have head: "list_all2 emits
      [window_gauge sc DescActive (w_Active ?w) [?site],
       window_gauge sc DescUnique (w_H1 ?w) [?site, ''1h''], window_gauge sc DescUnique (w_D1 ?w) [?site, ''24h''],
       window_gauge sc DescUnique (w_D7 ?w) [?site, ''7d''], window_gauge sc DescUnique (w_D30 ?w) [?site, ''30d''],
       gauge sc DescUnique a [?site, ''today''], gauge sc DescSessionsLive b [?site], counter_metric sc DescEvicted c [?site],
       gauge sc DescLabelValues d [?site, ''path''], gauge sc DescLabelValues e [?site, ''path_cross''],
       counter_metric sc DescCapped f [?site, ''path''], counter_metric sc DescCapped g [?site, ''path_cross'']]
      [[(DescActive, [?site])], [(DescUnique, [?site, ''1h''])], [(DescUnique, [?site, ''24h''])],
       [(DescUnique, [?site, ''7d''])], [(DescUnique, [?site, ''30d''])], [(DescUnique, [?site, ''today''])],
       [(DescSessionsLive, [?site])], [(DescEvicted, [?site])], [(DescLabelValues, [?site, ''path''])],
       [(DescLabelValues, [?site, ''path_cross''])], [(DescCapped, [?site, ''path''])], [(DescCapped, [?site, ''path_cross''])]]"
    for a b c d e f g
    by (intro list.rel_intros windows emits_metric [OF sc]; simp add: v fixed)
  have opt: "list_all2 emits
      (if UniqueVisitorsByPath (Defaults (st_cfg st))
       then map (\<lambda>(p, roll). window_gauge sc DescUniquePath roll [?site, p]) (st_pathUniques st) else [])
      (if UniqueVisitorsByPath (Defaults (st_cfg st))
       then map (\<lambda>e. [(DescUniquePath, [?site, fst e])]) (st_pathUniques st) else [])"
    using paths by simp
  have series: "site_series ?site st = concat (
      [[(DescActive, [?site])], [(DescUnique, [?site, ''1h''])], [(DescUnique, [?site, ''24h''])],
       [(DescUnique, [?site, ''7d''])], [(DescUnique, [?site, ''30d''])], [(DescUnique, [?site, ''today''])],
       [(DescSessionsLive, [?site])], [(DescEvicted, [?site])], [(DescLabelValues, [?site, ''path''])],
       [(DescLabelValues, [?site, ''path_cross''])], [(DescCapped, [?site, ''path''])], [(DescCapped, [?site, ''path_cross''])]] @
      map (\<lambda>d. [(DescLabelValues, [?site, d_dim d]), (DescCapped, [?site, d_dim d])]) dimensions @
      (if UniqueVisitorsByPath (Defaults (st_cfg st))
       then map (\<lambda>e. [(DescUniquePath, [?site, fst e])]) (st_pathUniques st) else []))"
    by (simp add: site_series_def site_tags_def fixed_tags_def map_concat comp_def)
  show ?thesis
    using emits_all [OF list_all2_appendI [OF head list_all2_appendI [OF dims opt]]]
    by (simp only: collect_site_def Let_def series)
qed

section \<open>The whole scrape\<close>

lemma distinct_tagged:
  assumes "distinct (map g xs)" and "\<forall>x \<in> set xs. distinct (f x) \<and> (\<forall>k \<in> set (f x). tag k = g x)"
  shows "distinct (concat (map f xs))"
  using assms
proof (induction xs)
  case (Cons x xs)
  have "set (f x) \<inter> set (concat (map f xs)) = {}"
    using Cons.prems by force
  with Cons show ?case by simp
qed simp

definition sites_distinct :: "('s, 're) registry \<Rightarrow> bool" where
  "sites_distinct r \<longleftrightarrow> gm_ok (rg_sites r)"

lemma Record_sites: "Record ev clock ob r = Some r' \<Longrightarrow> sites_distinct r \<Longrightarrow> sites_distinct r'"
  by (auto simp: Record_def sites_distinct_def survives_def Let_def split: option.splits bind_splits if_splits)

lemma maintain_key_sites: "maintain_key now k r = Some r' \<Longrightarrow> sites_distinct r \<Longrightarrow> sites_distinct r'"
  by (auto simp: maintain_key_def sites_distinct_def split: option.splits bind_splits)

lemma Configure_sites: "sites_distinct r \<Longrightarrow> sites_distinct (Configure ev cfg r)"
proof -
  have "gm_ok m \<Longrightarrow> gm_ok (fold (configure_site ev) ss m)" for ss m
    by (induction ss arbitrary: m) (auto simp: configure_site_def split: option.split)
  then show "sites_distinct r \<Longrightarrow> ?thesis" by (simp add: sites_distinct_def Configure_def)
qed

lemma reg_step_sites: "reg_step ev op r = Some r' \<Longrightarrow> sites_distinct r \<Longrightarrow> sites_distinct r'"
proof (cases op)
  case (OMaintain now)
  assume s: "reg_step ev op r = Some r'" "sites_distinct r"
  with OMaintain obtain x where x: "loop_opt (maintain_key now) (map fst (rg_sites r)) r = Some x" "r' = x"
    by (auto simp: Maintain_def survives_def split: bind_splits if_splits)
  show ?thesis
    by (rule loop_opt_invariant [OF x(1) [folded x(2)], where I = sites_distinct]) (use s maintain_key_sites in blast)+
qed (auto intro: Record_sites Configure_sites)

lemma New_sites: "sites_distinct (New ev cfg)"
  unfolding New_def by (rule Configure_sites) (simp add: sites_distinct_def)

lemma emits_Collect:
  assumes sc: "takes_well_formed sc" and r: "reg_inv r" "registry_texts r" "sites_distinct r"
    and v: "\<forall>k \<in> dom (map_of (rg_sites r)). valid_utf8 k"
  shows "emits (Collect sc age r)
    (concat (map (\<lambda>(k, st). site_series k st) (rg_sites r)) @ (case age of None \<Rightarrow> [] | Some t \<Rightarrow> [(DescGeoAge, [])]))"
proof -
  have "emits (collect_site sc st) (site_series k st)" if "(k, st) \<in> set (rg_sites r)" for k st
  proof -
    have st: "map_of (rg_sites r) k = Some st" using that r(3) by (simp add: sites_distinct_def gm_get_iff)
    then have "site_inv k st (rg_calls r)" by (rule reg_site [OF r(1)])
    then have "state_ok st" "Domain (st_cfg st) = k" by (simp_all add: site_inv_def)
    with emits_site [OF sc] st r(2) v show ?thesis by (force simp: registry_texts_def)
  qed
  then have sites: "list_all2 emits (map (\<lambda>(k, st). collect_site sc st) (rg_sites r)) (map (\<lambda>(k, st). site_series k st) (rg_sites r))"
    unfolding list.rel_map by (intro list.rel_refl_strong) auto
  have "list_all2 emits (case age of None \<Rightarrow> [] | Some t \<Rightarrow> [gauge sc DescGeoAge (Seconds t) []])
      (case age of None \<Rightarrow> [] | Some t \<Rightarrow> [[(DescGeoAge, [])]])"
    by (auto simp: emits_metric [OF sc] split: option.split)
  from emits_all [OF list_all2_appendI [OF sites this]] show ?thesis
    by (cases age) (simp_all add: Collect_def)
qed

lemma scrape_series_distinct:
  assumes "reg_inv r" "sites_distinct r"
  shows "distinct (concat (map (\<lambda>(k, st). site_series k st) (rg_sites r)) @ (case age of None \<Rightarrow> [] | Some t \<Rightarrow> [(DescGeoAge, [])]))"
proof -
  have "distinct (site_series k st)" if "(k, st) \<in> set (rg_sites r)" for k st
  proof -
    have "map_of (rg_sites r) k = Some st" using that assms(2) by (simp add: sites_distinct_def gm_get_iff)
    then have "site_inv k st (rg_calls r)" by (rule reg_site [OF assms(1)])
    then show ?thesis by (intro site_series_distinct) (simp add: site_inv_def state_ok_def)
  qed
  moreover have "hd (snd x) = k" if "x \<in> set (site_series k st)" for x k and st :: "('a, 'b) site_state"
    using site_series_site [OF that] by auto
  ultimately have "distinct (concat (map (\<lambda>(k, st). site_series k st) (rg_sites r)))"
    using assms(2) by (intro distinct_tagged [where g = fst and tag = "\<lambda>k. hd (snd k)"])
      (auto simp: sites_distinct_def gm_ok_def)
  moreover have "(DescGeoAge, []) \<notin> set (site_series k st)" for k and st :: "('a, 'b) site_state"
    using site_series_site [of "(DescGeoAge, [])" k st] by auto
  ultimately show ?thesis by (auto split: option.split)
qed

section \<open>What a gauge says\<close>

lemma Collect_site:
  assumes "Collect sc age r = Some ms" and "map_of (rg_sites r) k = Some st"
  obtains xs where "collect_site sc st = Some xs" "set xs \<subseteq> set ms"
proof -
  have "collect_site sc st \<in> set (map (\<lambda>(k, st). collect_site sc st) (rg_sites r))"
    using map_of_SomeD [OF assms(2)] by force
  then have "collect_site sc st \<in> set (map (\<lambda>(k, st). collect_site sc st) (rg_sites r) @
      (case age of None \<Rightarrow> [] | Some t \<Rightarrow> [gauge sc DescGeoAge (Seconds t) []]))"
    by simp
  from emit_all_each [OF assms(1) [unfolded Collect_def] this] that show ?thesis by blast
qed

lemma collect_site_each:
  assumes "collect_site sc st = Some xs" and "Domain (st_cfg st) = site"
  shows "\<exists>ys. gauge sc DescSessionsLive (of_count (sessions_Len (st_sessions st))) [site] = Some ys \<and> set ys \<subseteq> set xs"
    "\<exists>ys. gauge sc DescLabelValues (of_count (guard_Len (st_purePath st))) [site, ''path''] = Some ys \<and> set ys \<subseteq> set xs"
    "\<exists>ys. gauge sc DescLabelValues (of_count (guard_Len (st_crossPath st))) [site, ''path_cross''] = Some ys \<and> set ys \<subseteq> set xs"
    "\<And>d. d \<in> set dimensions \<Longrightarrow> \<exists>ys. collect_dimension sc st d = Some ys \<and> set ys \<subseteq> set xs"
  using assms by (auto simp: collect_site_def Let_def intro!: emit_all_each simp del: emit_all.simps)

lemma gauge_Some: "gauge sc d v ls = Some ys \<Longrightarrow> ys = [\<lparr>cm_desc = d, cm_type = GaugeValue, cm_value = v, cm_labels = ls\<rparr>]"
  by (simp add: gauge_def const_metric_def split: if_splits)

lemma collect_dimension_gauge:
  assumes "collect_dimension sc st d = Some ys" and "map_of (st_guards st) (d_dim d) = Some gc"
  shows "\<lparr>cm_desc = DescLabelValues, cm_type = GaugeValue, cm_value = of_count (guard_Len (fst gc)),
    cm_labels = [Domain (st_cfg st), d_dim d]\<rparr> \<in> set ys"
  using assms by (auto simp: collect_dimension_def split: bind_splits dest!: gauge_Some)

lemma run_labelled:
  assumes "loop_opt (reg_step ev) ops (New ev cfg) = Some r" and "list_all (\<lambda>s. valid_utf8 (Domain s)) (Sites cfg)"
    and "\<forall>op \<in> set ops. op_timely op \<and> op_texts op" and "takes_labelled ev"
  shows "reg_inv r \<and> registry_texts r \<and> sites_distinct r"
proof (rule loop_opt_invariant [OF assms(1)])
  show "reg_inv (New ev cfg) \<and> registry_texts (New ev cfg) \<and> sites_distinct (New ev cfg)"
    using New_ok New_texts [OF assms(2)] New_sites by blast
  show "reg_inv t' \<and> registry_texts t' \<and> sites_distinct t'"
    if "op \<in> set ops" "reg_inv t \<and> registry_texts t \<and> sites_distinct t" "reg_step ev op t = Some t'" for op t t'
    using reg_step_labelled [of t ev op] reg_step_sites [OF that(3)] that assms(3,4) by auto
qed

lemma registry_domains: "reg_inv r \<Longrightarrow> registry_texts r \<Longrightarrow> \<forall>k \<in> dom (map_of (rg_sites r)). valid_utf8 k"
  using reg_site by (fastforce simp: registry_texts_def texts_def session_texts_def site_inv_def)

lemma guard_Len_cap: "guard_ok g \<Longrightarrow> 0 \<le> guard_Len g \<and> guard_Len g \<le> g_cap g"
  using admitted_card [of g] by (simp add: guard_Len_def guard_len_card)

section \<open>Properties\<close>

text \<open>
  C15: A scrape always succeeds and is well formed. After any run over UTF-8 text, \<open>Collect\<close> neither
  meets a missing guard nor an estimate that panics, emits no series twice (the client would refuse
  the whole family), gives each series one value per label name, and reports for every configured
  site all its windows, sessions, guards and caps.
\<close>

theorem scrape_is_well_formed:
  assumes "loop_opt (reg_step ev) ops (New ev cfg) = Some r" and "list_all (\<lambda>s. valid_utf8 (Domain s)) (Sites cfg)"
    and "\<forall>op \<in> set ops. op_timely op \<and> op_texts op" and "\<forall>c. well_labelled c \<longrightarrow> ev_accepts ev c"
    and "distinct (map Domain (Sites cfg))" and "\<forall>m. well_formed m \<longrightarrow> sc_takes sc m"
  shows "\<exists>ms. Collect sc age r = Some ms \<and> distinct (map series_of ms) \<and>
    (\<forall>m \<in> set ms. length (cm_labels m) = length (desc_labels (cm_desc m))) \<and>
    (\<forall>s \<in> set (Sites cfg). \<forall>(d, ls) \<in> set fixed_tags. (d, Domain s # ls) \<in> set (map series_of ms))"
proof -
  have sc: "takes_well_formed sc" and ev: "takes_labelled ev"
    using assms(4,6) by (simp_all add: takes_well_formed_def takes_labelled_def)
  note r = run_labelled [OF assms(1-3) ev]
  let ?series = "concat (map (\<lambda>(k, st). site_series k st) (rg_sites r)) @ (case age of None \<Rightarrow> [] | Some t \<Rightarrow> [(DescGeoAge, [])])"
  obtain ms where ms: "Collect sc age r = Some ms" "map series_of ms = ?series"
    using emits_Collect [OF sc, of r age] registry_domains r by (auto simp: emits_def)
  have tags: "\<forall>(d, ls) \<in> set fixed_tags. length (desc_labels d) = Suc (length ls)" by code_simp
  have arity: "length ls = length (desc_labels d)" if "(d, ls) \<in> set ?series" for d ls
    using that tags by (auto simp: site_series_def site_tags_def split: option.splits if_splits)
  have "(d, Domain s # ls) \<in> set ?series" if s: "s \<in> set (Sites cfg)" and d: "(d, ls) \<in> set fixed_tags" for s d ls
  proof -
    have "\<forall>op \<in> set ops. op_timely op" using assms(3) by blast
    from run_site [OF assms(5) s this assms(1)] obtain st where "map_of (rg_sites r) (Domain s) = Some st" by blast
    then have "(Domain s, st) \<in> set (rg_sites r)" by (rule map_of_SomeD)
    with d show ?thesis by (force simp: site_series_def site_tags_def)
  qed
  moreover have "length (cm_labels m) = length (desc_labels (cm_desc m))" if "m \<in> set ms" for m
    using arity [of "cm_desc m" "cm_labels m"] that unfolding ms(2) [symmetric] by auto
  moreover have "distinct (map series_of ms)"
    unfolding ms(2) using scrape_series_distinct r by blast
  ultimately show ?thesis unfolding ms(2) [symmetric] using ms(1) by auto
qed

text \<open>The guards a scrape reports the size of, by the name it gives the dimension.\<close>

definition reported_guards :: "('s, 're) site_state \<Rightarrow> (string \<times> guard) list" where
  "reported_guards st =
     (''path'', st_purePath st) # (''path_cross'', st_crossPath st) #
     map (\<lambda>d. (d_dim d, dim_guard st (d_dim d))) dimensions"

definition reported_cap :: "'re site \<Rightarrow> string \<Rightarrow> int" where
  "reported_cap sc d =
     max 1 (if d = ''path'' then PathCap (Defaults sc) else if d = ''path_cross'' then CrossPathCap (Defaults sc) else capFor sc d)"

lemma dimensions_not_paths: "d \<in> set dimensions \<Longrightarrow> d_dim d \<noteq> ''path'' \<and> d_dim d \<noteq> ''path_cross''"
  by (auto simp: dimensions_def dim_defs)

lemma guard_passes: "guard_ok g \<Longrightarrow> guard_Len g = int (card {v. snd (Peek g v)})"
proof -
  assume g: "guard_ok g"
  then have "{v. snd (Peek g v)} = admitted g" by (auto simp: Peek_def admitted_def guard_ok_def)
  with g show ?thesis by (simp add: guard_Len_def guard_len_card)
qed

lemma reported_guards_ok:
  assumes "state_ok st" "caps_of sc st" "(d, g) \<in> set (reported_guards st)"
  shows "guard_ok g \<and> g_cap g = reported_cap sc d"
proof -
  have "guard_ok (dim_guard st dim)" if "dim \<in> dims" for dim
    using assms(1) that by (force simp: state_ok_def dim_guard_def pair_ok_def split: option.splits)
  with assms dimensions_not_paths show ?thesis
    by (auto simp: reported_guards_def reported_cap_def caps_of_def state_ok_def dims_def)
qed

lemma collected_guards:
  assumes "collect_site sc st = Some xs" "Domain (st_cfg st) = site" "state_ok st" "(d, g) \<in> set (reported_guards st)"
  shows "\<lparr>cm_desc = DescLabelValues, cm_type = GaugeValue, cm_value = of_count (guard_Len g), cm_labels = [site, d]\<rparr> \<in> set xs"
proof -
  note each = collect_site_each [OF assms(1,2)]
  consider "d = ''path''" "g = st_purePath st" | "d = ''path_cross''" "g = st_crossPath st"
    | e where "e \<in> set dimensions" "d = d_dim e" "g = dim_guard st (d_dim e)"
    using assms(4) by (auto simp: reported_guards_def)
  then show ?thesis
  proof cases
    case 3
    then have "d_dim e \<in> dims" by (simp add: dims_def)
    then obtain gc where "map_of (st_guards st) (d_dim e) = Some gc"
      using assms(3) by (auto simp: state_ok_def split: option.splits)
    with 3 each(4) [OF 3(1)] collect_dimension_gauge [of sc st e _ gc] assms(2) show ?thesis by (auto simp: dim_guard_def)
  qed (use each(2,3) in \<open>auto dest!: gauge_Some\<close>)
qed

text \<open>
  C13: The scrape reports the books. After any sequence of observations, sweeps and reloads that run one
  after the other, for every site of the start or of a reload: the sessions reported as live are those
  in the tracker, which are the sessions counted as started less those counted as ended (for concurrent
  workers see \<open>Sessions.concurrent_touch_loses_a_session\<close>); and the number of label values reported for the paths, the
  cross paths and each dimension is exactly the number of values its guard now passes as they are, which is at
  most the cap the site was introduced with (a cap below one counts as one).
\<close>

theorem scrape_reports_the_books:
  assumes "made_by (cfg # reloads ops) k = Some s" and "\<forall>op \<in> set ops. op_timely op"
    and "loop_opt (reg_step ev) ops (New ev cfg) = Some r" and "Collect sc age r = Some ms"
  shows "\<exists>st. map_of (rg_sites r) k = Some st \<and>
    sessions_Len (st_sessions st) = int (n_started k (rg_calls r)) - int (n_ended k (rg_calls r)) \<and>
    \<lparr>cm_desc = DescSessionsLive, cm_type = GaugeValue, cm_value = of_int (sessions_Len (st_sessions st)), cm_labels = [k]\<rparr> \<in> set ms \<and>
    (\<forall>(d, g) \<in> set (reported_guards st).
       \<lparr>cm_desc = DescLabelValues, cm_type = GaugeValue, cm_value = of_count (int (card {v. snd (Peek g v)})),
         cm_labels = [k, d]\<rparr> \<in> set ms \<and>
       int (card {v. snd (Peek g v)}) \<le> reported_cap s d)"
proof -
  obtain st where st: "map_of (rg_sites r) k = Some st" "site_inv k st (rg_calls r)" "caps_of s st" "books r"
    using run_made [OF assms(1-3)] .
  then have inv: "state_ok st" "Domain (st_cfg st) = k" "ss_site (st_sessions st) = k" by (simp_all add: site_inv_def)
  obtain xs where xs: "collect_site sc st = Some xs" "set xs \<subseteq> set ms"
    using Collect_site [OF assms(4) st(1)] .
  have live: "rs.accounted (st_sessions st, rg_calls r)" "gm_len (ss_map (st_sessions st)) \<le> 200000"
    using st(1,4) unfolding books_def by blast+
  then have "of_count (sessions_Len (st_sessions st)) = of_int (sessions_Len (st_sessions st))"
    using fl_of_int [of "sessions_Len (st_sessions st)"] by (simp add: of_count_def sessions_Len_def)
  then have "\<lparr>cm_desc = DescSessionsLive, cm_type = GaugeValue, cm_value = of_int (sessions_Len (st_sessions st)), cm_labels = [k]\<rparr> \<in> set ms"
    using collect_site_each(1) [OF xs(1) inv(2)] xs(2) by (auto dest!: gauge_Some)
  moreover have "sessions_Len (st_sessions st) = int (n_started k (rg_calls r)) - int (n_ended k (rg_calls r))"
    using live(1) inv(3) by (simp add: sessions_Len_def rs.accounted_def)
  moreover have "\<lparr>cm_desc = DescLabelValues, cm_type = GaugeValue, cm_value = of_count (int (card {v. snd (Peek g v)})),
         cm_labels = [k, d]\<rparr> \<in> set ms \<and> int (card {v. snd (Peek g v)}) \<le> reported_cap s d"
    if "(d, g) \<in> set (reported_guards st)" for d g
    using reported_guards_ok [OF inv(1) st(3) that] collected_guards [OF xs(1) inv(2,1) that] xs(2)
      guard_passes [of g] guard_Len_cap [of g] by auto
  ultimately show ?thesis using st(1) by blast
qed

text \<open>A scrape of the example installation by a client that makes every well-formed metric.\<close>

definition example_scrape :: "u64 set scrape" where
  "example_scrape = \<lparr>sc_hll = exact_hll, sc_now = 3 * hour_ns, sc_takes = well_formed\<rparr>"

theorem scrape_is_well_formed_witness:
  "\<exists>r ms. loop_opt (reg_step example_env) example_ops (New example_env example_live) = Some r \<and>
     Collect example_scrape (Some 5) r = Some ms \<and> distinct (map series_of ms) \<and>
     (DescUnique, [Domain example_built, ''24h'']) \<in> set (map series_of ms)"
proof -
  obtain r where r: "loop_opt (reg_step example_env) example_ops (New example_env example_live) = Some r"
    using example_run(1) by blast
  have "(DescUnique, [''24h'']) \<in> set fixed_tags" by (simp add: fixed_tags_def)
  moreover have "\<forall>c. well_labelled c \<longrightarrow> ev_accepts example_env c" "\<forall>m. well_formed m \<longrightarrow> sc_takes example_scrape m"
    by (simp_all add: example_env_def example_scrape_def)
  then obtain ms where "Collect example_scrape (Some 5) r = Some ms" "distinct (map series_of ms)"
      "\<forall>s \<in> set (Sites example_live). \<forall>(d, ls) \<in> set fixed_tags. (d, Domain s # ls) \<in> set (map series_of ms)"
    using scrape_is_well_formed [OF r example_texts _ example_run(3), of example_scrape "Some 5"] by blast
  ultimately show ?thesis using r example_run(4) by blast
qed

theorem scrape_reports_the_books_witness:
  "\<exists>r st ms. loop_opt (reg_step example_env) example_ops (New example_env example_live) = Some r \<and>
     Collect example_scrape None r = Some ms \<and> map_of (rg_sites r) (Domain example_built) = Some st \<and>
     \<lparr>cm_desc = DescLabelValues, cm_type = GaugeValue, cm_value = of_count (int (card {v. snd (Peek (dim_guard st DimBrowser) v)})),
       cm_labels = [Domain example_built, DimBrowser]\<rparr> \<in> set ms \<and>
     int (card {v. snd (Peek (dim_guard st DimBrowser) v)}) \<le> 40"
proof -
  obtain r where r: "loop_opt (reg_step example_env) example_ops (New example_env example_live) = Some r"
    using example_run(1) by blast
  have ev: "takes_labelled example_env" "takes_well_formed example_scrape"
    by (simp_all add: takes_labelled_def example_env_def takes_well_formed_def example_scrape_def)
  note inv = run_labelled [OF r example_texts ev(1)]
  obtain ms where ms: "Collect example_scrape None r = Some ms"
    using emits_Collect [OF ev(2), of r None] registry_domains inv by (auto simp: emits_def)
  obtain st where st: "map_of (rg_sites r) (Domain example_built) = Some st" and
    all: "\<forall>(d, g) \<in> set (reported_guards st).
       \<lparr>cm_desc = DescLabelValues, cm_type = GaugeValue, cm_value = of_count (int (card {v. snd (Peek g v)})),
         cm_labels = [Domain example_built, d]\<rparr> \<in> set ms \<and>
       int (card {v. snd (Peek g v)}) \<le> reported_cap example_built d"
    using scrape_reports_the_books [OF example_made example_run(2) r ms] by blast
  have "(DimBrowser, dim_guard st DimBrowser) \<in> set (reported_guards st)"
    by (simp add: reported_guards_def dimensions_def)
  from bspec [OF all this] have "\<lparr>cm_desc = DescLabelValues, cm_type = GaugeValue,
      cm_value = of_count (int (card {v. snd (Peek (dim_guard st DimBrowser) v)})), cm_labels = [Domain example_built, DimBrowser]\<rparr> \<in> set ms"
    "int (card {v. snd (Peek (dim_guard st DimBrowser) v)}) \<le> reported_cap example_built DimBrowser"
    by simp_all
  moreover have "reported_cap example_built DimBrowser = 40" by (simp add: reported_cap_def capFor_def dim_defs)
  ultimately show ?thesis using r ms st by auto
qed

end
