(* ===== verification/Visitors.thy ===== *)
theory Visitors
  imports Collector
begin

text \<open>
  The visitors of a scrape: what \<open>unique_visitors\<close> and \<open>visitors_active\<close> say after any run of the
  registry, from \<open>Record\<close> through the rolling windows of each site to \<open>Collect\<close>.

  \<^item> \<open>visits\<close>: the visitors and instants of the pageviews recorded for a site.
  \<^item> \<open>rings_run\<close>: the windows of a site are those of its visits, whatever else the run did.
  \<^item> \<open>scrape_counts_visitors\<close>: each gauge is the estimate of exactly the visitors of its window.
\<close>

section \<open>Visits\<close>

fun visit_of :: "string \<Rightarrow> 're reg_op \<Rightarrow> (u64 \<times> time) list" where
  "visit_of k (ORecord clock ob) =
     (if o_Kind ob = KindPageview \<and> o_Site ob = k then [(o_VisitorID ob, record_time clock ob)] else [])"
| "visit_of k _ = []"

definition visits :: "string \<Rightarrow> 're reg_op list \<Rightarrow> (u64 \<times> time) list" where
  "visits k ops = concat (map (visit_of k) ops)"

lemma visits_simps [simp]: "visits k [] = []" "visits k (op # ops) = visit_of k op @ visits k ops"
  by (simp_all add: visits_def)

text \<open>The rings of the windows, fed with visits.\<close>

definition rings :: "'s windows \<Rightarrow> 's rolling list" where
  "rings w = [w_Active w, w_H1 w, w_D1 w, w_D7 w, w_D30 w]"

definition rings_run :: "'s hll \<Rightarrow> (u64 \<times> time) list \<Rightarrow> 's windows \<Rightarrow> 's windows \<Rightarrow> bool" where
  "rings_run h vs w w' \<longleftrightarrow> list_all2 (\<lambda>a b. rolling_run h vs a = Some b) (rings w) (rings w')"

lemma rings_run_Nil [simp]: "rings_run h [] w w"
  by (simp add: rings_run_def rings_def rolling_run_def)

lemma rings_run_append: "rings_run h xs w w1 \<Longrightarrow> rings_run h ys w1 w2 \<Longrightarrow> rings_run h (xs @ ys) w w2"
  by (auto simp: rings_run_def rings_def rolling_run_def loop_opt_append)

lemma rings_run_insert: "windows_Insert h loc v t w = Some w' \<Longrightarrow> rings_run h [(v, t)] w w'"
  by (auto simp: windows_Insert_def rings_run_def rings_def rolling_run_def split: bind_splits)

section \<open>One operation\<close>

lemma record_dimension_windows:
  "record_dimension ev ob x d stc = Some stc' \<Longrightarrow> st_windows (fst stc') = st_windows (fst stc)"
  by (auto simp: record_dimension_def admit_dim_def Let_def split: if_splits bind_splits)

lemma recordPathUnique_windows: "recordPathUnique ev p ob st = Some st' \<Longrightarrow> st_windows st' = st_windows st"
  by (auto simp: recordPathUnique_def split: if_splits bind_splits)

lemma record_site_windows:
  assumes "record_site ev ob (st, calls) = Some (st', calls')"
  shows "rings_run (ev_hll ev) (if o_Kind ob = KindPageview then [(o_VisitorID ob, o_At ob)] else [])
    (st_windows st) (st_windows st')"
proof (cases "o_Kind ob = KindEngagement")
  case True
  with assms show ?thesis by (auto simp: record_site_def recordEngagement_def Let_def split: if_splits)
next
  case False
  with assms obtain p x st1 stc1 stc2 where
    a: "admit_paths ev ob st = Some (p, x, st1)" and
    b: "record_pageview ev ob p x (st1, calls) = Some stc1" and
    c: "loop_opt (record_dimension ev ob x) dimensions stc1 = Some stc2" and st': "st' = fst stc2"
    by (auto simp: record_site_def split: bind_splits)
  have "st_windows st1 = st_windows st" using a by (auto simp: admit_paths_def split: bind_splits)
  moreover have "st_windows (fst stc2) = st_windows (fst stc1)"
    using loop_opt_invariant [OF c, where I = "\<lambda>stc. st_windows (fst stc) = st_windows (fst stc1)"]
      record_dimension_windows by (metis (mono_tags, lifting))
  moreover have "rings_run (ev_hll ev) (if o_Kind ob = KindPageview then [(o_VisitorID ob, o_At ob)] else [])
      (st_windows st1) (st_windows (fst stc1))"
    using b by (auto simp: record_pageview_def Let_def case_prod_unfold split: if_splits bind_splits
      dest!: recordPathUnique_windows intro: rings_run_insert)
  ultimately show ?thesis by (simp add: st')
qed

lemma Record_windows:
  assumes rec: "Record ev clock ob r = Some r'" and st: "map_of (rg_sites r) k = Some st"
  obtains st' where "map_of (rg_sites r') k = Some st'"
    "rings_run (ev_hll ev) (visit_of k (ORecord clock ob)) (st_windows st) (st_windows st')"
proof (cases "map_of (rg_sites r) (o_Site ob)")
  case None
  with rec st have "rg_sites r' = rg_sites r" "o_Site ob \<noteq> k"
    by (auto simp: Record_def survives_def split: if_splits)
  with st that show thesis by simp
next
  case (Some st0)
  let ?ob = "if o_At ob = zero_time then ob\<lparr>o_At := clock\<rparr> else ob"
  obtain st1 calls where 1: "record_site ev ?ob (st0, rg_calls r) = Some (st1, calls)"
      "rg_sites r' = AList.update (o_Site ob) st1 (rg_sites r)"
    using rec Some by (auto simp: Record_def Let_def survives_def split: bind_splits if_splits)
  show thesis
  proof (cases "o_Site ob = k")
    case True
    have "rings_run (ev_hll ev) (visit_of k (ORecord clock ob)) (st_windows st) (st_windows st1)"
      using record_site_windows [OF 1(1)] True st Some by (auto simp: record_time_def)
    with True 1(2) that show thesis by (simp add: update_conv')
  next
    case False
    with 1(2) st that show thesis by (simp add: update_conv')
  qed
qed

lemma maintain_site_windows:
  assumes "maintain_site now (st, calls) = Some (st', calls')"
  shows "st_windows st' = st_windows st"
proof -
  obtain stc where c: "loop_opt (maintain_dimension now) dimensions stc = Some (st', calls')" "st_windows (fst stc) = st_windows st"
    using assms by (auto simp: maintain_site_def maintain_cross_def maintain_pure_def Let_def case_prod_unfold)
  have "st_windows (fst b) = st_windows (fst a)" if "maintain_dimension now d a = Some b" for d and a b :: "('a, 'b) site_state \<times> metric_call list"
    using that by (auto simp: maintain_dimension_def Let_def split: bind_splits prod.splits)
  with loop_opt_invariant [OF c(1), where I = "\<lambda>stc. st_windows (fst stc) = st_windows st"] c(2) show ?thesis
    by (metis (mono_tags, lifting) fst_conv)
qed

lemma Maintain_windows:
  assumes "Maintain ev now r = Some r'" and "map_of (rg_sites r) k = Some st"
  obtains st' where "map_of (rg_sites r') k = Some st'" "st_windows st' = st_windows st"
proof -
  have run: "loop_opt (maintain_key now) (map fst (rg_sites r)) r = Some r'"
    using assms(1) by (auto simp: Maintain_def survives_def split: bind_splits if_splits)
  let ?I = "\<lambda>r. \<exists>st'. map_of (rg_sites r) k = Some st' \<and> st_windows st' = st_windows st"
  have "?I b" if "maintain_key now j a = Some b" "?I a" for j and a b :: "('a, 'b) registry"
    using that by (auto simp: maintain_key_def update_conv' split: option.splits bind_splits dest!: maintain_site_windows)
  with loop_opt_invariant [OF run, where I = ?I] assms(2) have "?I r'" by blast
  with that show thesis by blast
qed

lemma Configure_windows:
  assumes "map_of (rg_sites r) k = Some st"
  obtains st' where "map_of (rg_sites (Configure ev cfg r)) k = Some st'" "st_windows st' = st_windows st"
proof -
  have "\<exists>st'. map_of (fold (configure_site ev) ss m) k = Some st' \<and> st_windows st' = st_windows st"
    if "\<exists>st'. map_of m k = Some st' \<and> st_windows st' = st_windows st" for ss m
    using that
  proof (induction ss arbitrary: m)
    case (Cons s ss)
    then have "\<exists>st'. map_of (configure_site ev s m) k = Some st' \<and> st_windows st' = st_windows st"
      by (auto simp: configure_site_def update_conv' split: option.split)
    from Cons.IH [OF this] show ?case by simp
  qed simp
  with assms that show thesis by (fastforce simp: Configure_def)
qed

section \<open>A run\<close>

lemma run_windows:
  assumes "loop_opt (reg_step ev) ops r = Some r'" and "map_of (rg_sites r) k = Some st"
  shows "\<exists>st'. map_of (rg_sites r') k = Some st' \<and> rings_run (ev_hll ev) (visits k ops) (st_windows st) (st_windows st')"
  using assms
proof (induction ops arbitrary: r st)
  case (Cons op ops)
  then obtain r1 where r1: "reg_step ev op r = Some r1" "loop_opt (reg_step ev) ops r1 = Some r'"
    by (auto split: bind_splits)
  obtain st1 where st1: "map_of (rg_sites r1) k = Some st1" "rings_run (ev_hll ev) (visit_of k op) (st_windows st) (st_windows st1)"
  proof (cases op)
    case (ORecord clock ob)
    with r1(1) have "Record ev clock ob r = Some r1" by simp
    from Record_windows [OF this Cons.prems(2)]
    obtain st1 where "map_of (rg_sites r1) k = Some st1" "rings_run (ev_hll ev) (visit_of k op) (st_windows st) (st_windows st1)"
      unfolding ORecord by blast
    then show thesis by (rule that)
  next
    case (OMaintain now)
    with r1(1) have "Maintain ev now r = Some r1" by simp
    then obtain st1 where "map_of (rg_sites r1) k = Some st1" "st_windows st1 = st_windows st"
      using Maintain_windows [OF _ Cons.prems(2)] by blast
    with that show thesis by (simp add: OMaintain)
  next
    case (OConfigure cfg)
    obtain st1 where "map_of (rg_sites (Configure ev cfg r)) k = Some st1" "st_windows st1 = st_windows st"
      using Configure_windows [OF Cons.prems(2)] .
    with OConfigure r1(1) that show thesis by simp
  qed
  obtain st' where "map_of (rg_sites r') k = Some st'" "rings_run (ev_hll ev) (visits k ops) (st_windows st1) (st_windows st')"
    using Cons.IH [OF r1(2) st1(1)] by blast
  with rings_run_append [OF st1(2)] show ?case by (intro exI [of _ st']) simp
qed simp

text \<open>The rings of a new site, with the labels they are reported under.\<close>

definition advertised :: "(desc \<times> string list \<times> duration \<times> nat) list" where
  "advertised =
     [(DescActive, [], minute_ns, 5), (DescUnique, [''1h''], 5 * minute_ns, 12), (DescUnique, [''24h''], hour_ns, 24),
      (DescUnique, [''7d''], 24 * hour_ns, 7), (DescUnique, [''30d''], 24 * hour_ns, 30)]"

lemma rings_advertised:
  "list_all2 (\<lambda>(d, tags, res, n) r. r = NewRolling h res n False) advertised (rings (NewWindows h))"
  by (simp add: advertised_def rings_def NewWindows_def)

lemma New_windows:
  assumes "s \<in> set (Sites cfg)"
  obtains st where "map_of (rg_sites (New ev cfg)) (Domain s) = Some st" "st_windows st = NewWindows (ev_hll ev)"
proof -
  let ?new = "\<lambda>m k. \<forall>st. map_of m k = Some st \<longrightarrow> st_windows st = NewWindows (ev_hll ev)"
  have new: "?new (configure_site ev x m) k" if "?new m k" for x k m
    using that by (auto simp: configure_site_def new_site_state_def update_conv' split: option.splits)
  have "?new (fold (configure_site ev) ss m) k" if "?new m k" for ss k m
    using that
  proof (induction ss arbitrary: m)
    case (Cons x ss)
    from Cons.IH [OF new [OF Cons.prems]] show ?case by simp
  qed simp
  from this [of "[]" "Domain s" "Sites cfg"] have w: "?new (rg_sites (New ev cfg)) (Domain s)"
    by (simp add: New_def Configure_def)
  have "dom (map_of (fold (configure_site ev) ss m)) = dom (map_of m) \<union> Domain ` set ss" for ss m
    by (induction ss arbitrary: m) (auto simp: configure_site_def update_conv' split: option.split)
  from this [of "Sites cfg" "[]"] have "Domain s \<in> dom (map_of (rg_sites (New ev cfg)))"
    using assms by (simp add: New_def Configure_def)
  with w that show thesis by blast
qed

text \<open>What \<open>Collect\<close> says of each ring.\<close>

lemma collect_site_rings:
  assumes "collect_site sc st = Some xs" and "Domain (st_cfg st) = site"
  shows "list_all2 (\<lambda>(d, tags, res, n) r. \<exists>v. rolling_Estimate (sc_hll sc) (sc_now sc) r = Some v \<and>
      \<lparr>cm_desc = d, cm_type = GaugeValue, cm_value = of_u64 v, cm_labels = site # tags\<rparr> \<in> set xs)
    advertised (rings (st_windows st))"
proof -
  have each: "\<exists>v. rolling_Estimate (sc_hll sc) (sc_now sc) r = Some v \<and>
      \<lparr>cm_desc = d, cm_type = GaugeValue, cm_value = of_u64 v, cm_labels = ls\<rparr> \<in> set xs"
    if "\<exists>ys. window_gauge sc d r ls = Some ys \<and> set ys \<subseteq> set xs" for d r ls
    using that by (auto simp: window_gauge_def split: bind_splits dest!: gauge_Some)
  have "\<exists>ys. window_gauge sc DescActive (w_Active (st_windows st)) [site] = Some ys \<and> set ys \<subseteq> set xs"
    "\<exists>ys. window_gauge sc DescUnique (w_H1 (st_windows st)) [site, ''1h''] = Some ys \<and> set ys \<subseteq> set xs"
    "\<exists>ys. window_gauge sc DescUnique (w_D1 (st_windows st)) [site, ''24h''] = Some ys \<and> set ys \<subseteq> set xs"
    "\<exists>ys. window_gauge sc DescUnique (w_D7 (st_windows st)) [site, ''7d''] = Some ys \<and> set ys \<subseteq> set xs"
    "\<exists>ys. window_gauge sc DescUnique (w_D30 (st_windows st)) [site, ''30d''] = Some ys \<and> set ys \<subseteq> set xs"
    using assms by (auto simp: collect_site_def Let_def intro!: emit_all_each simp del: emit_all.simps)
  note this [THEN each]
  then show ?thesis by (simp add: advertised_def rings_def)
qed

section \<open>Properties\<close>

text \<open>
  C14: The visitor gauges count exactly the visitors of their windows. After any run of recorded
  events, sweeps and reloads, in which no pageview of a site lies a whole ring behind an earlier one,
  each of its gauges for five minutes, an hour, a day, a week and a month is the sketch's estimate of
  the set of visitors whose pageviews were recorded for that site, and for no other, in the slots of
  that window; engagement pings and custom events count for nobody.
\<close>

theorem scrape_counts_visitors:
  assumes "loop_opt (reg_step ev) ops (New ev cfg) = Some r" and "s \<in> set (Sites cfg)" and "\<forall>op \<in> set ops. op_timely op"
    and "distinct (map Domain (Sites cfg))" and "Collect sc age r = Some ms" and "sc_hll sc = ev_hll ev"
    and "hll_sound (ev_hll ev) (newSketch (ev_hll ev) False) holds est"
    and window: "(d, tags, res, n) \<in> set advertised"
    and "sorted_wrt (\<lambda>a b. snd a div res - int n < snd b div res) (visits (Domain s) ops)"
    and "\<forall>e \<in> set (visits (Domain s) ops). 0 \<le> snd e \<and> snd e \<le> sc_now sc" and "0 \<le> sc_now sc" "sc_now sc \<le> max_duration"
  shows "\<lparr>cm_desc = d, cm_type = GaugeValue,
      cm_value = of_u64 (est (mix ` {v. \<exists>t. (v, t) \<in> set (visits (Domain s) ops) \<and> sc_now sc div res - int n < t div res})),
      cm_labels = Domain s # tags\<rparr> \<in> set ms"
proof -
  obtain st0 where st0: "map_of (rg_sites (New ev cfg)) (Domain s) = Some st0" "st_windows st0 = NewWindows (ev_hll ev)"
    using New_windows [OF assms(2)] .
  obtain st where st: "map_of (rg_sites r) (Domain s) = Some st"
      "rings_run (ev_hll ev) (visits (Domain s) ops) (NewWindows (ev_hll ev)) (st_windows st)"
    using run_windows [OF assms(1) st0(1)] st0(2) by auto
  have "Domain (st_cfg st) = Domain s"
    using run_site [OF assms(4,2,3,1)] st(1) by (auto simp: site_inv_def)
  moreover obtain xs where xs: "collect_site sc st = Some xs" "set xs \<subseteq> set ms"
    using Collect_site [OF assms(5) st(1)] .
  moreover obtain i where i: "i < length advertised" "advertised ! i = (d, tags, res, n)"
    using window by (auto simp: in_set_conv_nth)
  ultimately obtain v where v: "rolling_Estimate (sc_hll sc) (sc_now sc) (rings (st_windows st) ! i) = Some v"
      "\<lparr>cm_desc = d, cm_type = GaugeValue, cm_value = of_u64 v, cm_labels = Domain s # tags\<rparr> \<in> set ms"
    using list_all2_nthD [OF collect_site_rings i(1)] by fastforce
  have "rings (NewWindows (ev_hll ev)) ! i = NewRolling (ev_hll ev) res n False"
    using list_all2_nthD [OF rings_advertised i(1)] i(2) by (auto dest: meta_spec)
  moreover have "rolling_run (ev_hll ev) (visits (Domain s) ops) (rings (NewWindows (ev_hll ev)) ! i) = Some (rings (st_windows st) ! i)"
    using list_all2_nthD [OF st(2) [unfolded rings_run_def], of i] i(1) by (simp add: advertised_def rings_def)
  moreover have "0 < n" "0 < res" using window by (auto simp: advertised_def)
  ultimately have "v = est (mix ` {v. \<exists>t. (v, t) \<in> set (visits (Domain s) ops) \<and> sc_now sc div res - int n < t div res})"
    using rolling_counts_the_window [OF assms(7,9) _ _ assms(10-12)] v(1) assms(6) by auto
  with v(2) show ?thesis by simp
qed

text \<open>Two visitors in the first minute, one of whom signs up, scraped three hours later.\<close>

theorem scrape_counts_visitors_witness:
  "\<exists>r ms. loop_opt (reg_step example_env) example_ops (New example_env example_live) = Some r \<and>
     Collect example_scrape None r = Some ms \<and>
     \<lparr>cm_desc = DescUnique, cm_type = GaugeValue, cm_value = of_u64 2, cm_labels = [Domain example_built, ''24h'']\<rparr> \<in> set ms \<and>
     \<lparr>cm_desc = DescUnique, cm_type = GaugeValue, cm_value = of_u64 0, cm_labels = [Domain example_built, ''1h'']\<rparr> \<in> set ms"
proof -
  obtain r where r: "loop_opt (reg_step example_env) example_ops (New example_env example_live) = Some r"
    using example_run(1) by blast
  have ev: "takes_labelled example_env" "takes_well_formed example_scrape"
    by (simp_all add: takes_labelled_def example_env_def takes_well_formed_def example_scrape_def)
  note inv = run_labelled [OF r example_texts ev(1)]
  obtain ms where ms: "Collect example_scrape None r = Some ms"
    using emits_Collect [OF ev(2), of r None] registry_domains inv by (auto simp: emits_def)
  have vs: "visits (Domain example_built) example_ops = [(1, 10), (2, 20)]"
    by (simp add: example_ops_def visit_def record_time_def zero_time_def)
  have sound: "hll_sound (ev_hll example_env) (newSketch (ev_hll example_env) False) (=) (\<lambda>s. word_of_nat (card s))"
    using exact_hll_sound by (simp add: newSketch_def exact_hll_def example_env_def)
  have sc: "sc_hll example_scrape = ev_hll example_env" "sc_now example_scrape = 3 * hour_ns"
    by (simp_all add: example_scrape_def example_env_def)
  note gauge = scrape_counts_visitors [OF r example_run(4,2,3) ms sc(1) sound, unfolded vs sc(2)]
  have "unmix (mix 1) \<noteq> unmix (mix 2)" by (simp add: unmix_mix)
  then have ne: "mix 1 \<noteq> mix 2" by metis
  have day: "{v. \<exists>t. (v, t) \<in> set [(1::u64, 10), (2, 20)] \<and> 3 * hour_ns div hour_ns - int 24 < t div hour_ns} = {1, 2}"
    and hour: "{v. \<exists>t. (v, t) \<in> set [(1::u64, 10), (2, 20)] \<and> 3 * hour_ns div (5 * minute_ns) - int 12 < t div (5 * minute_ns)} = {}"
    by auto
  have "\<lparr>cm_desc = DescUnique, cm_type = GaugeValue, cm_value = of_u64 2, cm_labels = [Domain example_built, ''24h'']\<rparr> \<in> set ms"
    using gauge [of DescUnique "[''24h'']" hour_ns 24, unfolded day] ne by (simp add: advertised_def)
  moreover have "\<lparr>cm_desc = DescUnique, cm_type = GaugeValue, cm_value = of_u64 0, cm_labels = [Domain example_built, ''1h'']\<rparr> \<in> set ms"
    using gauge [of DescUnique "[''1h'']" "5 * minute_ns" 12, unfolded hour] by (simp add: advertised_def)
  ultimately show ?thesis using r ms by blast
qed

end
