(* ===== verification/Metrics.thy ===== *)
theory Metrics
  imports Collector
begin

text \<open>
  What the metrics port exposes: the registrations \<open>New\<close> makes in \<open>internal/aggregate/registry.go\<close>, in
  order, on a private registry of the client.

  \<^item> A registration is a list of descriptors, a full name with its label names. \<open>must_register\<close> is
    \<open>MustRegister\<close>: it panics when a full name is already registered (no descriptor here has constant
    labels, so a name is a descriptor).
  \<^item> The descriptors of the client's runtime collectors are parameters.
  \<^item> \<open>family_desc\<close>: the vector each \<open>family\<close> of the model stands for.
\<close>

section \<open>Registration\<close>

type_synonym descriptor = "string \<times> string list"

text \<open>\<open>BuildFQName\<close> with the namespace and no subsystem.\<close>

definition fq :: "string \<Rightarrow> string" where
  "fq name = ns @ ''_'' @ name"

definition vec :: "string \<Rightarrow> string list \<Rightarrow> descriptor list" where
  "vec name labels = [(fq name, labels)]"

definition must_register :: "descriptor list \<Rightarrow> descriptor list \<Rightarrow> descriptor list option" where
  "must_register ds reg = (if distinct (map fst (reg @ ds)) then Some (reg @ ds) else None)"

definition registrations :: "descriptor list \<Rightarrow> descriptor list \<Rightarrow> descriptor list list" where
  "registrations goCollector processCollector =
     [vec ''pageviews_total'' [''site'', ''path''],
      vec ''entries_total'' [''site'', ''path''],
      vec ''exits_total'' [''site'', ''path'']] @
     map (\<lambda>d. vec (d_metric d) ([''site''] @ d_labels d @ [''path''])) dimensions @
     [vec ''pageviews_by_region_total'' [''site'', ''region''],
      vec ''pageviews_by_city_total'' [''site'', ''city''],
      vec ''sessions_total'' [''site''],
      vec ''bounces_total'' [''site''],
      vec ''session_duration_seconds'' [''site''],
      vec ''time_on_page_seconds'' [''site'', ''path''],
      vec ''ingest_events_total'' [''site'', ''result''],
      vec ''geoip_lookups_total'' [''result''],
      vec ''ingest_duration_seconds'' [],
      vec ''queue_depth'' [],
      goCollector, processCollector,
      map (\<lambda>d. (desc_name d, desc_labels d)) Describe]"

definition register_all :: "descriptor list \<Rightarrow> descriptor list \<Rightarrow> descriptor list option" where
  "register_all goCollector processCollector = loop_opt must_register (registrations goCollector processCollector) []"

fun family_desc :: "family \<Rightarrow> descriptor list" where
  "family_desc FPageviews = vec ''pageviews_total'' [''site'', ''path'']"
| "family_desc FEntries = vec ''entries_total'' [''site'', ''path'']"
| "family_desc FExits = vec ''exits_total'' [''site'', ''path'']"
| "family_desc (FDim dn) =
     (case List.find (\<lambda>d. d_dim d = dn) dimensions of
        Some d \<Rightarrow> vec (d_metric d) ([''site''] @ d_labels d @ [''path''])
      | None \<Rightarrow> [])"
| "family_desc FRegions = vec ''pageviews_by_region_total'' [''site'', ''region'']"
| "family_desc FCities = vec ''pageviews_by_city_total'' [''site'', ''city'']"
| "family_desc FSessionsTotal = vec ''sessions_total'' [''site'']"
| "family_desc FBounces = vec ''bounces_total'' [''site'']"
| "family_desc FSessionDur = vec ''session_duration_seconds'' [''site'']"
| "family_desc FTimeOnPage = vec ''time_on_page_seconds'' [''site'', ''path'']"
| "family_desc FIngestEvents = vec ''ingest_events_total'' [''site'', ''result'']"
| "family_desc FGeoLookups = vec ''geoip_lookups_total'' [''result'']"

definition known_family :: "family \<Rightarrow> bool" where
  "known_family f \<longleftrightarrow> (\<forall>dn. f = FDim dn \<longrightarrow> dn \<in> dims)"

lemma register_loop:
  "distinct (map fst (reg @ concat dss)) \<Longrightarrow> loop_opt must_register dss reg = Some (reg @ concat dss)"
proof (induction dss arbitrary: reg)
  case (Cons ds dss)
  from Cons.prems have "distinct (map fst (reg @ ds))" "distinct (map fst ((reg @ ds) @ concat dss))" by auto
  with Cons.IH [of "reg @ ds"] show ?case by (simp add: must_register_def)
qed simp

text \<open>The program's own descriptors.\<close>

definition own :: "descriptor list" where
  "own = concat (registrations [] [])"

lemma own_names: "distinct (map fst own)" "list_all (\<lambda>d. HasPrefix (fst d) ''ridiculytics_'') own"
  by code_simp+

lemma registrations_parts:
  "mset (concat (registrations go proc)) = mset own + mset go + mset proc"
  by (simp add: registrations_def own_def)

text \<open>
  Start-up registers every metric and nothing twice. When the runtime collectors of the client
  use distinct names outside the program's namespace, as they are documented to, none of the
  registrations panics; each family the registry counts in is registered under its name with exactly
  the label names the calls use, and so is each descriptor a scrape uses.
\<close>

theorem every_family_registered:
  assumes "distinct (map fst (go @ proc))" and "\<forall>d \<in> set (go @ proc). \<not> HasPrefix (fst d) ''ridiculytics_''"
  shows "\<exists>reg. register_all go proc = Some reg \<and> distinct (map fst reg) \<and>
    (\<forall>f. known_family f \<longrightarrow> (\<exists>name. family_desc f = [(name, label_names f)] \<and> (name, label_names f) \<in> set reg)) \<and>
    (\<forall>d. (desc_name d, desc_labels d) \<in> set reg)"
proof -
  let ?reg = "concat (registrations go proc)"
  have parts: "mset (map fst ?reg) = mset (map fst (own @ go @ proc))"
    unfolding mset_map registrations_parts by simp
  have "distinct (map fst (own @ go @ proc))"
  proof -
    have "fst x \<noteq> fst y" if "x \<in> set own" "y \<in> set (go @ proc)" for x y
      using own_names(2) assms(2) that unfolding list_all_iff by metis
    then have "set (map fst own) \<inter> set (map fst (go @ proc)) = {}" unfolding set_map by blast
    with assms(1) own_names(1) show ?thesis by (simp only: map_append distinct_append)
  qed
  then have d: "distinct (map fst ?reg)" using mset_eq_imp_distinct_iff [OF parts] by blast
  have sub: "set own \<subseteq> set ?reg" by (auto simp: registrations_def own_def)
  have plain: "list_all (\<lambda>f. family_desc f = [(fst (hd (family_desc f)), label_names f)] \<and> hd (family_desc f) \<in> set own)
      ([FPageviews, FEntries, FExits, FRegions, FCities, FSessionsTotal, FBounces, FSessionDur, FTimeOnPage,
        FIngestEvents, FGeoLookups] @ map (\<lambda>d. FDim (d_dim d)) dimensions)"
    by code_simp
  have "\<exists>name. family_desc f = [(name, label_names f)] \<and> (name, label_names f) \<in> set own" if "known_family f" for f
  proof -
    have "f \<in> set ([FPageviews, FEntries, FExits, FRegions, FCities, FSessionsTotal, FBounces, FSessionDur, FTimeOnPage,
        FIngestEvents, FGeoLookups] @ map (\<lambda>d. FDim (d_dim d)) dimensions)"
      using that by (cases f) (auto simp: known_family_def dims_def)
    with plain have "family_desc f = [(fst (hd (family_desc f)), label_names f)]" "hd (family_desc f) \<in> set own"
      unfolding list_all_iff by blast+
    then show ?thesis by (metis list.sel(1))
  qed
  moreover have "\<forall>d. (desc_name d, desc_labels d) \<in> set own" by code_simp
  moreover have "register_all go proc = Some ?reg"
    using register_loop [of "[]" "registrations go proc"] d by (simp add: register_all_def)
  ultimately show ?thesis using d sub by blast
qed

theorem every_family_registered_witness:
  "\<exists>reg. register_all [(''go_goroutines'', []), (''go_info'', [''version''])] [(''process_open_fds'', [])] = Some reg \<and>
     (\<forall>d. (desc_name d, desc_labels d) \<in> set reg)"
  using every_family_registered [of "[(''go_goroutines'', []), (''go_info'', [''version''])]" "[(''process_open_fds'', [])]"]
  by simp blast

end
