(* ===== verification/Startup.thy ===== *)
theory Startup
  imports Geo Config
begin

text \<open>
  How \<open>cmd/ridiculytics/main.go\<close> finds and opens the geolocation databases. The file system is a
  parameter: \<open>stat\<close> says of a path whether there is something, and whether that is a directory.

  \<^item> \<open>filepath_Join\<close>: \<open>filepath.Join\<close> with its lexical \<open>Clean\<close>.
  \<^item> \<open>discoverGeo\<close>, \<open>openGeo\<close>: the code. \<open>geo_provider\<close> is the interface value \<open>geo.Provider\<close>; its
    operations dispatch to the two implementations and meet the contract of both.
\<close>

section \<open>Paths\<close>

text \<open>The elements kept so far are in reverse; \<open>..\<close> drops one, and stays only where nothing can drop.\<close>

fun clean_elements :: "bool \<Rightarrow> string list \<Rightarrow> string list \<Rightarrow> string list" where
  "clean_elements rooted out [] = rev out"
| "clean_elements rooted out (e # es) =
     (if e = [] \<or> e = ''.'' then clean_elements rooted out es
      else if e = ''..'' then
        (case out of
           [] \<Rightarrow> clean_elements rooted (if rooted then [] else [''..'']) es
         | o1 # rest \<Rightarrow> clean_elements rooted (if o1 = ''..'' then ''..'' # out else rest) es)
      else clean_elements rooted (e # out) es)"

definition Clean :: "string \<Rightarrow> string" where
  "Clean p =
     (if p = [] then ''.''
      else let rooted = HasPrefix p ''/'';
               body = Join (clean_elements rooted [] (Split p (CHR ''/''))) ''/''
        in if rooted then CHR ''/'' # body else if body = [] then ''.'' else body)"

definition filepath_Join :: "string list \<Rightarrow> string" where
  "filepath_Join elems =
     (case dropWhile (\<lambda>e. e = []) elems of [] \<Rightarrow> [] | es \<Rightarrow> Clean (Join es ''/''))"

section \<open>Discovery\<close>

definition geoSearchDirs :: "string list" where
  "geoSearchDirs = [''/var/lib/ridiculytics'', ''/usr/share/ridiculytics/geo'']"

definition geoCandidates :: "(string, string list) gomap" where
  "geoCandidates =
     [(''city'', [''dbip-city-lite.mmdb'', ''GeoLite2-City.mmdb'']),
      (''country'', [''dbip-country-lite.mmdb'', ''GeoLite2-Country.mmdb'']),
      (''asn'', [''dbip-asn-lite.mmdb'', ''GeoLite2-ASN.mmdb''])]"

type_synonym stat = "string \<Rightarrow> bool option"

definition regular :: "stat \<Rightarrow> string \<Rightarrow> bool" where
  "regular stat p \<longleftrightarrow> (case stat p of None \<Rightarrow> False | Some is_dir \<Rightarrow> \<not> is_dir)"

text \<open>The paths the closure \<open>find\<close> tries, in order, and its result.\<close>

definition tried :: "string list \<Rightarrow> string \<Rightarrow> string list" where
  "tried dirs kind =
     concat (map (\<lambda>dir. map (\<lambda>name. filepath_Join [dir, name])
       (case map_of geoCandidates kind of None \<Rightarrow> [] | Some names \<Rightarrow> names)) dirs)"

definition find_geo :: "stat \<Rightarrow> string list \<Rightarrow> string \<Rightarrow> string" where
  "find_geo stat dirs kind = (case List.find (regular stat) (tried dirs kind) of None \<Rightarrow> [] | Some p \<Rightarrow> p)"

definition discoverGeo :: "stat \<Rightarrow> string list \<Rightarrow> string \<times> string \<times> string" where
  "discoverGeo stat dirs = (find_geo stat dirs ''city'', find_geo stat dirs ''country'', find_geo stat dirs ''asn'')"

section \<open>The provider\<close>

datatype 'db geo_provider = NullProvider | MMDBProvider "'db mmdb"

datatype geo_error = GeoOpenFailed string | UnknownProvider string

definition openGeo ::
  "stat \<Rightarrow> 'db files \<times> time \<Rightarrow> geo_config \<Rightarrow> heap \<Rightarrow> (geo_error + 'db geo_provider) \<times> heap" where
  "openGeo stat w g h =
     (if gc_Provider g = [] \<or> gc_Provider g = ''none'' then (Inr NullProvider, h)
      else if gc_Provider g = ''dbip'' \<or> gc_Provider g = ''maxmind'' then
        (let (city, country, asn) =
           (if gc_CityDB g = [] \<and> gc_CountryDB g = [] \<and> gc_ASNDB g = [] then discoverGeo stat geoSearchDirs
            else (gc_CityDB g, gc_CountryDB g, gc_ASNDB g))
         in case mmdb_Open city country asn w h of
              (None, h) \<Rightarrow> (Inl (GeoOpenFailed (gc_Provider g)), h)
            | (Some m, h) \<Rightarrow> (Inr (MMDBProvider m), h))
      else (Inl (UnknownProvider (gc_Provider g)), h))"

fun provider_Lookup :: "'db mmdb_lib \<Rightarrow> 'db geo_provider \<times> heap \<Rightarrow> addr \<Rightarrow> geo_result" where
  "provider_Lookup lib (NullProvider, h) ip = null_Lookup () ip"
| "provider_Lookup lib (MMDBProvider m, h) ip = mmdb_Lookup lib m ip"

fun provider_Reload :: "'db files \<times> time \<Rightarrow> 'db geo_provider \<times> heap \<Rightarrow> bool \<times> 'db geo_provider \<times> heap" where
  "provider_Reload w (NullProvider, h) = (fst (null_Reload w ()), NullProvider, h)"
| "provider_Reload w (MMDBProvider m, h) =
     (let (ok, m, h) = mmdb_Reload w (m, h) in (ok, MMDBProvider m, h))"

fun provider_Close :: "'db geo_provider \<times> heap \<Rightarrow> 'db geo_provider \<times> heap" where
  "provider_Close (NullProvider, h) = (NullProvider, h)"
| "provider_Close (MMDBProvider m, h) = (let (m, h) = mmdb_Close (m, h) in (MMDBProvider m, h))"

fun provider_DBAge :: "time \<Rightarrow> 'db geo_provider \<Rightarrow> duration" where
  "provider_DBAge now NullProvider = null_DBAge ()"
| "provider_DBAge now (MMDBProvider m) = mmdb_DBAge now m"

fun provider_ok :: "'db geo_provider \<times> heap \<Rightarrow> bool" where
  "provider_ok (NullProvider, h) \<longleftrightarrow> heap_ok h \<and> hp_open h = []"
| "provider_ok (MMDBProvider m, h) \<longleftrightarrow> geo_ok (m, h)"

fun_cases provider_okE: "provider_ok (p, h)"

interpretation gp: provider "provider_Lookup lib" provider_Reload provider_Close provider_ok
proof
  fix s :: "'a geo_provider \<times> heap" and w :: "'a files \<times> time" and ip
  obtain p h where s: "s = (p, h)" by (cases s)
  show "provider_ok (snd (provider_Reload w s))" if "provider_ok s"
  proof (cases p)
    case (MMDBProvider m)
    with that s mmdb_Reload_ok(1) [of "(m, h)" w] show ?thesis by (simp add: case_prod_unfold Let_def)
  qed (use that s in simp)
  show "provider_ok (provider_Close s)" if "provider_ok s"
  proof (cases p)
    case (MMDBProvider m)
    with that s mmdb_Close_ok [of "(m, h)"] show ?thesis by (simp add: case_prod_unfold Let_def)
  qed (use that s in simp)
  show "provider_Lookup lib (snd (provider_Reload w s)) = provider_Lookup lib s" if "provider_ok s" "\<not> fst (provider_Reload w s)"
  proof (cases p)
    case (MMDBProvider m)
    with that s mmdb_Reload_ok(2) [of "(m, h)" w] show ?thesis by (simp add: fun_eq_iff case_prod_unfold Let_def)
  qed (use that s in \<open>simp add: null_Reload_def\<close>)
  show "provider_Lookup lib (provider_Close s) ip = no_geo"
  proof (cases p)
    case (MMDBProvider m)
    with s mm.closed [of lib "(m, h)" ip] show ?thesis by (simp add: case_prod_unfold Let_def)
  qed (use s in \<open>simp add: null_Lookup_def\<close>)
  show "provider_Lookup lib s AddrNone = no_geo"
    using mm.invalid [of lib] by (cases p) (force simp: s null_Lookup_def)+
qed

section \<open>Opening\<close>

text \<open>A path names a database, or is not given.\<close>

definition opens :: "'db files \<Rightarrow> string \<Rightarrow> bool" where
  "opens fs p \<longleftrightarrow> p = [] \<or> (\<exists>db. fs p = Some (Some db))"

lemma open_db_opens: "fst (open_db fs p h) \<noteq> None \<longleftrightarrow> opens fs p"
  by (auto simp: open_db_def opens_def split: option.split)

lemma open_all_opens:
  "fst (open_all fs m h) \<noteq> None \<longleftrightarrow> opens fs (mm_cityPath m) \<and> opens fs (mm_countryPath m) \<and> opens fs (mm_asnPath m)"
proof -
  obtain c h1 where 1: "open_db fs (mm_cityPath m) h = (c, h1)" by force
  obtain k h2 where 2: "open_db fs (mm_countryPath m) h1 = (k, h2)" by force
  obtain a h3 where 3: "open_db fs (mm_asnPath m) h2 = (a, h3)" by force
  have "opens fs (mm_cityPath m) \<longleftrightarrow> c \<noteq> None" "opens fs (mm_countryPath m) \<longleftrightarrow> k \<noteq> None" "opens fs (mm_asnPath m) \<longleftrightarrow> a \<noteq> None"
    using open_db_opens [of fs _ h] open_db_opens [of fs _ h1] open_db_opens [of fs _ h2] 1 2 3 by (metis fst_conv)+
  with 1 2 3 show ?thesis by (auto simp: open_all_def split: option.splits)
qed

lemma mmdb_Open_cases:
  assumes "mmdb_Open city country asn w h = (opened, h')" and "heap_ok h" "hp_open h = []"
  shows "opened \<noteq> None \<longleftrightarrow> opens (fst w) city \<and> opens (fst w) country \<and> opens (fst w) asn"
    and "opened = None \<Longrightarrow> heap_ok h' \<and> hp_open h' = []" and "opened = Some m \<Longrightarrow> geo_ok (m, h')"
    and "opened = Some m \<Longrightarrow> mm_cityPath m = city \<and> mm_countryPath m = country \<and> mm_asnPath m = asn"
proof -
  let ?m = "\<lparr>mm_cityPath = city, mm_countryPath = country, mm_asnPath = asn,
                mm_city = None, mm_country = None, mm_asn = None, mm_loaded = zero_time\<rparr>"
  have ok: "geo_ok (?m, h)" using assms(2,3) by (simp add: geo_ok_def held_def)
  have o': "opened = (if fst (mmdb_Reload w (?m, h)) then Some (fst (snd (mmdb_Reload w (?m, h)))) else None)"
      "h' = snd (snd (mmdb_Reload w (?m, h)))"
    using assms(1) by (auto simp: mmdb_Open_def Let_def split: prod.splits)
  note loaded = mmdb_Reload_ok [OF ok, of w]
  have success: "fst (mmdb_Reload w (?m, h)) \<longleftrightarrow> fst (open_all (fst w) ?m h) \<noteq> None"
    by (cases w) (auto simp: mmdb_Reload_def swap_def split: prod.split option.split)
  then show "opened \<noteq> None \<longleftrightarrow> opens (fst w) city \<and> opens (fst w) country \<and> opens (fst w) asn"
    using open_all_opens [of "fst w" ?m h] by (simp add: o'(1))
  show "heap_ok h' \<and> hp_open h' = []" if "opened = None"
  proof -
    have "fst (snd (mmdb_Reload w (?m, h))) = ?m" using loaded(2) that o'(1) by (auto split: if_splits)
    with loaded(1) show ?thesis by (simp add: geo_ok_def o'(2) held_def)
  qed
  show "geo_ok (m, h')" if "opened = Some m"
    using loaded(1) that o' by (auto split: if_splits)
  show "mm_cityPath m = city \<and> mm_countryPath m = country \<and> mm_asnPath m = asn" if "opened = Some m"
    using that o'(1) by (cases w) (auto simp: mmdb_Reload_def swap_def split: prod.splits option.splits if_splits)
qed

lemma openGeo_ok:
  assumes "openGeo stat w g h = (res, h')" and "heap_ok h" "hp_open h = []"
  shows "case res of Inl e \<Rightarrow> heap_ok h' \<and> hp_open h' = [] | Inr p \<Rightarrow> provider_ok (p, h')"
proof -
  have "case res of Inl e \<Rightarrow> heap_ok h' \<and> hp_open h' = [] | Inr p \<Rightarrow> provider_ok (p, h')"
    if o': "mmdb_Open city country asn w h = (opened, h1)"
      "(res, h') = (case opened of None \<Rightarrow> (Inl (GeoOpenFailed (gc_Provider g)), h1) | Some m \<Rightarrow> (Inr (MMDBProvider m), h1))"
    for city country asn opened h1
    using mmdb_Open_cases(2,3) [OF o'(1) assms(2,3)] o'(2) by (cases opened) auto
  with assms show ?thesis by (auto simp: openGeo_def Let_def split: if_splits prod.splits option.splits)
qed

section \<open>Properties\<close>

text \<open>
  Explicit database paths are never second-guessed. When a provider is selected and any path is
  set, the start does not look at the search directories at all: it succeeds exactly when each path
  that is set opens as a database, the provider it gives has those paths, and a start that fails
  leaves no database open.
\<close>

theorem explicit_databases_all_or_nothing:
  assumes "gc_Provider g \<in> {''dbip'', ''maxmind''}" and "[gc_CityDB g, gc_CountryDB g, gc_ASNDB g] \<noteq> [[], [], []]"
    and "openGeo stat w g \<lparr>hp_next = 0, hp_open = []\<rparr> = (res, h')"
  shows "(\<forall>stat'. openGeo stat' w g \<lparr>hp_next = 0, hp_open = []\<rparr> = (res, h')) \<and>
    (if \<forall>p \<in> {gc_CityDB g, gc_CountryDB g, gc_ASNDB g}. opens (fst w) p
     then \<exists>m. res = Inr (MMDBProvider m) \<and>
       [mm_cityPath m, mm_countryPath m, mm_asnPath m] = [gc_CityDB g, gc_CountryDB g, gc_ASNDB g]
     else res = Inl (GeoOpenFailed (gc_Provider g)) \<and> hp_open h' = [])"
proof -
  let ?h = "\<lparr>hp_next = 0, hp_open = []\<rparr>"
  obtain opened h1 where o': "mmdb_Open (gc_CityDB g) (gc_CountryDB g) (gc_ASNDB g) w ?h = (opened, h1)" by force
  have eq: "openGeo stat' w g ?h =
      (case opened of None \<Rightarrow> (Inl (GeoOpenFailed (gc_Provider g)), h1) | Some m \<Rightarrow> (Inr (MMDBProvider m), h1))" for stat'
    using assms(1,2) o' by (auto simp: openGeo_def)
  have empty: "heap_ok ?h" "hp_open ?h = []" by (simp_all add: heap_ok_def)
  note c = mmdb_Open_cases [OF o' empty]
  show ?thesis
  proof (cases opened)
    case None
    with c(1,2) eq assms(3) show ?thesis by auto
  next
    case (Some m)
    with c(1) c(4) [OF Some] eq assms(3) show ?thesis by auto
  qed
qed

definition named_databases :: geo_config where
  "named_databases = \<lparr>gc_Provider = ''dbip'', gc_CityDB = ''/srv/city.mmdb'', gc_ASNDB = ''/srv/asn.mmdb'', gc_CountryDB = []\<rparr>"

theorem explicit_databases_all_or_nothing_witness:
  "\<exists>h'. openGeo (\<lambda>_. Some False) ((\<lambda>p. if p = ''/srv/city.mmdb'' then Some (Some p) else None), 5) named_databases
     \<lparr>hp_next = 0, hp_open = []\<rparr> = (Inl (GeoOpenFailed ''dbip''), h') \<and> hp_open h' = []"
proof -
  obtain res h' where r: "openGeo (\<lambda>_. Some False) ((\<lambda>p. if p = ''/srv/city.mmdb'' then Some (Some p) else None), 5)
      named_databases \<lparr>hp_next = 0, hp_open = []\<rparr> = (res, h')" by force
  from explicit_databases_all_or_nothing [OF _ _ r] r show ?thesis
    by (simp add: named_databases_def opens_def)
qed

text \<open>
  Discovery takes the first file there is, the mount before the image. Each of the three paths is
  empty when none of the places for its kind holds a file, directories not counting; otherwise it is
  the first such place, in the order DB-IP, GeoLite2 under the mount point, then the same under the
  directory of the image.
\<close>

theorem discovery_takes_the_first:
  assumes "kind \<in> {''city'', ''country'', ''asn''}"
  shows "\<exists>names. map_of geoCandidates kind = Some names \<and>
    (let places = [''/var/lib/ridiculytics/'' @ n. n \<leftarrow> names] @ [''/usr/share/ridiculytics/geo/'' @ n. n \<leftarrow> names] in
     find_geo stat geoSearchDirs kind =
       (case filter (regular stat) places of [] \<Rightarrow> [] | p # ps \<Rightarrow> p))"
proof -
  have places: "\<forall>k \<in> {''city'', ''country'', ''asn''}. \<exists>names. map_of geoCandidates k = Some names \<and>
      tried geoSearchDirs k = [''/var/lib/ridiculytics/'' @ n. n \<leftarrow> names] @ [''/usr/share/ridiculytics/geo/'' @ n. n \<leftarrow> names]"
    by (simp add: geoCandidates_def tried_def) (intro conjI; code_simp)
  have first: "(case List.find P xs of None \<Rightarrow> [] | Some p \<Rightarrow> p) = (case filter P xs of [] \<Rightarrow> [] | p # ps \<Rightarrow> p)"
    for P and xs :: "string list"
    by (induction xs) simp_all
  from places assms obtain names where "map_of geoCandidates kind = Some names"
      "tried geoSearchDirs kind = [''/var/lib/ridiculytics/'' @ n. n \<leftarrow> names] @ [''/usr/share/ridiculytics/geo/'' @ n. n \<leftarrow> names]"
    by blast
  then show ?thesis by (simp add: find_geo_def first Let_def del: filter_append)
qed

theorem discovery_takes_the_first_witness:
  "find_geo (\<lambda>p. if p = ''/var/lib/ridiculytics/dbip-asn-lite.mmdb'' then Some True
      else if p = ''/usr/share/ridiculytics/geo/GeoLite2-ASN.mmdb'' then Some False else None) geoSearchDirs ''asn''
   = ''/usr/share/ridiculytics/geo/GeoLite2-ASN.mmdb''"
  using discovery_takes_the_first [of "''asn''" "\<lambda>p. if p = ''/var/lib/ridiculytics/dbip-asn-lite.mmdb'' then Some True
      else if p = ''/usr/share/ridiculytics/geo/GeoLite2-ASN.mmdb'' then Some False else None"]
  by (simp add: geoCandidates_def regular_def)

end
