(* ===== verification/Daemon.thy ===== *)
theory Daemon
  imports Startup Store Ingest
begin

text \<open>
  The daemon, \<open>cmd/ridiculytics/main.go\<close>: how \<open>run\<close> puts the components together, the two housekeeping
  goroutines and the shutdown.

  \<^item> \<open>start\<close>: \<open>run\<close> up to the goroutines, with the deferred close of the geo provider on each error.
  \<^item> \<open>maintain_tick\<close>, \<open>reload_signal\<close>: one turn of the loops of \<open>maintain\<close> and \<open>reload\<close>. A signal has three
    parts (the store, the registry, the databases); the goroutine is before, between or after them.
  \<^item> \<open>daemon_step\<close>: the whole program as a step relation: requests, workers, ticks, the parts of a signal
    and the close of the queue, interleaved.
  \<^item> \<open>worker_step\<close>: the steps of the workers alone. \<open>program_step\<close>: the stages around them, while \<open>run\<close> waits,
    while it shuts down and after it has returned; the goroutines of \<open>maintain\<close> and \<open>reload\<close> are never joined, so
    they take steps in every stage.
  \<^item> \<open>daemon_ok\<close>: what holds between steps; it carries the contracts of the components across them.
    \<open>Daemon_Runs\<close>, \<open>Ports\<close> and \<open>Service\<close> build on it.
\<close>

section \<open>The state\<close>

text \<open>Where the goroutine \<open>reload\<close> is.\<close>

datatype reload_phase = Waiting | ToConfigure | ToReopen

datatype start_error = ConfigFailed config_error | GeoFailed geo_error | SaltFailed

record ('s, 're, 'db) daemon =
  dm_store :: "'re store"
  dm_reg :: "('s, 're) registry"
  dm_srv :: "'re ingest_server"
  dm_salt :: salt
  dm_geo :: "'db geo_provider"
  dm_heap :: heap
  dm_calls :: "ingest_call list"
  dm_phase :: reload_phase

text \<open>What lies outside: the metrics client and sketches, the loader, the MaxMind library, the URL setting.\<close>

record ('s, 're, 'db) outside =
  os_env :: "'s env"
  os_loader :: "'re loader"
  os_mmdb :: "'db mmdb_lib"
  os_strict :: "string \<Rightarrow> bool"

definition os_ingest :: "('s, 're, 'db) outside \<Rightarrow> 're ingest_env" where
  "os_ingest os = \<lparr>ie_platform = ld_platform (os_loader os), ie_strict = os_strict os\<rparr>"

abbreviation dm_queue :: "('s, 're, 'db) daemon \<Rightarrow> 're raw pool" where
  "dm_queue d \<equiv> sv_queue (dm_srv d)"

section \<open>Start\<close>

abbreviation empty_heap :: heap where
  "empty_heap \<equiv> \<lparr>hp_next = 0, hp_open = []\<rparr>"

text \<open>
  An error comes with the handles that are open when the process exits. A negative queue size panics
  in \<open>NewServer\<close> (\<open>None\<close>).
\<close>

definition start ::
  "('s, 're, 'db) outside \<Rightarrow> stat \<Rightarrow> surroundings \<Rightarrow> 'db files \<times> time \<Rightarrow> string option \<Rightarrow> time \<Rightarrow> string \<Rightarrow>
     (start_error \<times> heap + ('s, 're, 'db) daemon) option" where
  "start os stat sr w rand clock path =
     (case NewStore (os_loader os) sr path of
        Inl e \<Rightarrow> Some (Inl (ConfigFailed e, empty_heap))
      | Inr store \<Rightarrow> do {
          cfg \<leftarrow> store_Get store;
          case openGeo stat w (Geo cfg) empty_heap of
            (Inl e, h) \<Rightarrow> Some (Inl (GeoFailed e, h))
          | (Inr p, h) \<Rightarrow>
              (let reg = New (os_env os) cfg in
               case NewSalt rand clock (SaltRotate (Server cfg)) of
                 None \<Rightarrow> Some (Inl (SaltFailed, snd (provider_Close (p, h))))
               | Some salt \<Rightarrow> do {
                   srv \<leftarrow> NewServer cfg;
                   Some (Inr \<lparr>dm_store = store, dm_reg = reg, dm_srv = srv, dm_salt = salt, dm_geo = p, dm_heap = h, dm_calls = [], dm_phase = Waiting\<rparr>)
                 })
        })"

section \<open>Housekeeping\<close>

definition maintain_tick ::
  "('s, 're, 'db) outside \<Rightarrow> time \<Rightarrow> string option \<Rightarrow> time \<Rightarrow> ('s, 're, 'db) daemon \<Rightarrow> ('s, 're, 'db) daemon option" where
  "maintain_tick os now rand clock d =
     do {
       reg \<leftarrow> Maintain (os_env os) now (dm_reg d);
       let srv = server_Sweep now (dm_srv d);
       let (due, salt) = RotateIfDue rand clock now (dm_salt d);
       Some (d\<lparr>dm_reg := reg, dm_srv := srv, dm_salt := salt\<rparr>)
     }"

definition signal_load :: "('s, 're, 'db) outside \<Rightarrow> surroundings \<Rightarrow> ('s, 're, 'db) daemon \<Rightarrow> ('s, 're, 'db) daemon" where
  "signal_load os sr d =
     (case Reload (os_loader os) sr (dm_store d) of
        (Some e, store) \<Rightarrow> d\<lparr>dm_store := store\<rparr>
      | (None, store) \<Rightarrow> d\<lparr>dm_store := store, dm_phase := ToConfigure\<rparr>)"

definition signal_configure :: "('s, 're, 'db) outside \<Rightarrow> ('s, 're, 'db) daemon \<Rightarrow> ('s, 're, 'db) daemon option" where
  "signal_configure os d =
     map_option (\<lambda>cfg. d\<lparr>dm_reg := Configure (os_env os) cfg (dm_reg d), dm_phase := ToReopen\<rparr>) (store_Get (dm_store d))"

definition signal_reopen :: "'db files \<times> time \<Rightarrow> ('s, 're, 'db) daemon \<Rightarrow> ('s, 're, 'db) daemon" where
  "signal_reopen w d =
     (let (ok, p, h) = provider_Reload w (dm_geo d, dm_heap d) in d\<lparr>dm_geo := p, dm_heap := h, dm_phase := Waiting\<rparr>)"

text \<open>A signal that nothing interrupts.\<close>

definition reload_signal ::
  "('s, 're, 'db) outside \<Rightarrow> surroundings \<Rightarrow> 'db files \<times> time \<Rightarrow> ('s, 're, 'db) daemon \<Rightarrow> ('s, 're, 'db) daemon option" where
  "reload_signal os sr w d =
     (let d1 = signal_load os sr d in
      if dm_phase d1 = ToConfigure then map_option (signal_reopen w) (signal_configure os d1) else Some d1)"

text \<open>
  The deferred calls of \<open>run\<close>: \<open>srv.Close\<close> has closed the queue and waits for the workers (\<open>None\<close> while
  they are not done); then the provider is closed. Neither waits for \<open>reload\<close>, wherever it is.
\<close>

definition shutdown :: "('s, 're, 'db) daemon \<Rightarrow> ('s, 're, 'db) daemon option" where
  "shutdown d =
     (if pl_closed (dm_queue d) \<and> pl_buf (dm_queue d) = [] \<and> pl_busy (dm_queue d) = [] then
        (let (p, h) = provider_Close (dm_geo d, dm_heap d) in Some (d\<lparr>dm_geo := p, dm_heap := h\<rparr>))
      else None)"

text \<open>
  \<open>serve\<close> reports the error of a listener unless it was shut down; \<open>run\<close> returns on the first
  report or on an interrupt, and \<open>main\<close> exits with 1 on an error.
\<close>

datatype listen_error = ErrServerClosed | ListenError string

datatype stop = ListenerFailed string listen_error | Interrupted

definition serve :: "string \<Rightarrow> listen_error option \<Rightarrow> stop option" where
  "serve name err =
     (case err of None \<Rightarrow> None | Some e \<Rightarrow> if e = ErrServerClosed then None else Some (ListenerFailed name e))"

text \<open>What ends the wait of \<open>run\<close>, and the status the process then exits with.\<close>

definition woken :: "stop \<Rightarrow> bool" where
  "woken why \<longleftrightarrow> (case why of Interrupted \<Rightarrow> True | ListenerFailed name e \<Rightarrow> serve name (Some e) = Some why)"

definition exit_status :: "stop \<Rightarrow> nat" where
  "exit_status why = (case why of Interrupted \<Rightarrow> 0 | ListenerFailed name e \<Rightarrow> 1)"

section \<open>The program\<close>

inductive daemon_step ::
  "('s, 're, 'db) outside \<Rightarrow> ('s, 're, 'db) daemon \<Rightarrow> ('s, 're, 'db) daemon \<Rightarrow> bool" for os where
  request: "store_Get (dm_store d) = Some cfg \<Longrightarrow> timely now \<Longrightarrow>
    handleEvent (os_ingest os) cfg rq now elapsed (dm_srv d) = Some (srv, calls, rs) \<Longrightarrow>
    daemon_step os d (d\<lparr>dm_srv := srv, dm_calls := dm_calls d @ calls\<rparr>)"
| receive: "pl_buf (dm_queue d) = e # rest \<Longrightarrow> length (pl_busy (dm_queue d)) < pl_workers (dm_queue d) \<Longrightarrow>
    daemon_step os d (d\<lparr>dm_srv := (dm_srv d)\<lparr>sv_queue :=
      (dm_queue d)\<lparr>pl_buf := rest, pl_busy := pl_busy (dm_queue d) @ [e]\<rparr>\<rparr>\<rparr>)"
| finish: "pl_busy (dm_queue d) = pre @ e # post \<Longrightarrow>
    worker (os_env os) (os_ingest os) (dm_salt d) (Some (provider_Lookup (os_mmdb os) (dm_geo d, dm_heap d))) clock e
      (dm_reg d, dm_calls d) = Some (reg, calls) \<Longrightarrow>
    daemon_step os d (d\<lparr>dm_reg := reg, dm_calls := calls, dm_srv := (dm_srv d)\<lparr>sv_queue :=
      (dm_queue d)\<lparr>pl_busy := pre @ post, pl_recorded := pl_recorded (dm_queue d) @ [e]\<rparr>\<rparr>\<rparr>)"
| tick: "maintain_tick os now rand clock d = Some d' \<Longrightarrow> daemon_step os d d'"
| load: "dm_phase d = Waiting \<Longrightarrow> daemon_step os d (signal_load os sr d)"
| configure: "dm_phase d = ToConfigure \<Longrightarrow> signal_configure os d = Some d' \<Longrightarrow> daemon_step os d d'"
| reopen: "dm_phase d = ToReopen \<Longrightarrow> daemon_step os d (signal_reopen w d)"
| closing: "\<not> pl_closed (dm_queue d) \<Longrightarrow>
    daemon_step os d (d\<lparr>dm_srv := (dm_srv d)\<lparr>sv_queue := close_pool (dm_queue d)\<rparr>\<rparr>)"

inductive_cases daemon_stepE: "daemon_step os d d'"

abbreviation daemon_steps :: "('s, 're, 'db) outside \<Rightarrow> ('s, 're, 'db) daemon \<Rightarrow> ('s, 're, 'db) daemon \<Rightarrow> bool" where
  "daemon_steps os \<equiv> (daemon_step os)\<^sup>*\<^sup>*"

text \<open>The steps of the workers: those of \<open>daemon_step\<close> that take an event and that finish one.\<close>

inductive worker_step ::
  "('s, 're, 'db) outside \<Rightarrow> ('s, 're, 'db) daemon \<Rightarrow> ('s, 're, 'db) daemon \<Rightarrow> bool" for os where
  take_event: "pl_buf (dm_queue d) = e # rest \<Longrightarrow> length (pl_busy (dm_queue d)) < pl_workers (dm_queue d) \<Longrightarrow>
    worker_step os d (d\<lparr>dm_srv := (dm_srv d)\<lparr>sv_queue :=
      (dm_queue d)\<lparr>pl_buf := rest, pl_busy := pl_busy (dm_queue d) @ [e]\<rparr>\<rparr>\<rparr>)"
| record_event: "pl_busy (dm_queue d) = pre @ e # post \<Longrightarrow>
    worker (os_env os) (os_ingest os) (dm_salt d) (Some (provider_Lookup (os_mmdb os) (dm_geo d, dm_heap d))) clock e
      (dm_reg d, dm_calls d) = Some (reg, calls) \<Longrightarrow>
    worker_step os d (d\<lparr>dm_reg := reg, dm_calls := calls, dm_srv := (dm_srv d)\<lparr>sv_queue :=
      (dm_queue d)\<lparr>pl_busy := pre @ post, pl_recorded := pl_recorded (dm_queue d) @ [e]\<rparr>\<rparr>\<rparr>)"

lemma worker_step_daemon: "worker_step os d d' \<Longrightarrow> daemon_step os d d'"
  by (induction rule: worker_step.induct) (auto intro: daemon_step.receive daemon_step.finish)

text \<open>
  \<open>run\<close> waits, then shuts down, then has returned, and the process lives on until \<open>main\<close> ends it. The
  goroutines step in each stage. \<open>srv.Close\<close> closes the queue when \<open>run\<close> stops waiting. A panic of a
  goroutine ends the process in whatever stage it is, so it is no step.
\<close>

datatype stage = Running | Stopping stop | Returned stop

inductive program_step ::
  "('s, 're, 'db) outside \<Rightarrow> stage \<times> ('s, 're, 'db) daemon \<Rightarrow> stage \<times> ('s, 're, 'db) daemon \<Rightarrow> bool" for os where
  turn: "daemon_step os d d' \<Longrightarrow> pl_closed (dm_queue d') = pl_closed (dm_queue d) \<Longrightarrow> program_step os (st, d) (st, d')"
| stopping: "woken why \<Longrightarrow> \<not> pl_closed (dm_queue d) \<Longrightarrow>
    program_step os (Running, d) (Stopping why, d\<lparr>dm_srv := (dm_srv d)\<lparr>sv_queue := close_pool (dm_queue d)\<rparr>\<rparr>)"
| returning: "shutdown d = Some d' \<Longrightarrow> program_step os (Stopping why, d) (Returned why, d')"

abbreviation program_steps ::
  "('s, 're, 'db) outside \<Rightarrow> stage \<times> ('s, 're, 'db) daemon \<Rightarrow> stage \<times> ('s, 're, 'db) daemon \<Rightarrow> bool" where
  "program_steps os \<equiv> (program_step os)\<^sup>*\<^sup>*"

section \<open>The invariant\<close>

text \<open>How many of the events are pageviews of a site.\<close>

definition pageviews_of :: "string \<Rightarrow> 're raw list \<Rightarrow> nat" where
  "pageviews_of k es = length (filter (\<lambda>e. Domain (ev_site e) = k \<and> p_Name (ev_p e) = ''pageview'') es)"

lemma pageviews_of_simps [simp]:
  "pageviews_of k [] = 0" "pageviews_of k (xs @ ys) = pageviews_of k xs + pageviews_of k ys"
  by (simp_all add: pageviews_of_def)

lemma pageviews_of_size:
  "pageviews_of k es = size (filter_mset (\<lambda>e. Domain (ev_site e) = k \<and> p_Name (ev_p e) = ''pageview'') (mset es))"
  by (simp add: pageviews_of_def flip: mset_filter)

lemma pageviews_of_mset: "mset xs = mset ys \<Longrightarrow> pageviews_of k xs = pageviews_of k ys"
  by (simp add: pageviews_of_size)

abbreviation known_sites :: "('s, 're) registry \<Rightarrow> string set" where
  "known_sites r \<equiv> dom (map_of (rg_sites r))"

abbreviation unknown_calls :: "('s, 're) registry \<Rightarrow> nat" where
  "unknown_calls r \<equiv> tally FIngestEvents ''unknown'' (rg_calls r)"

definition config_ok :: "('s, 're, 'db) outside \<Rightarrow> ('s, 're, 'db) daemon \<Rightarrow> bool" where
  "config_ok os d \<longleftrightarrow>
     (\<exists>cfg c0. store_Get (dm_store d) = Some cfg \<and> finalize (ld_platform (os_loader os)) c0 = Inr cfg \<and>
        (dm_phase d \<noteq> ToConfigure \<longrightarrow> Domain ` set (Sites cfg) \<subseteq> known_sites (dm_reg d)))"

text \<open>The sites the registry knows, and while it waits to be configured those it is about to know.\<close>

definition served :: "('s, 're, 'db) daemon \<Rightarrow> string set" where
  "served d = known_sites (dm_reg d) \<union>
     (if dm_phase d = ToConfigure then (case store_Get (dm_store d) of None \<Rightarrow> {} | Some cfg \<Rightarrow> Domain ` set (Sites cfg)) else {})"

definition events_ok :: "('s, 're, 'db) daemon \<Rightarrow> bool" where
  "events_ok d \<longleftrightarrow> (\<forall>e \<in> set (pl_accepted (dm_queue d)). Domain (ev_site e) \<in> served d \<and> timely (ev_at e))"

text \<open>Each recorded pageview is counted for its site, or as one of an unknown site.\<close>

definition counts_ok :: "('s, 're, 'db) daemon \<Rightarrow> bool" where
  "counts_ok d \<longleftrightarrow>
     (\<forall>k. tally FPageviews k (rg_calls (dm_reg d)) \<le> pageviews_of k (pl_recorded (dm_queue d)) \<and>
        pageviews_of k (pl_recorded (dm_queue d)) \<le> tally FPageviews k (rg_calls (dm_reg d)) + unknown_calls (dm_reg d))"

definition daemon_ok :: "('s, 're, 'db) outside \<Rightarrow> ('s, 're, 'db) daemon \<Rightarrow> bool" where
  "daemon_ok os d \<longleftrightarrow> books (dm_reg d) \<and> pool_ok (dm_queue d) \<and> provider_ok (dm_geo d, dm_heap d) \<and>
     config_ok os d \<and> events_ok d \<and> counts_ok d"

lemma FPageviews_family [simp]: "pageview_family FPageviews"
  by (simp add: pageview_family_def)

lemma finalized_domain:
  assumes "finalize pf c0 = Inr cfg" and "config_Site pf cfg k = Some site"
  shows "Domain site \<in> Domain ` set (Sites cfg)"
proof -
  have "dom (map_of (fold (\<lambda>s. AList.update (Domain s) s) ss m)) = Domain ` set ss \<union> dom (map_of m)"
    for ss and m :: "(string, 'a site) gomap"
    by (induction ss arbitrary: m) (auto simp: update_conv')
  moreover have "cfg_sites cfg = fold (\<lambda>s. AList.update (Domain s) s) (Sites cfg) []"
    using assms(1) unfolding finalize_Inr by auto
  ultimately have "dom (map_of (cfg_sites cfg)) = Domain ` set (Sites cfg)" by simp
  with finalized_lookup [OF assms] show ?thesis by simp
qed

lemma Configure_known: "known_sites (Configure ev cfg r) = known_sites r \<union> Domain ` set (Sites cfg)"
proof -
  have "dom (map_of (fold (configure_site ev) ss m)) = dom (map_of m) \<union> Domain ` set ss" for ss m
    by (induction ss arbitrary: m) (auto simp: configure_site_def update_conv' split: option.split)
  then show ?thesis by (simp add: Configure_def)
qed

lemma Configure_calls [simp]: "rg_calls (Configure ev cfg r) = rg_calls r"
  by (simp add: Configure_def)

text \<open>What a request does to the queue: it accepts at most one event, of a site of the configuration.\<close>

lemma handleEvent_accepts:
  assumes h: "handleEvent ie cfg rq now elapsed s = Some (s', calls, rs)" and c: "finalize (ie_platform ie) c0 = Inr cfg"
  shows "pl_recorded (sv_queue s') = pl_recorded (sv_queue s) \<and>
    (\<exists>new. pl_accepted (sv_queue s') = pl_accepted (sv_queue s) @ new \<and>
       (\<forall>e \<in> set new. Domain (ev_site e) \<in> Domain ` set (Sites cfg) \<and> ev_at e = now))"
proof (cases "rq_Method rq = ''POST''")
  case False
  with h show ?thesis by (auto simp: handleEvent_def split: if_splits)
next
  case True
  from handleEvent_POST [OF this h] obtain calls' where "handle_post ie cfg rq now s = Some (s', calls', rs)" .
  then show ?thesis
  proof (cases rule: handle_post_cases)
    case (sent site p l ok q)
    have "Domain site \<in> Domain ` set (Sites cfg)"
      using sent(1) finalized_domain [OF c] unfolding event_gates_Inr passes_gates_def by blast
    then show ?thesis using sent(4) try_send_room [OF sent(3)] sent(3) by (auto simp: try_send_def split: if_splits)
  qed simp_all
qed

lemma pool_ok_handled:
  "handleEvent ie cfg rq now elapsed s = Some (s', calls, rs) \<Longrightarrow> pool_ok (sv_queue s) \<Longrightarrow> pool_ok (sv_queue s')"
  using handleEvent_pool_step pool_steps_ok by blast

text \<open>What the worker does to the books.\<close>

lemma enriched_kind:
  "o_Kind (fst (enrichEvent ie salt lookup e)) = KindPageview \<longleftrightarrow> p_Name (ev_p e) = ''pageview''"
  "o_Site (fst (enrichEvent ie salt lookup e)) = Domain (ev_site e)" "o_At (fst (enrichEvent ie salt lookup e)) = ev_at e"
  by (simp_all add: enrichEvent_def Let_def base_observation_def pageview_observation_def geo_observation_def
      split: option.split)

lemma worker_books:
  assumes w: "worker ev ie salt lookup clock e (r, calls) = Some (r', calls')" and b: "books r" and t: "timely (ev_at e)"
  shows "books r' \<and> known_sites r' = known_sites r \<and>
    tally FPageviews s (rg_calls r') =
      tally FPageviews s (rg_calls r) + (if Domain (ev_site e) \<in> known_sites r then pageviews_of s [e] else 0) \<and>
    unknown_calls r + (if Domain (ev_site e) \<in> known_sites r then 0 else 1) \<le> unknown_calls r'"
proof -
  let ?ob = "fst (enrichEvent ie salt lookup e)"
  have rec: "Record ev clock ?ob r = Some r'"
    using w by (auto simp: worker_def Let_def case_prod_unfold)
  have "timely (record_time clock ?ob)" using t by (auto simp: record_time_def enriched_kind timely_def zero_time_def)
  note step = books_Record [OF b this rec]
  have "map_of (rg_sites r') j \<noteq> None \<longleftrightarrow> map_of (rg_sites r) j \<noteq> None" for j using step by blast
  then have known: "known_sites r' = known_sites r" by (auto simp: dom_def)
  have expect: "expect ?ob FPageviews s = pageviews_of s [e]"
    using expect_family [of FPageviews ?ob s] enriched_kind [of ie salt lookup e]
    by (simp add: counted_family_def family_kind_def pageviews_of_def)
  have site: "map_of (rg_sites r) (o_Site ?ob) = None \<longleftrightarrow> Domain (ev_site e) \<notin> known_sites r"
    by (auto simp: enriched_kind)
  have "unknown_calls r + (if Domain (ev_site e) \<in> known_sites r then 0 else 1) \<le> unknown_calls r'"
  proof (cases "map_of (rg_sites r) (o_Site ?ob)")
    case None
    then have "rg_calls r' = rg_calls r @ [Inc FIngestEvents [''unknown'', ''unknown_site'']]"
      using rec by (auto simp: Record_def survives_def split: if_splits)
    then show ?thesis by simp
  next
    case (Some st)
    obtain new where "rg_calls r' = rg_calls r @ new" using step by blast
    with Some site show ?thesis by simp
  qed
  with step [of s FPageviews s] known expect site show ?thesis by simp
qed

lemma served_frame [simp]:
  "served (dm_srv_update f d) = served d" "served (dm_calls_update g d) = served d" "served (dm_salt_update h d) = served d"
  by (simp_all add: served_def)

section \<open>Each step keeps the invariant\<close>

lemma request_ok:
  assumes d: "daemon_ok os d" and g: "store_Get (dm_store d) = Some cfg" and t: "timely now"
    and h: "handleEvent (os_ingest os) cfg rq now elapsed (dm_srv d) = Some (srv, calls, rs)"
  shows "daemon_ok os (d\<lparr>dm_srv := srv, dm_calls := calls'\<rparr>)"
proof -
  obtain c0 where c: "finalize (ie_platform (os_ingest os)) c0 = Inr cfg" "Domain ` set (Sites cfg) \<subseteq> served d"
    using d g by (auto simp: daemon_ok_def config_ok_def os_ingest_def served_def)
  obtain new where new: "pl_recorded (sv_queue srv) = pl_recorded (dm_queue d)"
      "pl_accepted (sv_queue srv) = pl_accepted (dm_queue d) @ new"
      "\<forall>e \<in> set new. Domain (ev_site e) \<in> Domain ` set (Sites cfg) \<and> ev_at e = now"
    using handleEvent_accepts [OF h c(1)] by blast
  have "events_ok (d\<lparr>dm_srv := srv, dm_calls := calls'\<rparr>)"
    using d new(2,3) c(2) t unfolding daemon_ok_def events_ok_def by auto
  with d new(1) pool_ok_handled [OF h] show ?thesis
    by (simp add: daemon_ok_def config_ok_def counts_ok_def)
qed

lemma finish_ok:
  assumes d: "daemon_ok os d" and b: "pl_busy (dm_queue d) = pre @ e # post"
    and w: "worker (os_env os) (os_ingest os) salt lookup clock e (dm_reg d, calls0) = Some (reg, calls)"
  shows "daemon_ok os (d\<lparr>dm_reg := reg, dm_calls := calls, dm_srv := (dm_srv d)\<lparr>sv_queue :=
      (dm_queue d)\<lparr>pl_busy := pre @ post, pl_recorded := pl_recorded (dm_queue d) @ [e]\<rparr>\<rparr>\<rparr>)"
    (is "daemon_ok os ?d")
proof -
  have ok: "pool_ok (dm_queue d)" "books (dm_reg d)" "events_ok d" "counts_ok d" "config_ok os d" "provider_ok (dm_geo d, dm_heap d)"
    using d by (simp_all only: daemon_ok_def)
  have q: "pool_ok (dm_queue ?d)"
    using pool_step_ok [OF _ ok(1)] work_step.finish [OF b] by (simp add: pool_step_def)
  have "e \<in># mset (pl_accepted (dm_queue d))" using ok(1) b by (auto simp: pool_ok_def)
  then have "timely (ev_at e)" using ok(3) by (auto simp: events_ok_def)
  note step = worker_books [OF w ok(2) this]
  have "counts_ok ?d"
    unfolding counts_ok_def
  proof
    fix k
    have "pageviews_of k [e] \<le> 1" by (simp add: pageviews_of_def)
    then show "tally FPageviews k (rg_calls (dm_reg ?d)) \<le> pageviews_of k (pl_recorded (dm_queue ?d)) \<and>
        pageviews_of k (pl_recorded (dm_queue ?d)) \<le> tally FPageviews k (rg_calls (dm_reg ?d)) + unknown_calls (dm_reg ?d)"
      using step [of k] spec [OF ok(4) [unfolded counts_ok_def], of k] by (auto split: if_splits)
  qed
  moreover have known: "known_sites (dm_reg ?d) = known_sites (dm_reg d)" using step by simp
  then have "served ?d = served d" by (simp add: served_def)
  then have "events_ok ?d" using ok(3) by (simp add: events_ok_def)
  moreover have "config_ok os ?d" using ok(5) known by (simp add: config_ok_def)
  ultimately show ?thesis using step q ok(6) by (simp add: daemon_ok_def)
qed

lemma maintain_tick_ok:
  assumes d: "daemon_ok os d" and m: "maintain_tick os now rand clock d = Some d'"
  shows "daemon_ok os d'"
proof -
  obtain reg salt where reg: "Maintain (os_env os) now (dm_reg d) = Some reg"
      "d' = d\<lparr>dm_reg := reg, dm_srv := server_Sweep now (dm_srv d), dm_salt := salt\<rparr>"
    using m by (auto simp: maintain_tick_def Let_def split: bind_splits prod.splits)
  have "books (dm_reg d)" using d by (simp add: daemon_ok_def)
  from books_Maintain [OF this reg(1)] have step: "books reg" "known_sites reg = known_sites (dm_reg d)"
      "tally FPageviews k (rg_calls reg) = tally FPageviews k (rg_calls (dm_reg d))"
      "\<exists>new. rg_calls reg = rg_calls (dm_reg d) @ new" for k
    by simp_all
  from step(4) have unknown: "unknown_calls (dm_reg d) \<le> unknown_calls reg" by auto
  have "counts_ok d'"
    using d unknown step(3) unfolding daemon_ok_def counts_ok_def reg(2)
    by (simp add: server_Sweep_def) (meson add_left_mono le_trans)
  moreover have "served d' = served d" by (simp add: reg(2) served_def step(2))
  then have "events_ok d'" using d by (simp add: reg(2) daemon_ok_def events_ok_def server_Sweep_def)
  moreover have "config_ok os d'" using d step(2) by (simp add: reg(2) daemon_ok_def config_ok_def)
  ultimately show ?thesis using d step(1) by (simp add: reg(2) daemon_ok_def server_Sweep_def)
qed

lemma Reload_cases:
  obtains (failed) e where "Reload ld sr st = (Some e, st)"
  | (loaded) cfg where "store_load ld sr st = Inr cfg" "Reload ld sr st = (None, st\<lparr>st_cur := Some cfg\<rparr>)"
  by (cases "store_load ld sr st") (simp_all add: Reload_def)

lemma signal_load_ok:
  assumes d: "daemon_ok os d" and "dm_phase d = Waiting"
  shows "daemon_ok os (signal_load os sr d)"
proof (cases rule: Reload_cases [of "os_loader os" sr "dm_store d"])
  case (failed e)
  with d show ?thesis by (simp add: signal_load_def)
next
  case (loaded cfg)
  let ?d = "d\<lparr>dm_store := dm_store d\<lparr>st_cur := Some cfg\<rparr>, dm_phase := ToConfigure\<rparr>"
  have "\<exists>c0. finalize (ld_platform (os_loader os)) c0 = Inr cfg" by (rule loaded_is_finalized [OF loaded(1)])
  then have "config_ok os ?d" by (simp add: config_ok_def store_Get_def)
  moreover have "served d \<subseteq> served ?d" using assms(2) by (simp add: served_def store_Get_def)
  then have "events_ok ?d" using d by (auto simp: daemon_ok_def events_ok_def)
  moreover have "signal_load os sr d = ?d" using loaded(2) by (simp add: signal_load_def)
  ultimately show ?thesis using d by (simp add: daemon_ok_def counts_ok_def)
qed

lemma signal_configure_ok:
  assumes d: "daemon_ok os d" and "dm_phase d = ToConfigure" and c: "signal_configure os d = Some d'"
  shows "daemon_ok os d'"
proof -
  obtain cfg where cfg: "store_Get (dm_store d) = Some cfg"
      "d' = d\<lparr>dm_reg := Configure (os_env os) cfg (dm_reg d), dm_phase := ToReopen\<rparr>"
    using c by (auto simp: signal_configure_def)
  have "books (dm_reg d)" using d by (simp add: daemon_ok_def)
  from books_Configure [OF this] have "books (dm_reg d')" by (simp add: cfg(2))
  moreover have "config_ok os d'" using d cfg(1) by (simp add: cfg(2) daemon_ok_def config_ok_def Configure_known)
  moreover have "served d' = served d" using assms(2) cfg(1) by (simp add: cfg(2) served_def Configure_known)
  then have "events_ok d'" using d by (simp add: cfg(2) daemon_ok_def events_ok_def)
  ultimately show ?thesis using d by (simp add: cfg(2) daemon_ok_def counts_ok_def)
qed

lemma signal_reopen_ok:
  assumes d: "daemon_ok os d" and "dm_phase d = ToReopen"
  shows "daemon_ok os (signal_reopen w d)"
proof -
  obtain ok p h where geo: "provider_Reload w (dm_geo d, dm_heap d) = (ok, p, h)"
    by (cases "provider_Reload w (dm_geo d, dm_heap d)")
  have "provider_ok (dm_geo d, dm_heap d)" using d by (simp add: daemon_ok_def)
  from gp.reload_ok [OF this, of w] have "provider_ok (p, h)" by (simp add: geo)
  with d assms(2) show ?thesis
    by (simp add: signal_reopen_def geo daemon_ok_def config_ok_def events_ok_def counts_ok_def served_def)
qed

lemma daemon_step_ok: "daemon_step os d d' \<Longrightarrow> daemon_ok os d \<Longrightarrow> daemon_ok os d'"
proof (induction rule: daemon_step.induct)
  case (request d cfg now rq elapsed srv calls rs)
  show ?case by (rule request_ok [OF request.prems request.hyps])
next
  case (receive d e rest)
  have "work_step (dm_queue d) ((dm_queue d)\<lparr>pl_buf := rest, pl_busy := pl_busy (dm_queue d) @ [e]\<rparr>)"
    using receive.hyps by (rule work_step.receive)
  with receive.prems pool_step_ok [of "dm_queue d"] show ?case
    by (simp add: daemon_ok_def config_ok_def events_ok_def counts_ok_def pool_step_def)
next
  case (finish d pre e post clock reg calls)
  show ?case by (rule finish_ok [OF finish.prems finish.hyps])
next
  case (tick now rand clock d d')
  show ?case by (rule maintain_tick_ok [OF tick.prems tick.hyps])
next
  case (load d sr)
  show ?case by (rule signal_load_ok [OF load.prems load.hyps])
next
  case (configure d d')
  show ?case by (rule signal_configure_ok [OF configure.prems configure.hyps])
next
  case (reopen d w)
  show ?case by (rule signal_reopen_ok [OF reopen.prems reopen.hyps])
next
  case (closing d)
  then show ?case
    by (simp add: daemon_ok_def config_ok_def events_ok_def counts_ok_def pool_ok_def close_pool_def)
qed

lemma daemon_steps_ok: "daemon_steps os d d' \<Longrightarrow> daemon_ok os d \<Longrightarrow> daemon_ok os d'"
  by (induction rule: rtranclp_induct) (auto intro: daemon_step_ok)

text \<open>The start establishes it, or leaves no database open.\<close>

lemma New_empty:
  "known_sites (New ev cfg) = Domain ` set (Sites cfg)" "rg_calls (New ev cfg) = []"
  by (simp_all add: New_def Configure_known)

lemma NewStore_loads:
  assumes "NewStore ld sr path = Inr st"
  obtains cfg c0 where "store_Get st = Some cfg" "finalize (ld_platform ld) c0 = Inr cfg"
proof -
  from assms obtain cfg where c: "store_load ld sr \<lparr>st_path = path, st_cur = None\<rparr> = Inr cfg" "st = \<lparr>st_path = path, st_cur = Some cfg\<rparr>"
    by (cases "store_load ld sr \<lparr>st_path = path, st_cur = None\<rparr>") (simp_all add: NewStore_def)
  then show thesis using that loaded_is_finalized [OF c(1)] by (auto simp: store_Get_def)
qed

lemma NewServer_queue:
  "NewServer cfg = Some srv \<Longrightarrow> pool_ok (sv_queue srv) \<and> pl_accepted (sv_queue srv) = [] \<and> pl_recorded (sv_queue srv) = []"
  using new_pool_ok by (fastforce simp: NewServer_def new_pool_def split: option.splits if_splits)

lemma provider_closed:
  assumes "provider_ok s"
  shows "hp_open (snd (provider_Close s)) = []"
proof -
  obtain p h where s: "s = (p, h)" by (cases s)
  show ?thesis
  proof (cases p)
    case (MMDBProvider m)
    obtain m' h' where closed: "mmdb_Close (m, h) = (m', h')" by force
    then have "handles (held m') = {}" by (auto simp: mmdb_Close_def held_def)
    with assms s MMDBProvider mmdb_Close_ok [of "(m, h)"] closed show ?thesis by (simp add: geo_ok_def)
  qed (use assms s in simp)
qed

lemma start_cases:
  assumes "start os stat sr w rand clock path = Some res"
  obtains (stopped) e h where "res = Inl (e, h)" "hp_open h = []"
  | (started) d where "res = Inr d" "daemon_ok os d" "pl_accepted (dm_queue d) = []" "rg_calls (dm_reg d) = []"
proof (cases "NewStore (os_loader os) sr path")
  case (Inl e)
  with assms have "res = Inl (ConfigFailed e, empty_heap)" by (simp add: start_def)
  with stopped show thesis by simp
next
  case (Inr store)
  then obtain cfg c0 where cfg: "store_Get store = Some cfg" "finalize (ld_platform (os_loader os)) c0 = Inr cfg"
    by (rule NewStore_loads)
  obtain opened h where geo: "openGeo stat w (Geo cfg) empty_heap = (opened, h)" by force
  have "heap_ok empty_heap" "hp_open empty_heap = []" by (simp_all add: heap_ok_def)
  note ok = openGeo_ok [OF geo this]
  show thesis
  proof (cases opened)
    case (Inl e)
    with assms geo \<open>NewStore _ _ _ = _\<close> cfg(1) have "res = Inl (GeoFailed e, h)" by (simp add: start_def)
    with ok Inl stopped show thesis by simp
  next
    case (Inr p)
    with ok have p: "provider_ok (p, h)" by simp
    show thesis
    proof (cases "NewSalt rand clock (SaltRotate (Server cfg))")
      case None
      with assms geo Inr \<open>NewStore _ _ _ = _\<close> cfg(1) have "res = Inl (SaltFailed, snd (provider_Close (p, h)))"
        by (simp add: start_def)
      with provider_closed [OF p] stopped show thesis by simp
    next
      case (Some salt)
      with assms geo Inr \<open>NewStore _ _ _ = _\<close> cfg(1) obtain srv where d: "NewServer cfg = Some srv"
          "res = Inr \<lparr>dm_store = store, dm_reg = New (os_env os) cfg, dm_srv = srv, dm_salt = salt, dm_geo = p, dm_heap = h, dm_calls = [], dm_phase = Waiting\<rparr>"
        by (auto simp: start_def Let_def split: bind_splits)
      let ?d = "\<lparr>dm_store = store, dm_reg = New (os_env os) cfg, dm_srv = srv, dm_salt = salt, dm_geo = p, dm_heap = h, dm_calls = [], dm_phase = Waiting\<rparr>"
      have "config_ok os ?d" using cfg by (auto simp: config_ok_def New_empty)
      with p NewServer_queue [OF d(1)] books_New [of "os_env os" cfg] have "daemon_ok os ?d"
        by (simp add: daemon_ok_def events_ok_def counts_ok_def New_empty tally_def)
      then show thesis using started [OF d(2)] NewServer_queue [OF d(1)] by (simp add: New_empty)
    qed
  qed
qed

section \<open>What the invariant gives\<close>

abbreviation waiting :: "('s, 're, 'db) daemon \<Rightarrow> 're raw list" where
  "waiting d \<equiv> pl_buf (dm_queue d) @ pl_busy (dm_queue d)"

lemma counts_conserved:
  assumes "daemon_ok os d"
  shows "tally FPageviews k (rg_calls (dm_reg d)) + pageviews_of k (waiting d) \<le> pageviews_of k (pl_accepted (dm_queue d))"
    "pageviews_of k (pl_accepted (dm_queue d)) \<le>
      tally FPageviews k (rg_calls (dm_reg d)) + pageviews_of k (waiting d) + unknown_calls (dm_reg d)"
proof -
  have "mset (pl_accepted (dm_queue d)) = mset (pl_buf (dm_queue d) @ pl_busy (dm_queue d) @ pl_recorded (dm_queue d))"
    using assms by (simp add: daemon_ok_def pool_ok_def)
  from pageviews_of_mset [OF this] have "pageviews_of k (pl_accepted (dm_queue d)) =
      pageviews_of k (waiting d) + pageviews_of k (pl_recorded (dm_queue d))" by simp
  moreover have "counts_ok d" using assms by (simp only: daemon_ok_def)
  ultimately show "tally FPageviews k (rg_calls (dm_reg d)) + pageviews_of k (waiting d) \<le> pageviews_of k (pl_accepted (dm_queue d))"
    "pageviews_of k (pl_accepted (dm_queue d)) \<le>
      tally FPageviews k (rg_calls (dm_reg d)) + pageviews_of k (waiting d) + unknown_calls (dm_reg d)"
    by (simp_all add: counts_ok_def)
qed

text \<open>Once the registry is configured it knows the sites of all events.\<close>

lemma waiting_known:
  assumes "daemon_ok os d" and "dm_phase d \<noteq> ToConfigure" and "e \<in> set (waiting d)"
  shows "Domain (ev_site e) \<in> known_sites (dm_reg d)"
proof -
  have "mset (pl_accepted (dm_queue d)) = mset (pl_buf (dm_queue d) @ pl_busy (dm_queue d) @ pl_recorded (dm_queue d))"
    using assms(1) by (simp add: daemon_ok_def pool_ok_def)
  from mset_eq_setD [OF this] have "e \<in> set (pl_accepted (dm_queue d))" using assms(3) by auto
  moreover have "events_ok d" using assms(1) by (simp only: daemon_ok_def)
  ultimately show ?thesis using assms(2) by (simp add: events_ok_def served_def)
qed

text \<open>With a client that takes every call a worker ends whatever event it took.\<close>

lemma worker_total:
  assumes "\<forall>c. ev_accepts ev c" and "books r" and "timely (ev_at e)"
  shows "\<exists>r' calls'. worker ev ie salt lookup (ev_at e) e (r, calls) = Some (r', calls')"
proof -
  obtain ob cs where ob: "enrichEvent ie salt lookup e = (ob, cs)" by force
  have "timely (record_time (ev_at e) ob)"
    using assms(3) enriched_kind(3) [of ie salt lookup e] by (auto simp: ob record_time_def)
  moreover have "reg_inv r" using assms(2) by (simp add: books_def)
  ultimately obtain r' where "Record ev (ev_at e) ob r = Some r'"
    using reg_run_total [of ev r "[ORecord (ev_at e) ob]"] assms(1) by (auto split: bind_splits)
  then show ?thesis by (simp add: worker_def ob)
qed

abbreviation work_due :: "('s, 're, 'db) daemon \<Rightarrow> nat" where
  "work_due d \<equiv> 2 * length (pl_buf (dm_queue d)) + length (pl_busy (dm_queue d))"

section \<open>The end\<close>

lemma worker_step_drains:
  "worker_step os d d' \<Longrightarrow> work_due d = Suc (work_due d') \<and> pl_closed (dm_queue d') = pl_closed (dm_queue d) \<and>
     pl_accepted (dm_queue d') = pl_accepted (dm_queue d)"
  by (induction rule: worker_step.induct) simp_all

lemma worker_steps_drain:
  "(worker_step os ^^ n) d d' \<Longrightarrow> daemon_steps os d d' \<and> n + work_due d' = work_due d \<and>
     pl_closed (dm_queue d') = pl_closed (dm_queue d) \<and> pl_accepted (dm_queue d') = pl_accepted (dm_queue d)"
proof (induction n arbitrary: d')
  case (Suc n)
  then obtain d1 where d1: "(worker_step os ^^ n) d d1" "worker_step os d1 d'" by auto
  from Suc.IH [OF d1(1)] worker_step_drains [OF d1(2)] worker_step_daemon [OF d1(2)] show ?case
    by (auto intro: rtranclp.rtrancl_into_rtrancl)
qed simp

lemma worker_never_stuck:
  assumes d: "daemon_ok os d" and "\<forall>c. ev_accepts (os_env os) c" and due: "work_due d \<noteq> 0"
  shows "\<exists>d'. worker_step os d d'"
proof (cases "pl_busy (dm_queue d)")
  case Nil
  with due obtain e rest where buf: "pl_buf (dm_queue d) = e # rest" by (cases "pl_buf (dm_queue d)") simp_all
  have "length (pl_busy (dm_queue d)) < pl_workers (dm_queue d)" using d Nil by (simp add: daemon_ok_def pool_ok_def)
  from worker_step.take_event [OF buf this] show ?thesis by blast
next
  case (Cons e post)
  have ok: "pool_ok (dm_queue d)" "books (dm_reg d)" "events_ok d" using d by (simp_all only: daemon_ok_def)
  have "e \<in># mset (pl_accepted (dm_queue d))" using ok(1) Cons by (simp add: pool_ok_def)
  then have "timely (ev_at e)" using ok(3) by (auto simp: events_ok_def)
  from worker_total [OF assms(2) ok(2) this] obtain r' calls' where
    w: "worker (os_env os) (os_ingest os) (dm_salt d) (Some (provider_Lookup (os_mmdb os) (dm_geo d, dm_heap d)))
        (ev_at e) e (dm_reg d, dm_calls d) = Some (r', calls')" by blast
  have "pl_busy (dm_queue d) = [] @ e # post" using Cons by simp
  from worker_step.record_event [OF this w] show ?thesis by blast
qed

lemma shutdown_iff: "pl_closed (dm_queue d) \<Longrightarrow> shutdown d \<noteq> None \<longleftrightarrow> work_due d = 0"
  by (simp add: shutdown_def case_prod_unfold Let_def)

text \<open>A closed queue takes nothing, so it only gets shorter.\<close>

lemma closed_request:
  assumes h: "handleEvent ie cfg rq now elapsed s = Some (s', calls, rs)" and "pl_closed (sv_queue s)"
  shows "sv_queue s' = sv_queue s"
proof (cases "rq_Method rq = ''POST''")
  case False
  with h show ?thesis by (auto simp: handleEvent_def split: if_splits)
next
  case True
  from handleEvent_POST [OF this h] obtain calls' where "handle_post ie cfg rq now s = Some (s', calls', rs)" .
  then show ?thesis
  proof (cases rule: handle_post_cases)
    case (sent site p l ok q)
    with assms(2) show ?thesis by (simp add: try_send_def)
  qed simp_all
qed

lemma closed_step:
  assumes "daemon_step os d d'" and "pl_closed (dm_queue d)"
  shows "pl_closed (dm_queue d') \<and> pl_accepted (dm_queue d') = pl_accepted (dm_queue d) \<and> work_due d' \<le> work_due d"
  using assms
proof (induction rule: daemon_step.induct)
  case (request d cfg now rq elapsed srv calls rs)
  from closed_request [OF request.hyps(3) request.prems] request.prems show ?case by simp
next
  case (tick now rand clock d d')
  then show ?case by (auto simp: maintain_tick_def Let_def server_Sweep_def split: bind_splits prod.splits)
qed (auto simp: signal_load_def signal_configure_def signal_reopen_def Let_def split: prod.splits option.splits)

text \<open>Only the last part of a signal touches the databases.\<close>

lemma handles_kept:
  "daemon_step os d d' \<Longrightarrow> dm_heap d' = dm_heap d \<or> (\<exists>w. dm_phase d = ToReopen \<and> d' = signal_reopen w d)"
  by (induction rule: daemon_step.induct)
    (auto simp: maintain_tick_def signal_load_def signal_configure_def Let_def split: bind_splits prod.splits option.splits)

lemma shutdown_result:
  assumes ok: "daemon_ok os d" and s: "shutdown d = Some d'"
  shows "daemon_ok os d' \<and> hp_open (dm_heap d') = [] \<and> (\<forall>lib ip. provider_Lookup lib (dm_geo d', dm_heap d') ip = no_geo) \<and>
    dm_srv d' = dm_srv d \<and> pl_closed (dm_queue d) \<and> work_due d = 0"
proof -
  obtain p h where closed: "provider_Close (dm_geo d, dm_heap d) = (p, h)"
    by (cases "provider_Close (dm_geo d, dm_heap d)")
  with s have e: "d' = d\<lparr>dm_geo := p, dm_heap := h\<rparr>" "pl_closed (dm_queue d)" "work_due d = 0"
    by (simp_all add: shutdown_def split: if_splits)
  have p: "provider_ok (dm_geo d, dm_heap d)" using ok by (simp add: daemon_ok_def)
  from gp.close_ok [OF p] closed have "provider_ok (p, h)" by simp
  moreover have "served d' = served d" by (simp add: served_def e(1))
  ultimately have "daemon_ok os d'"
    using ok by (simp add: e(1) daemon_ok_def config_ok_def events_ok_def counts_ok_def)
  with provider_closed [OF p] gp.closed [of _ "(dm_geo d, dm_heap d)"] closed e show ?thesis by simp
qed

text \<open>What holds in every stage.\<close>

fun program_ok :: "('s, 're, 'db) outside \<Rightarrow> stage \<times> ('s, 're, 'db) daemon \<Rightarrow> bool" where
  "program_ok os (Running, d) = daemon_ok os d"
| "program_ok os (Stopping why, d) = (daemon_ok os d \<and> woken why \<and> pl_closed (dm_queue d))"
| "program_ok os (Returned why, d) = (daemon_ok os d \<and> woken why \<and> pl_closed (dm_queue d) \<and> work_due d = 0)"

lemma program_step_ok: "program_step os x y \<Longrightarrow> program_ok os x \<Longrightarrow> program_ok os y"
proof (induction rule: program_step.induct)
  case (turn d d' st)
  from daemon_step_ok [OF turn(1)] closed_step [OF turn(1)] turn(2,3) show ?case by (cases st) auto
next
  case (stopping why d)
  from daemon_step_ok [OF daemon_step.closing [OF stopping(2)]] stopping(1,3) show ?case
    by (simp add: close_pool_def)
next
  case (returning d d' why)
  from returning(2) have "daemon_ok os d" "woken why" by simp_all
  with shutdown_result [OF _ returning(1)] show ?case by auto
qed

lemma program_steps_ok: "program_steps os x y \<Longrightarrow> program_ok os x \<Longrightarrow> program_ok os y"
  by (induction rule: rtranclp_induct) (auto intro: program_step_ok)

lemma daemon_turns:
  assumes "daemon_steps os d d'" and "pl_closed (dm_queue d)"
  shows "program_steps os (st, d) (st, d')"
proof -
  have "program_steps os (st, d) (st, d') \<and> pl_closed (dm_queue d')"
    using assms
  proof (induction rule: rtranclp_induct)
    case (step d1 d2)
    then have s: "program_steps os (st, d) (st, d1)" "pl_closed (dm_queue d1)" by simp_all
    from closed_step [OF step(2) s(2)] have "pl_closed (dm_queue d2)" by simp
    with s step(2) show ?case by (auto intro: rtranclp.rtrancl_into_rtrancl program_step.turn)
  qed simp
  then show ?thesis ..
qed

text \<open>After the return no handle is open, unless a signal that was under way has opened the databases again.\<close>

lemma open_after_return:
  assumes "program_steps os x y" and "x = (Running, d0)" and "program_ok os x" and "y = (Returned why, d)"
  shows "hp_open (dm_heap d) = [] \<or>
    (\<exists>d1 w. program_steps os x (Returned why, d1) \<and> dm_phase d1 = ToReopen \<and>
       program_steps os (Returned why, signal_reopen w d1) y)"
  using assms
proof (induction arbitrary: d rule: rtranclp_induct)
  case (step y z)
  have ok: "program_ok os y" using program_steps_ok [OF step(1) step.prems(2)] .
  from step(2) show ?case
  proof (cases rule: program_step.cases)
    case (turn d1 d2 st)
    then have y: "y = (Returned why, d1)" "daemon_step os d1 d" using step.prems(3) by simp_all
    from step.IH [OF step.prems(1,2) y(1)] handles_kept [OF y(2)] show ?thesis
      using step(1,2) y(1) step.prems(3) by (metis rtranclp.rtrancl_into_rtrancl rtranclp.rtrancl_refl)
  next
    case (returning d1 d2 why')
    then have "daemon_ok os d1" "shutdown d1 = Some d" using ok step.prems(3) by simp_all
    from shutdown_result [OF this] show ?thesis by simp
  qed (use step.prems in simp)
qed simp

end
