(* ===== verification/Daemon_Runs.thy ===== *)
theory Daemon_Runs
  imports Daemon
begin

text \<open>
  What holds along every run of the daemon, from the invariant of \<open>Daemon\<close>: every accepted pageview is
  counted or reported, every exit is clean but for a signal under way, the workers drain a closed queue, a signal
  never takes the daemon down. Then
  a run on an installation with one site, which the witnesses use, and the run in which a reload loses a
  pageview.
\<close>

section \<open>Properties\<close>

text \<open>
  C4: Every accepted pageview is counted once, or reported. From a successful start, in any interleaving
  of requests, workers, minute ticks, the parts of signals with any new configuration, and the close of the
  queue: no site has more pageviews counted than were accepted for it and have left the queue, and any
  that are missing have been counted as events of an unknown site. This can only happen between the two
  halves of a reload: at every other moment the registry knows the site of every event that waits.
\<close>

theorem accepted_pageviews_counted:
  assumes "start os stat sr w rand clock path = Some (Inr d0)" and "daemon_steps os d0 d"
  shows "tally FPageviews k (rg_calls (dm_reg d)) + pageviews_of k (waiting d) \<le> pageviews_of k (pl_accepted (dm_queue d)) \<and>
    pageviews_of k (pl_accepted (dm_queue d)) \<le>
      tally FPageviews k (rg_calls (dm_reg d)) + pageviews_of k (waiting d) + unknown_calls (dm_reg d) \<and>
    (dm_phase d \<noteq> ToConfigure \<longrightarrow> (\<forall>e \<in> set (waiting d). Domain (ev_site e) \<in> known_sites (dm_reg d)))"
proof -
  from assms(1) have "daemon_ok os d0" by (cases rule: start_cases) simp_all
  with assms(2) have "daemon_ok os d" by (rule daemon_steps_ok)
  then show ?thesis using counts_conserved [of os d k] waiting_known by blast
qed


text \<open>
  C39: The workers bring the end about by themselves. Take any reachable state whose queue is closed, and a
  client that takes every call. Every step of a worker, whatever the schedule, brings the end one nearer: after
  any \<open>n\<close> of them \<open>n\<close> of the work is done, where each buffered event is worth two and each event in work
  one. As long as any is left some worker can step, and as soon as none is left \<open>run\<close> returns, without a step of
  anything else. And no step of the rest of the daemon (requests, ticks, signals) makes the work more or opens
  the queue again, so it cannot keep the workers from ending.
\<close>

theorem shutdown_completes:
  assumes "start os stat sr w rand clock path = Some (Inr d0)" and "daemon_steps os d0 d"
    and "\<forall>c. ev_accepts (os_env os) c" and "pl_closed (dm_queue d)"
  shows "(\<forall>n d'. (worker_step os ^^ n) d d' \<longrightarrow>
      n + work_due d' = work_due d \<and> pl_accepted (dm_queue d') = pl_accepted (dm_queue d) \<and>
      (if work_due d' = 0 then shutdown d' \<noteq> None else (\<exists>d''. worker_step os d' d''))) \<and>
    (\<forall>d'. daemon_step os d d' \<longrightarrow> work_due d' \<le> work_due d \<and> pl_closed (dm_queue d'))"
proof -
  from assms(1) have "daemon_ok os d0" by (cases rule: start_cases) simp_all
  with assms(2) have ok: "daemon_ok os d" by (rule daemon_steps_ok)
  have "n + work_due d' = work_due d \<and> pl_accepted (dm_queue d') = pl_accepted (dm_queue d) \<and>
      (if work_due d' = 0 then shutdown d' \<noteq> None else (\<exists>d''. worker_step os d' d''))"
    if run: "(worker_step os ^^ n) d d'" for n d'
  proof -
    note drained = worker_steps_drain [OF run]
    then have "pl_closed (dm_queue d')" "daemon_ok os d'" using assms(4) ok daemon_steps_ok by auto
    with drained show ?thesis using shutdown_iff [of d'] worker_never_stuck [OF _ assms(3), of d'] by simp
  qed
  with closed_step [OF _ assms(4)] show ?thesis by blast
qed

text \<open>
  C35: A signal never takes the daemon down. In any reachable state with no signal in progress it has a
  result, which is reachable in turn. A configuration that does not load leaves the daemon exactly as it was;
  one that loads is served from then on, the registry knows all its sites and all it knew before, and no
  count changes, also when the databases do not open again, in which case every lookup answers as before.
\<close>

theorem signal_keeps_the_daemon_up:
  assumes "start os stat sr w rand clock path = Some (Inr d0)" and "daemon_steps os d0 d" and "dm_phase d = Waiting"
  shows "case store_load (os_loader os) sr' (dm_store d) of
      Inl e \<Rightarrow> reload_signal os sr' w' d = Some d
    | Inr cfg \<Rightarrow> (\<exists>d'. reload_signal os sr' w' d = Some d' \<and> daemon_steps os d d' \<and> store_Get (dm_store d') = Some cfg \<and>
        dom (map_of (rg_sites (dm_reg d'))) = dom (map_of (rg_sites (dm_reg d))) \<union> Domain ` set (Sites cfg) \<and>
        rg_calls (dm_reg d') = rg_calls (dm_reg d) \<and> dm_calls d' = dm_calls d \<and> dm_srv d' = dm_srv d \<and>
        (\<not> fst (provider_Reload w' (dm_geo d, dm_heap d)) \<longrightarrow>
           provider_Lookup lib (dm_geo d', dm_heap d') = provider_Lookup lib (dm_geo d, dm_heap d)))"
proof (cases rule: Reload_cases [of "os_loader os" sr' "dm_store d"])
  case (failed e)
  then have "store_load (os_loader os) sr' (dm_store d) = Inl e"
    by (simp add: Reload_def split: sum.splits)
  with failed assms(3) show ?thesis by (simp add: reload_signal_def signal_load_def)
next
  case (loaded cfg)
  obtain ok p h where geo: "provider_Reload w' (dm_geo d, dm_heap d) = (ok, p, h)"
    by (cases "provider_Reload w' (dm_geo d, dm_heap d)")
  define d1 where "d1 = d\<lparr>dm_store := dm_store d\<lparr>st_cur := Some cfg\<rparr>, dm_phase := ToConfigure\<rparr>"
  define d2 where "d2 = d1\<lparr>dm_reg := Configure (os_env os) cfg (dm_reg d1), dm_phase := ToReopen\<rparr>"
  define d3 where "d3 = d2\<lparr>dm_geo := p, dm_heap := h, dm_phase := Waiting\<rparr>"
  have parts: "signal_load os sr' d = d1" "signal_configure os d1 = Some d2" "signal_reopen w' d2 = d3"
    using loaded(2) geo by (simp_all add: signal_load_def signal_configure_def signal_reopen_def store_Get_def d1_def d2_def d3_def)
  have "daemon_step os d d1" using daemon_step.load [OF assms(3), of os sr'] by (simp add: parts)
  moreover have "daemon_step os d1 d2" by (rule daemon_step.configure [OF _ parts(2)]) (simp add: d1_def)
  moreover have "dm_phase d2 = ToReopen" by (simp add: d2_def)
  from daemon_step.reopen [OF this, of os w'] have "daemon_step os d2 d3" unfolding parts .
  ultimately have run: "daemon_steps os d d3" by (meson converse_rtranclp_into_rtranclp rtranclp.rtrancl_refl)
  have "reload_signal os sr' w' d = Some d3"
    by (simp add: reload_signal_def parts) (simp add: d1_def)
  moreover have "\<not> ok \<longrightarrow> provider_Lookup lib (p, h) = provider_Lookup lib (dm_geo d, dm_heap d)"
  proof -
    from assms(1) have "daemon_ok os d0" by (cases rule: start_cases) simp_all
    with assms(2) have "daemon_ok os d" by (rule daemon_steps_ok)
    then show ?thesis
      using gp.failed_reload [of "(dm_geo d, dm_heap d)" w' lib] geo by (simp add: daemon_ok_def)
  qed
  moreover have "store_Get (dm_store d3) = Some cfg" by (simp add: d3_def d2_def d1_def store_Get_def)
  ultimately show ?thesis
    using run loaded(1) geo by (simp add: d3_def d2_def d1_def Configure_known)
qed

section \<open>A run\<close>

text \<open>An installation with one site and a mounted database. One visitor sends one pageview.\<close>

definition example_outside :: "(u64 set, string, string) outside" where
  "example_outside = \<lparr>os_env = Registry_Counts.example_env, os_loader = toy_loader,
     os_mmdb = \<lparr>ml_city = (\<lambda>_ _. None), ml_country = (\<lambda>_ _. None), ml_asn = (\<lambda>_ _. None)\<rparr>, os_strict = (\<lambda>_. True)\<rparr>"

abbreviation mounted :: string where
  "mounted \<equiv> ''/var/lib/ridiculytics/GeoLite2-ASN.mmdb''"

definition example_start :: "(start_error \<times> heap + (u64 set, string, string) daemon) option" where
  "example_start = start example_outside (\<lambda>p. if p = mounted then Some False else None) (toy_surroundings ''ok'')
     ((\<lambda>p. if p = mounted then Some (Some ''asn'') else None), 1) (Some ''seed'') 2 ''sites.yaml''"

definition example_daemon :: "(u64 set, string, string) daemon" where
  "example_daemon =
     \<lparr>dm_store = \<lparr>st_path = ''sites.yaml'', st_cur = Some example_running\<rparr>,
      dm_reg = New Registry_Counts.example_env example_running,
      dm_srv = \<lparr>sv_limiter = NewLimiter 600 200000, sv_queue = \<lparr>pl_cap = 8192, pl_workers = 4, pl_buf = [], pl_busy = [],
        pl_closed = False, pl_accepted = [], pl_recorded = []\<rparr>\<rparr>,
      dm_salt = \<lparr>sl_cur = ''seed'', sl_rotated = 2, sl_interval = 24 * hour_ns\<rparr>,
      dm_geo = MMDBProvider \<lparr>mm_cityPath = [], mm_countryPath = [], mm_asnPath = mounted, mm_city = None, mm_country = None,
        mm_asn = Some \<lparr>rd_handle = 0, rd_db = ''asn''\<rparr>, mm_loaded = 1\<rparr>,
      dm_heap = \<lparr>hp_next = 1, hp_open = [0]\<rparr>, dm_calls = [], dm_phase = Waiting\<rparr>"

lemma toy_loads:
  assumes "p \<noteq> []" and "content \<noteq> ''broken''"
  shows "store_load toy_loader (toy_surroundings content) \<lparr>st_path = p, st_cur = x\<rparr> = Inr example_running"
proof -
  have "finalize plain_platform (newConfig\<lparr>Sites := [example_site]\<rparr>) = Inr example_running"
    using example_finalized by (simp add: example_config_def)
  with assms show ?thesis
    by (simp add: store_load_def Load_def toy_loader_def toy_surroundings_def applyEnv_unset)
qed

lemma example_geo:
  "openGeo (\<lambda>p. if p = mounted then Some False else None) ((\<lambda>p. if p = mounted then Some (Some ''asn'') else None), 1)
     (Geo example_running) empty_heap = (Inr (dm_geo example_daemon), dm_heap example_daemon)"
proof -
  have "discoverGeo (\<lambda>p. if p = mounted then Some False else None) geoSearchDirs = ([], [], mounted)"
    by code_simp
  then show ?thesis
    by (simp add: openGeo_def example_config_def newConfig_def mmdb_Open_def mmdb_Reload_def open_all_def open_db_def
      swap_def held_def closeAll_def example_daemon_def)
qed

lemma example_started: "example_start = Some (Inr example_daemon)"
proof -
  have "NewStore toy_loader (toy_surroundings ''ok'') ''sites.yaml'' = Inr (dm_store example_daemon)"
    using toy_loads [of "''sites.yaml''" "''ok''" None] by (simp add: NewStore_def example_daemon_def)
  moreover have "store_Get (dm_store example_daemon) = Some example_running"
    by (simp add: store_Get_def example_daemon_def)
  moreover have "NewServer example_running = Some (dm_srv example_daemon)"
    by (simp add: NewServer_def new_pool_def example_config_def newConfig_def example_daemon_def)
  moreover have "NewSalt (Some ''seed'') 2 (SaltRotate (Server example_running)) = Some (dm_salt example_daemon)"
    by (simp add: NewSalt_def Rotate_def example_config_def newConfig_def example_daemon_def)
  ultimately show ?thesis
    using example_geo by (simp add: example_start_def start_def example_outside_def) (simp add: example_daemon_def)
qed

lemma example_queued:
  "\<exists>srv calls rs e. handleEvent (os_ingest example_outside) example_running example_request 7 3 (dm_srv example_daemon) =
       Some (srv, calls, rs) \<and>
     pl_buf (sv_queue srv) = [e] \<and> pl_busy (sv_queue srv) = [] \<and> pl_workers (sv_queue srv) = 4 \<and>
     pl_accepted (sv_queue srv) = [e] \<and> Domain (ev_site e) = ''example.org'' \<and> p_Name (ev_p e) = ''pageview'' \<and> ev_at e = 7"
proof -
  have ie: "os_ingest example_outside = Handler.example_env"
    by (simp add: os_ingest_def example_outside_def toy_loader_def Handler.example_env_def)
  have "(case event_gates Handler.example_env example_running example_request of
      Inl _ \<Rightarrow> [] | Inr (site, p) \<Rightarrow> [Domain site, p_Name p]) = [''example.org'', ''pageview'']"
    by code_simp
  then obtain site p where gates: "event_gates Handler.example_env example_running example_request = Inr (site, p)"
      "Domain site = ''example.org''" "p_Name p = ''pageview''"
    by (auto split: sum.splits)
  let ?key = "rateKey (ClientIP example_request (TrustProxy (Server example_running)))"
  have "fst (Allow ?key 7 (sv_limiter (dm_srv example_daemon)))"
    by (simp add: Allow_def example_daemon_def NewLimiter_def)
  moreover have "rq_Method example_request = ''POST''" by (simp add: example_request_def)
  ultimately show ?thesis
    unfolding ie handleEvent_def handle_post_def Let_def gates(1)
    by (simp add: gates(2,3) enqueue_def try_send_def case_prod_unfold) (simp add: example_daemon_def gates(2,3))
qed

text \<open>The event queued, taken by a worker and recorded.\<close>

lemma example_run_steps:
  "\<exists>d. daemon_steps example_outside example_daemon d \<and> pl_buf (dm_queue d) = [] \<and> pl_busy (dm_queue d) = [] \<and>
     pageviews_of ''example.org'' (pl_accepted (dm_queue d)) = 1"
proof -
  let ?os = example_outside
  obtain srv calls rs e where h: "handleEvent (os_ingest ?os) example_running example_request 7 3 (dm_srv example_daemon) =
       Some (srv, calls, rs)"
    and q: "pl_buf (sv_queue srv) = [e]" "pl_busy (sv_queue srv) = []" "pl_workers (sv_queue srv) = 4" "pl_accepted (sv_queue srv) = [e]"
    and e: "Domain (ev_site e) = ''example.org''" "p_Name (ev_p e) = ''pageview''" "ev_at e = 7"
    using example_queued by blast
  define d1 where "d1 = example_daemon\<lparr>dm_srv := srv, dm_calls := dm_calls example_daemon @ calls\<rparr>"
  define d2 where "d2 = d1\<lparr>dm_srv := (dm_srv d1)\<lparr>sv_queue := (dm_queue d1)\<lparr>pl_buf := [], pl_busy := pl_busy (dm_queue d1) @ [e]\<rparr>\<rparr>\<rparr>"
  have "store_Get (dm_store example_daemon) = Some example_running" by (simp add: example_daemon_def store_Get_def)
  from daemon_step.request [OF this _ h] have 1: "daemon_step ?os example_daemon d1"
    by (simp add: d1_def timely_def)
  have 2: "daemon_step ?os d1 d2"
    unfolding d2_def by (rule daemon_step.receive) (simp_all add: d1_def q)
  let ?lookup = "Some (provider_Lookup (os_mmdb ?os) (dm_geo d2, dm_heap d2))"
  obtain ob cs where ob: "enrichEvent (os_ingest ?os) (dm_salt d2) ?lookup e = (ob, cs)" by force
  have reg: "dm_reg d2 = New (os_env ?os) example_running" and total: "ev_accepts (os_env ?os) c" for c
    by (simp_all add: d2_def d1_def example_daemon_def example_outside_def Registry_Counts.example_env_def)
  have "timely (record_time 9 ob)"
    using enriched_kind(3) [of "os_ingest ?os" "dm_salt d2" ?lookup e] ob e(3)
    by (simp add: record_time_def timely_def)
  then obtain reg where "Record (os_env ?os) 9 ob (dm_reg d2) = Some reg"
    using reg_run_total [OF total New_ok [of "os_env ?os" example_running], of "[ORecord 9 ob]"] by (auto simp: reg split: bind_splits)
  then have w: "worker (os_env ?os) (os_ingest ?os) (dm_salt d2) ?lookup 9 e (dm_reg d2, dm_calls d2) = Some (reg, dm_calls d2 @ cs)"
    by (simp add: worker_def ob)
  have "pl_busy (dm_queue d2) = [] @ e # []" by (simp add: d2_def d1_def q)
  from daemon_step.finish [OF this w]
  obtain d where d: "daemon_step ?os d2 d" "pl_buf (dm_queue d) = []" "pl_busy (dm_queue d) = []"
      "pl_accepted (dm_queue d) = [e]"
    by (auto simp: d2_def d1_def q)
  from 1 2 d(1) have "daemon_steps ?os example_daemon d" by (meson converse_rtranclp_into_rtranclp rtranclp.rtrancl_refl)
  moreover have "pageviews_of ''example.org'' [e] = 1" by (simp add: pageviews_of_def e)
  ultimately show ?thesis using d by (intro exI [of _ d]) simp
qed

theorem accepted_pageviews_counted_witness:
  "\<exists>d. daemon_steps example_outside example_daemon d \<and> waiting d = [] \<and>
     tally FPageviews ''example.org'' (rg_calls (dm_reg d)) + unknown_calls (dm_reg d) \<ge> 1"
proof -
  obtain d where d: "daemon_steps example_outside example_daemon d" "pl_buf (dm_queue d) = []" "pl_busy (dm_queue d) = []"
      "pageviews_of ''example.org'' (pl_accepted (dm_queue d)) = 1"
    using example_run_steps by blast
  from accepted_pageviews_counted [OF example_started [unfolded example_start_def] d(1), of "''example.org''"] d show ?thesis
    by fastforce
qed

definition example_closed :: "(u64 set, string, string) daemon" where
  "example_closed = example_daemon\<lparr>dm_srv := (dm_srv example_daemon)\<lparr>sv_queue := close_pool (dm_queue example_daemon)\<rparr>\<rparr>"

lemma example_closing: "daemon_steps example_outside example_daemon example_closed"
proof -
  have "\<not> pl_closed (dm_queue example_daemon)" by (simp add: example_daemon_def)
  from daemon_step.closing [OF this] show ?thesis unfolding example_closed_def by blast
qed




text \<open>
  A signal has been loaded and configured when the process is interrupted. \<open>run\<close> closes the provider and
  returns, then the signal opens the database again.
\<close>

theorem reload_reopens_after_close:
  "\<exists>d d'. program_steps example_outside (Running, example_daemon) (Returned Interrupted, d) \<and> hp_open (dm_heap d) = [] \<and>
     program_step example_outside (Returned Interrupted, d) (Returned Interrupted, d') \<and> hp_open (dm_heap d') = [1]"
proof -
  let ?os = example_outside and ?w = "((\<lambda>p. if p = mounted then Some (Some ''asn'') else None), 9)"
  define d1 where "d1 = example_daemon\<lparr>dm_phase := ToConfigure\<rparr>"
  have "signal_load ?os (toy_surroundings ''ok'') example_daemon = d1"
    using toy_loads [of "''sites.yaml''" "''ok''"]
    by (simp add: signal_load_def Reload_def d1_def example_outside_def) (simp add: example_daemon_def)
  then have 1: "program_step ?os (Running, example_daemon) (Running, d1)"
    using daemon_step.load [of example_daemon ?os "toy_surroundings ''ok''"]
    by (intro program_step.turn) (simp_all add: example_daemon_def d1_def)
  define d2 where "d2 = d1\<lparr>dm_reg := Configure (os_env ?os) example_running (dm_reg d1), dm_phase := ToReopen\<rparr>"
  have "signal_configure ?os d1 = Some d2"
    by (simp add: signal_configure_def d2_def) (simp add: d1_def example_daemon_def store_Get_def)
  then have 2: "program_step ?os (Running, d1) (Running, d2)"
    using daemon_step.configure [of d1 ?os d2] by (intro program_step.turn) (simp_all add: d1_def d2_def)
  define d3 where "d3 = d2\<lparr>dm_srv := (dm_srv d2)\<lparr>sv_queue := close_pool (dm_queue d2)\<rparr>\<rparr>"
  have 3: "program_step ?os (Running, d2) (Stopping Interrupted, d3)"
    unfolding d3_def by (rule program_step.stopping) (simp_all add: woken_def d2_def d1_def example_daemon_def)
  have geo: "dm_geo d3 = dm_geo example_daemon" "dm_heap d3 = dm_heap example_daemon" by (simp_all add: d3_def d2_def d1_def)
  define d4 where "d4 = d3\<lparr>dm_geo := fst (provider_Close (dm_geo d3, dm_heap d3)), dm_heap := snd (provider_Close (dm_geo d3, dm_heap d3))\<rparr>"
  have "shutdown d3 = Some d4"
    by (simp add: shutdown_def d4_def Let_def case_prod_unfold)
      (simp add: d3_def d2_def d1_def close_pool_def example_daemon_def)
  from program_step.returning [OF this] have 4: "program_step ?os (Stopping Interrupted, d3) (Returned Interrupted, d4)" .
  have phase: "dm_phase d4 = ToReopen" by (simp add: d4_def d3_def d2_def)
  have 5: "program_step ?os (Returned Interrupted, d4) (Returned Interrupted, signal_reopen ?w d4)"
    using daemon_step.reopen [OF phase, of ?os ?w]
    by (intro program_step.turn) (simp_all add: signal_reopen_def Let_def case_prod_unfold)
  have open': "hp_open (dm_heap d4) = []" "hp_open (dm_heap (signal_reopen ?w d4)) = [1]"
    by (simp_all add: d4_def geo signal_reopen_def Let_def case_prod_unfold)
      (simp_all add: example_daemon_def mmdb_Close_def mmdb_Reload_def open_all_def open_db_def swap_def held_def closeAll_def
        close_reader_def)
  from 1 2 3 4 have "program_steps ?os (Running, example_daemon) (Returned Interrupted, d4)"
    by (meson converse_rtranclp_into_rtranclp rtranclp.rtrancl_refl)
  with 5 open' show ?thesis by blast
qed

text \<open>The queue closed with an event in it: two steps of the workers, then the end.\<close>

lemma example_waiting:
  "\<exists>d e. daemon_steps example_outside example_daemon d \<and> pl_closed (dm_queue d) \<and> pl_buf (dm_queue d) = [e] \<and> pl_busy (dm_queue d) = []"
proof -
  obtain srv calls rs e where h: "handleEvent (os_ingest example_outside) example_running example_request 7 3 (dm_srv example_daemon) =
       Some (srv, calls, rs)" and q: "pl_buf (sv_queue srv) = [e]" "pl_busy (sv_queue srv) = []"
    using example_queued by blast
  define d1 where "d1 = example_daemon\<lparr>dm_srv := srv, dm_calls := dm_calls example_daemon @ calls\<rparr>"
  define d2 where "d2 = d1\<lparr>dm_srv := (dm_srv d1)\<lparr>sv_queue := close_pool (dm_queue d1)\<rparr>\<rparr>"
  have "store_Get (dm_store example_daemon) = Some example_running" by (simp add: example_daemon_def store_Get_def)
  from daemon_step.request [OF this _ h] have 1: "daemon_step example_outside example_daemon d1"
    by (simp add: d1_def timely_def)
  have "pl_closed (dm_queue d2)" "pl_buf (dm_queue d2) = [e]" "pl_busy (dm_queue d2) = []"
    by (simp_all add: d2_def d1_def close_pool_def q)
  moreover have "daemon_steps example_outside d1 d2"
  proof (cases "pl_closed (dm_queue d1)")
    case True
    then have "d2 = d1" by (simp add: d2_def close_pool_def)
    then show ?thesis by simp
  next
    case False
    from daemon_step.closing [OF this] show ?thesis unfolding d2_def by blast
  qed
  ultimately show ?thesis using 1 by (meson converse_rtranclp_into_rtranclp)
qed

theorem shutdown_completes_witness:
  "\<exists>d d'. daemon_steps example_outside example_daemon d \<and> work_due d = 2 \<and> (worker_step example_outside ^^ 2) d d' \<and>
     shutdown d' \<noteq> None"
proof -
  let ?ws = "worker_step example_outside"
  obtain d e where d: "daemon_steps example_outside example_daemon d" "pl_closed (dm_queue d)" "pl_buf (dm_queue d) = [e]"
      "pl_busy (dm_queue d) = []"
    using example_waiting by blast
  have "\<forall>c. ev_accepts (os_env example_outside) c"
    by (simp add: example_outside_def Registry_Counts.example_env_def)
  note drains = conjunct1 [OF shutdown_completes [OF example_started [unfolded example_start_def] d(1) this d(2)], rule_format]
  have due: "work_due d = 2" by (simp add: d)
  obtain d1 where d1: "(?ws ^^ 1) d d1" using drains [of 0 d] due by auto
  have "work_due d1 = 1" using drains [OF d1] due by linarith
  then have "work_due d1 = 0 \<longleftrightarrow> False" by (simp only: one_neq_zero)
  with drains [OF d1] obtain d2 where "?ws d1 d2" by (auto simp only: if_False)
  with d1 have d2: "(?ws ^^ 2) d d2" by (auto simp: numeral_2_eq_2)
  have "shutdown d2 \<noteq> None" using drains [OF d2] due by simp
  with d(1) due d2 show ?thesis by blast
qed

theorem signal_keeps_the_daemon_up_witness:
  "reload_signal example_outside (toy_surroundings ''broken'') ((\<lambda>_. None), 5) example_daemon = Some example_daemon \<and>
   (\<exists>d'. reload_signal example_outside (toy_surroundings ''edited'') ((\<lambda>_. None), 5) example_daemon = Some d' \<and>
      store_Get (dm_store d') = Some example_running)"
proof -
  have "dm_phase example_daemon = Waiting" by (simp add: example_daemon_def)
  note up = signal_keeps_the_daemon_up [OF example_started [unfolded example_start_def] rtranclp.rtrancl_refl this]
  have "store_load toy_loader (toy_surroundings ''broken'') (dm_store example_daemon) = Inl ParseError"
    by (simp add: store_load_def Load_def toy_loader_def toy_surroundings_def example_daemon_def)
  moreover have "store_load toy_loader (toy_surroundings ''edited'') (dm_store example_daemon) = Inr example_running"
    using toy_loads [of "''sites.yaml''" "''edited''"] by (simp add: example_daemon_def)
  moreover have "os_loader example_outside = toy_loader" by (simp add: example_outside_def)
  ultimately show ?thesis
    using up [of "toy_surroundings ''broken''" "((\<lambda>_. None), 5)"] up [of "toy_surroundings ''edited''" "((\<lambda>_. None), 5)"] by auto
qed

section \<open>The moment between the halves of a reload\<close>

text \<open>The same installation, whose file is edited to name another site.\<close>

definition other_site :: "string site" where
  "other_site = example_site\<lparr>Domain := ''shop.example''\<rparr>"

definition other_config :: "string config" where
  "other_config = newConfig\<lparr>Sites := [other_site]\<rparr>"

abbreviation other_built :: "string site" where
  "other_built \<equiv> built_site plain_platform (global_defaults other_config) other_site"

abbreviation other_running :: "string config" where
  "other_running \<equiv> other_config\<lparr>cfg_Defaults := global_defaults other_config, Sites := [other_built],
     cfg_sites := [(domain_key plain_platform other_site, other_built)]\<rparr>"

definition moving_outside :: "(u64 set, string, string) outside" where
  "moving_outside = example_outside\<lparr>os_loader := toy_loader\<lparr>ld_yaml :=
     (\<lambda>raw c. Some (c\<lparr>Sites := [if raw = ''edited'' then other_site else example_site]\<rparr>))\<rparr>\<rparr>"

definition other_request :: request where
  "other_request = example_request\<lparr>rq_Body := Some (map (\<lambda>c. if c = CHR ''~'' then CHR 0x22 else c)
     ''{~n~:~pageview~,~d~:~shop.example~,~u~:~/cart~,~w~:800}'')\<rparr>"

lemma other_finalized: "finalize plain_platform other_config = Inr other_running"
  unfolding finalize_Inr
  by (simp add: other_config_def newConfig_def other_site_def example_site_def acceptable_def plain_platform_def
    domain_key_def site_labels_def site_timezone_def builtin_defaults_def AllDimensions_def
    global_defaults_def TrimSpace_ascii is_ascii_def is_space_def ToLower_def)

lemma moving_loads:
  assumes "p \<noteq> []"
  shows "store_load (os_loader moving_outside) (toy_surroundings content) \<lparr>st_path = p, st_cur = x\<rparr> =
    Inr (if content = ''edited'' then other_running else example_running)"
proof -
  have "finalize plain_platform (newConfig\<lparr>Sites := [example_site]\<rparr>) = Inr example_running"
    "finalize plain_platform (newConfig\<lparr>Sites := [other_site]\<rparr>) = Inr other_running"
    using example_finalized other_finalized by (simp_all add: example_config_def other_config_def)
  with assms show ?thesis
    by (simp add: store_load_def Load_def moving_outside_def toy_loader_def toy_surroundings_def applyEnv_unset)
qed

lemma start_same:
  assumes "NewStore (os_loader os) sr path = NewStore (os_loader os') sr path" and "os_env os = os_env os'"
  shows "start os stat sr w rand clock path = start os' stat sr w rand clock path"
  unfolding start_def assms ..

lemma moving_started:
  "start moving_outside (\<lambda>p. if p = mounted then Some False else None) (toy_surroundings ''ok'')
     ((\<lambda>p. if p = mounted then Some (Some ''asn'') else None), 1) (Some ''seed'') 2 ''sites.yaml'' = Some (Inr example_daemon)"
proof -
  have "NewStore (os_loader moving_outside) (toy_surroundings ''ok'') ''sites.yaml'' =
      NewStore (os_loader example_outside) (toy_surroundings ''ok'') ''sites.yaml''"
    using moving_loads [of "''sites.yaml''" "''ok''" None] toy_loads [of "''sites.yaml''" "''ok''" None]
    by (simp add: NewStore_def example_outside_def)
  moreover have "os_env moving_outside = os_env example_outside" by (simp add: moving_outside_def)
  ultimately show ?thesis
    by (subst start_same) (assumption+, rule example_started [unfolded example_start_def])
qed

lemma other_queued:
  assumes "pl_buf (sv_queue s) = []" and "pl_busy (sv_queue s) = []" "pl_accepted (sv_queue s) = []" "\<not> pl_closed (sv_queue s)"
    and "0 < pl_cap (sv_queue s)" "lm_buckets (sv_limiter s) = []" "0 < lm_max (sv_limiter s)"
  shows "\<exists>srv calls rs e. handleEvent (os_ingest moving_outside) other_running other_request 7 3 s = Some (srv, calls, rs) \<and>
     sv_queue srv = (sv_queue s)\<lparr>pl_buf := [e], pl_accepted := [e]\<rparr> \<and>
     Domain (ev_site e) = ''shop.example'' \<and> p_Name (ev_p e) = ''pageview'' \<and> ev_at e = 7"
proof -
  have ie: "os_ingest moving_outside = Handler.example_env"
    by (simp add: os_ingest_def moving_outside_def example_outside_def toy_loader_def Handler.example_env_def)
  have "(case event_gates Handler.example_env other_running other_request of
      Inl _ \<Rightarrow> [] | Inr (site, p) \<Rightarrow> [Domain site, p_Name p]) = [''shop.example'', ''pageview'']"
    by code_simp
  then obtain site p where gates: "event_gates Handler.example_env other_running other_request = Inr (site, p)"
      "Domain site = ''shop.example''" "p_Name p = ''pageview''"
    by (auto split: sum.splits)
  let ?key = "rateKey (ClientIP other_request (TrustProxy (Server other_running)))"
  have "fst (Allow ?key 7 (sv_limiter s))" using assms by (simp add: Allow_def)
  moreover have "rq_Method other_request = ''POST''" by (simp add: other_request_def example_request_def)
  ultimately show ?thesis
    unfolding ie handleEvent_def handle_post_def Let_def gates(1)
    using assms by (simp add: enqueue_def try_send_def case_prod_unfold)
      (rule exI, intro conjI, rule refl, simp_all add: gates(2,3))
qed

text \<open>The signal has loaded the new configuration, and a worker has taken a pageview of its site.\<close>

lemma moving_taken:
  "\<exists>d e. daemon_steps moving_outside example_daemon d \<and> dm_phase d = ToConfigure \<and> pl_buf (dm_queue d) = [] \<and>
     pl_busy (dm_queue d) = [e] \<and> pl_accepted (dm_queue d) = [e] \<and> store_Get (dm_store d) = Some other_running \<and>
     dm_reg d = New Registry_Counts.example_env example_running \<and>
     Domain (ev_site e) = ''shop.example'' \<and> p_Name (ev_p e) = ''pageview''"
proof -
  let ?os = moving_outside
  define d1 where "d1 = example_daemon\<lparr>dm_store := \<lparr>st_path = ''sites.yaml'', st_cur = Some other_running\<rparr>, dm_phase := ToConfigure\<rparr>"
  have "signal_load ?os (toy_surroundings ''edited'') example_daemon = d1"
    using moving_loads [of "''sites.yaml''" "''edited''"]
    by (simp add: signal_load_def Reload_def d1_def example_daemon_def)
  then have 1: "daemon_step ?os example_daemon d1"
    using daemon_step.load [of example_daemon ?os "toy_surroundings ''edited''"] by (simp add: example_daemon_def)
  obtain srv calls rs e where h: "handleEvent (os_ingest ?os) other_running other_request 7 3 (dm_srv d1) = Some (srv, calls, rs)"
    and q: "sv_queue srv = (dm_queue d1)\<lparr>pl_buf := [e], pl_accepted := [e]\<rparr>"
    and e: "Domain (ev_site e) = ''shop.example''" "p_Name (ev_p e) = ''pageview''" "ev_at e = 7"
    using other_queued [of "dm_srv d1"] by (auto simp: d1_def example_daemon_def NewLimiter_def)
  define d2 where "d2 = d1\<lparr>dm_srv := srv, dm_calls := dm_calls d1 @ calls\<rparr>"
  have "store_Get (dm_store d1) = Some other_running" by (simp add: d1_def store_Get_def)
  from daemon_step.request [OF this _ h] have 2: "daemon_step ?os d1 d2" by (simp add: d2_def timely_def)
  have queue: "dm_queue d2 = \<lparr>pl_cap = 8192, pl_workers = 4, pl_buf = [e], pl_busy = [], pl_closed = False,
      pl_accepted = [e], pl_recorded = []\<rparr>"
    by (simp add: d2_def q d1_def example_daemon_def)
  define d3 where "d3 = d2\<lparr>dm_srv := (dm_srv d2)\<lparr>sv_queue := (dm_queue d2)\<lparr>pl_buf := [], pl_busy := pl_busy (dm_queue d2) @ [e]\<rparr>\<rparr>\<rparr>"
  have "daemon_step ?os d2 d3"
    unfolding d3_def by (rule daemon_step.receive) (simp_all add: queue)
  with 1 2 have "daemon_steps ?os example_daemon d3" by (meson converse_rtranclp_into_rtranclp rtranclp.rtrancl_refl)
  then show ?thesis
    using e by (intro exI [of _ d3] exI [of _ e]) (simp add: d3_def queue, simp add: d2_def d1_def example_daemon_def store_Get_def)
qed

text \<open>A worker that records an event of a site the registry does not know counts it as one of an unknown site.\<close>

lemma unknown_recorded:
  assumes "pl_busy (dm_queue d) = [e]" and "Domain (ev_site e) \<notin> known_sites (dm_reg d)"
    and "ev_accepts (os_env os) (Inc FIngestEvents [''unknown'', ''unknown_site''])"
  shows "\<exists>d'. daemon_step os d d' \<and> dm_reg d' = (dm_reg d)\<lparr>rg_calls := rg_calls (dm_reg d) @ [Inc FIngestEvents [''unknown'', ''unknown_site'']]\<rparr> \<and>
     pl_busy (dm_queue d') = [] \<and> pl_buf (dm_queue d') = pl_buf (dm_queue d) \<and>
     pl_accepted (dm_queue d') = pl_accepted (dm_queue d) \<and> dm_store d' = dm_store d \<and> dm_phase d' = dm_phase d"
proof -
  let ?lookup = "Some (provider_Lookup (os_mmdb os) (dm_geo d, dm_heap d))"
  obtain ob cs where ob: "enrichEvent (os_ingest os) (dm_salt d) ?lookup e = (ob, cs)" by force
  have "o_Site ob = Domain (ev_site e)" using enriched_kind(2) [of "os_ingest os" "dm_salt d" ?lookup e] ob by simp
  with assms(2) have "map_of (rg_sites (dm_reg d)) (o_Site ob) = None" by (simp only: domIff not_not)
  then have "Record (os_env os) 9 ob (dm_reg d) =
      Some ((dm_reg d)\<lparr>rg_calls := rg_calls (dm_reg d) @ [Inc FIngestEvents [''unknown'', ''unknown_site'']]\<rparr>)"
    using assms(3) by (simp add: Record_def survives_def)
  then have w: "worker (os_env os) (os_ingest os) (dm_salt d) ?lookup 9 e (dm_reg d, dm_calls d) =
      Some ((dm_reg d)\<lparr>rg_calls := rg_calls (dm_reg d) @ [Inc FIngestEvents [''unknown'', ''unknown_site'']]\<rparr>, dm_calls d @ cs)"
    by (simp add: worker_def ob)
  have "pl_busy (dm_queue d) = [] @ e # []" using assms(1) by simp
  from daemon_step.finish [OF this w] show ?thesis
    by (intro exI conjI, assumption) simp_all
qed

text \<open>
  C36: A reload can lose an accepted pageview. A signal brings a configuration with a new site; after the
  store serves it and before the registry is told, one pageview of that site is accepted, taken by a worker
  and recorded. When the signal has ended and the queue is empty the registry knows the site, yet the
  pageview is in none of its series: it was counted as an event of an unknown site.
\<close>

theorem reload_can_lose_a_pageview:
  "\<exists>d. daemon_steps moving_outside example_daemon d \<and> dm_phase d = Waiting \<and> waiting d = [] \<and>
     pageviews_of ''shop.example'' (pl_accepted (dm_queue d)) = 1 \<and> ''shop.example'' \<in> dom (map_of (rg_sites (dm_reg d))) \<and>
     tally FPageviews ''shop.example'' (rg_calls (dm_reg d)) = 0 \<and> unknown_calls (dm_reg d) = 1"
proof -
  let ?os = moving_outside
  obtain d3 e where run: "daemon_steps ?os example_daemon d3" and d3: "dm_phase d3 = ToConfigure" "pl_buf (dm_queue d3) = []"
      "pl_busy (dm_queue d3) = [e]" "pl_accepted (dm_queue d3) = [e]" "store_Get (dm_store d3) = Some other_running"
      "dm_reg d3 = New Registry_Counts.example_env example_running"
    and e: "Domain (ev_site e) = ''shop.example''" "p_Name (ev_p e) = ''pageview''"
    using moving_taken by blast
  have "domain_key plain_platform example_site = ''example.org''" by code_simp
  then have "Domain (ev_site e) \<notin> known_sites (dm_reg d3)" by (simp add: d3(6) New_empty e)
  moreover have "ev_accepts (os_env ?os) (Inc FIngestEvents [''unknown'', ''unknown_site''])"
    by (simp add: moving_outside_def example_outside_def Registry_Counts.example_env_def)
  ultimately obtain d4 where 4: "daemon_step ?os d3 d4" and
    d4: "dm_reg d4 = (dm_reg d3)\<lparr>rg_calls := rg_calls (dm_reg d3) @ [Inc FIngestEvents [''unknown'', ''unknown_site'']]\<rparr>"
      "waiting d4 = []" "pl_accepted (dm_queue d4) = [e]" "dm_store d4 = dm_store d3" "dm_phase d4 = ToConfigure"
    using unknown_recorded [OF d3(3), of ?os] d3 by auto
  define d5 where "d5 = d4\<lparr>dm_reg := Configure (os_env ?os) other_running (dm_reg d4), dm_phase := ToReopen\<rparr>"
  have 5: "daemon_step ?os d4 d5"
    by (rule daemon_step.configure) (simp_all add: d4 d3 d5_def signal_configure_def)
  have 6: "daemon_step ?os d5 (signal_reopen ((\<lambda>_. None), 9) d5)"
    by (rule daemon_step.reopen) (simp add: d5_def)
  have "daemon_steps ?os example_daemon (signal_reopen ((\<lambda>_. None), 9) d5)"
    using run 4 5 6 by (meson rtranclp.rtrancl_into_rtrancl)
  moreover have "dm_phase (signal_reopen w d5) = Waiting \<and> dm_srv (signal_reopen w d5) = dm_srv d4 \<and>
      dm_reg (signal_reopen w d5) = dm_reg d5" for w
    by (simp_all add: signal_reopen_def case_prod_unfold Let_def) (simp_all add: d5_def)
  moreover have "domain_key plain_platform other_site = ''shop.example''" by code_simp
  ultimately show ?thesis
    using d4 e
    by (intro exI [of _ "signal_reopen ((\<lambda>_. None), 9) d5"]) (simp add: d5_def d3(6) New_empty Configure_known pageviews_of_def del: domIff)
qed

end
