(* ===== verification/Script.thy ===== *)
theory Script
  imports GoJson
begin

text \<open>
  The tracking script \<open>web/counter.js\<close>: what a page sends to the ingest handler, and when.

  \<^item> A JavaScript string is its list of UTF-16 units; \<open>utf8\<close> is what the network carries of it.
  \<^item> The name of a custom event is whatever the page passes: a \<open>js_value\<close>, which \<open>js_String\<close> turns into text.
  \<^item> \<open>post\<close>, \<open>flush\<close>, \<open>pageview\<close>, \<open>custom_event\<close>: the functions of the script on its state. A page is what
    they read of \<open>location\<close>, \<open>document\<close>, \<open>window\<close> and the clock; a network is what the browser offers and
    answers at the call. The answer to a \<open>fetch\<close> comes later, as an operation of its own.
  \<^item> \<open>load\<close>: what a script tag configures. \<open>stringify\<close>: \<open>JSON.stringify\<close> of the bodies.
  \<^item> \<open>script_sends_valid\<close>: what a run sends is well formed, and nothing once the breaker is open.
\<close>

section \<open>Strings\<close>

type_synonym js_string = "int list"

text \<open>A literal of the source, which is ASCII.\<close>

abbreviation js :: "string \<Rightarrow> js_string" where
  "js s \<equiv> map byte s"

definition high :: "int \<Rightarrow> bool" where "high u \<longleftrightarrow> 0xD800 \<le> u \<and> u < 0xDC00"
definition low :: "int \<Rightarrow> bool" where "low u \<longleftrightarrow> 0xDC00 \<le> u \<and> u < 0xE000"

fun code_points :: "js_string \<Rightarrow> int list" where
  "code_points [] = []"
| "code_points [u] = [u]"
| "code_points (u # v # us) =
     (if high u \<and> low v then (0x10000 + (u - 0xD800) * 0x400 + (v - 0xDC00)) # code_points us
      else u # code_points (v # us))"

definition units :: "js_string \<Rightarrow> bool" where
  "units us \<longleftrightarrow> (\<forall>u \<in> set us. 0 \<le> u \<and> u < 0x10000)"

text \<open>A surrogate that has no partner becomes the replacement character.\<close>

definition utf8 :: "js_string \<Rightarrow> string" where
  "utf8 us = concat (map encode_rune (code_points us))"

section \<open>Values\<close>

text \<open>
  What a page can pass where the script expects a name. A number is whether it counts as true and its digits, a
  symbol its description; an array is the built-in one, with no cycle; an object is what its own \<open>toString\<close>
  answers, \<open>None\<close> when that throws.
\<close>

datatype js_value =
    VUndefined
  | VNull
  | VBool bool
  | VNumber bool js_string
  | VString js_string
  | VSymbol js_string
  | VArray "js_value list"
  | VObject "js_string option"

fun truthy :: "js_value \<Rightarrow> bool" where
  "truthy VUndefined = False"
| "truthy VNull = False"
| "truthy (VBool b) = b"
| "truthy (VNumber nonzero digits) = nonzero"
| "truthy (VString us) = (us \<noteq> [])"
| "truthy v = True"

text \<open>The text of a value, as an array joins it: a symbol has none, and neither has an array that holds one.\<close>

fun to_text :: "js_value \<Rightarrow> js_string option"
and joined :: "js_value list \<Rightarrow> js_string option" where
  "to_text VUndefined = Some (js ''undefined'')"
| "to_text VNull = Some (js ''null'')"
| "to_text (VBool b) = Some (if b then js ''true'' else js ''false'')"
| "to_text (VNumber nonzero digits) = Some digits"
| "to_text (VString us) = Some us"
| "to_text (VSymbol us) = None"
| "to_text (VArray vs) = joined vs"
| "to_text (VObject answer) = answer"
| "joined [] = Some []"
| "joined (v # vs) =
     (case (if v = VUndefined \<or> v = VNull then Some [] else to_text v) of
        None \<Rightarrow> None
      | Some us \<Rightarrow> if vs = [] then Some us else map_option (\<lambda>rest. us @ js '','' @ rest) (joined vs))"

text \<open>\<open>String(v)\<close>, which accepts a symbol too. \<open>None\<close>: it throws.\<close>

fun js_String :: "js_value \<Rightarrow> js_string option" where
  "js_String (VSymbol us) = Some (js ''Symbol('' @ us @ js '')'')"
| "js_String v = to_text v"

section \<open>The state\<close>

record page =
  pg_pathname :: js_string
  pg_search :: js_string
  pg_href :: js_string
  pg_referrer :: js_string
  pg_innerWidth :: nat
  pg_now :: int

text \<open>\<open>sendBeacon\<close> may be missing, refuse or throw; \<open>fetch\<close> may be missing or throw.\<close>

datatype beacon = NoBeacon | BeaconRefuses | BeaconQueues
datatype fetching = NoFetch | FetchThrows | FetchStarts

record network =
  nw_beacon :: beacon
  nw_fetch :: fetching

text \<open>The properties of a custom event are their JSON text.\<close>

datatype body =
    PageviewBody (b_d: js_string) (b_u: js_string) (b_r: js_string) (b_w: nat)
  | EngagementBody (b_d: js_string) (b_u: js_string) (b_e: int)
  | EventBody (b_n: js_string) (b_d: js_string) (b_u: js_string) (b_p: "string option")

record script =
  js_lastPath :: "js_string option"
  js_enteredAt :: int
  js_failures :: nat
  js_disabled :: bool

definition loaded_script :: script where
  "loaded_script = \<lparr>js_lastPath = None, js_enteredAt = 0, js_failures = 0, js_disabled = False\<rparr>"

section \<open>The functions\<close>

definition FAILURE_LIMIT :: nat where "FAILURE_LIMIT = 3"

definition onFailure :: "script \<Rightarrow> script" where
  "onFailure s =
     (let n = Suc (js_failures s)
      in s\<lparr>js_failures := n, js_disabled := js_disabled s \<or> FAILURE_LIMIT \<le> n\<rparr>)"

definition onSuccess :: "script \<Rightarrow> script" where
  "onSuccess s = s\<lparr>js_failures := 0\<rparr>"

definition post :: "network \<Rightarrow> body \<Rightarrow> script \<Rightarrow> script \<times> body list" where
  "post nw b s =
     (if js_disabled s then (s, [])
      else if nw_beacon nw = BeaconQueues then (onSuccess s, [b])
      else (case nw_fetch nw of NoFetch \<Rightarrow> (onFailure s, []) | FetchThrows \<Rightarrow> (onFailure s, []) | FetchStarts \<Rightarrow> (s, [b])))"

text \<open>\<open>Math.round\<close> of the seconds.\<close>

definition rounded_seconds :: "int \<Rightarrow> int" where
  "rounded_seconds ms = (ms + 500) div 1000"

definition flush :: "js_string \<Rightarrow> page \<Rightarrow> network \<Rightarrow> script \<Rightarrow> script \<times> body list" where
  "flush site pg nw s =
     (if js_lastPath s = None \<or> js_lastPath s = Some [] \<or> js_enteredAt s = 0 then (s, [])
      else
        (let seconds = rounded_seconds (pg_now pg - js_enteredAt s); s = s\<lparr>js_enteredAt := 0\<rparr>
         in if seconds < 1 \<or> 3600 < seconds then (s, [])
            else post nw (EngagementBody site (pg_href pg) seconds) s))"

text \<open>The two requests of a pageview meet the network twice.\<close>

definition pageview :: "js_string \<Rightarrow> page \<Rightarrow> network \<times> network \<Rightarrow> script \<Rightarrow> script \<times> body list" where
  "pageview site pg nws s =
     (let path = pg_pathname pg @ pg_search pg in
      if js_lastPath s = Some path then (s, [])
      else
        (let (s, before) = flush site pg (fst nws) s;
             s = s\<lparr>js_lastPath := Some path, js_enteredAt := pg_now pg\<rparr>;
             (s, sent) = post (snd nws) (PageviewBody site (pg_href pg) (pg_referrer pg) (pg_innerWidth pg)) s
         in (s, before @ sent)))"

text \<open>
  The name is compared as it is passed, with \<open>===\<close>, and sent as its text: only a string can be found reserved.
  When there is no text the body is never built, and \<open>safe\<close> swallows the exception.
\<close>

definition custom_event :: "js_string \<Rightarrow> js_value \<Rightarrow> string option \<Rightarrow> page \<Rightarrow> network \<Rightarrow> script \<Rightarrow> script \<times> body list" where
  "custom_event site name props pg nw s =
     (if \<not> truthy name \<or> name = VString (js ''pageview'') \<or> name = VString (js ''engagement'') then (s, [])
      else (case js_String name of
              None \<Rightarrow> (s, [])
            | Some us \<Rightarrow> post nw (EventBody (take 64 us) site (pg_href pg) props) s))"

section \<open>Loading\<close>

text \<open>The attributes of the script tag.\<close>

record tag =
  tg_host :: "js_string option"
  tg_site :: "js_string option"
  tg_spa :: "js_string option"
  tg_local :: "js_string option"

text \<open>What a tag configures: where to send, the site named, and whether history changes count.\<close>

record settings =
  st_endpoint :: js_string
  st_site :: js_string
  st_spa :: bool

text \<open>
  Both ends of the pattern are anchored, so \<open>127\.\<close> is the four characters and not a prefix.
\<close>

definition isLocal :: "js_string \<Rightarrow> js_string \<Rightarrow> bool" where
  "isLocal hostname protocol \<longleftrightarrow>
     hostname \<in> {js ''localhost'', js ''127.'', js ''0.0.0.0'', js ''[::1]''} \<or>
     (js ''.local'' = drop (length hostname - 6) hostname) \<or> protocol = js ''file:''"

definition endpoint :: "js_string \<Rightarrow> js_string" where
  "endpoint host = rev (dropWhile (\<lambda>u. u = 0x2F) (rev host)) @ js ''/api/event''"

text \<open>\<open>None\<close>: the script does nothing on this page. An absent attribute and an empty one are alike.\<close>

definition load :: "js_string \<Rightarrow> js_string \<Rightarrow> tag \<Rightarrow> settings option" where
  "load hostname protocol t =
     (case tg_host t of
        None \<Rightarrow> None
      | Some host \<Rightarrow>
          if host = [] then None
          else if isLocal hostname protocol \<and> tg_local t \<noteq> Some (js ''true'') then None
          else
            Some \<lparr>st_endpoint = endpoint host,
                  st_site = (case tg_site t of None \<Rightarrow> hostname | Some site \<Rightarrow> if site = [] then hostname else site),
                  st_spa = (tg_spa t \<noteq> Some (js ''false''))\<rparr>)"

section \<open>Events on the page\<close>

text \<open>
  What happens to a page: it loads or its address changes, it is hidden, the site reports an event, the
  answer to an earlier \<open>fetch\<close> arrives.
\<close>

datatype script_op =
    Navigated page "network \<times> network"
  | Hidden page network
  | Reported js_value "string option" page network
  | Answered bool

fun script_step :: "js_string \<Rightarrow> script_op \<Rightarrow> script \<Rightarrow> script \<times> body list" where
  "script_step site (Navigated pg nws) s = pageview site pg nws s"
| "script_step site (Hidden pg nw) s = flush site pg nw s"
| "script_step site (Reported name props pg nw) s = custom_event site name props pg nw s"
| "script_step site (Answered ok) s = ((if ok then onSuccess s else onFailure s), [])"

fun script_run :: "js_string \<Rightarrow> script_op list \<Rightarrow> script \<Rightarrow> script \<times> body list" where
  "script_run site [] s = (s, [])"
| "script_run site (op # ops) s =
     (let (s1, sent) = script_step site op s; (s2, later) = script_run site ops s1 in (s2, sent @ later))"

section \<open>The text of a body\<close>

definition unicode_escape :: "int \<Rightarrow> string" where
  "unicode_escape r = CHR 0x5C # CHR ''u'' # map (\<lambda>k. digit_char (nat (r div 16 ^ k mod 16))) [3, 2, 1, 0]"

definition json_escape :: "int \<Rightarrow> string" where
  "json_escape r =
     (if r = 0x22 then [CHR 0x5C, CHR 0x22] else if r = 0x5C then [CHR 0x5C, CHR 0x5C]
      else if r = 8 then [CHR 0x5C, CHR ''b''] else if r = 12 then [CHR 0x5C, CHR ''f'']
      else if r = 10 then [CHR 0x5C, CHR ''n''] else if r = 13 then [CHR 0x5C, CHR ''r'']
      else if r = 9 then [CHR 0x5C, CHR ''t'']
      else if r < 0x20 \<or> high r \<or> low r then unicode_escape r else encode_rune r)"

definition escaped_text :: "js_string \<Rightarrow> string" where
  "escaped_text us = concat (map json_escape (code_points us))"

definition quoted :: "string \<Rightarrow> string" where
  "quoted raw = CHR 0x22 # raw @ [CHR 0x22]"

definition member :: "string \<times> string \<Rightarrow> string" where
  "member kv = quoted (fst kv) @ '':'' @ snd kv"

definition object_text :: "(string \<times> string) list \<Rightarrow> string" where
  "object_text ms = ''{'' @ Join (map member ms) '','' @ ''}''"

fun members :: "body \<Rightarrow> (string \<times> string) list" where
  "members (PageviewBody d u r w) =
     [(''n'', quoted ''pageview''), (''d'', quoted (escaped_text d)), (''u'', quoted (escaped_text u)),
      (''r'', quoted (escaped_text r)), (''w'', FormatUint w)]"
| "members (EngagementBody d u e) =
     [(''n'', quoted ''engagement''), (''d'', quoted (escaped_text d)), (''u'', quoted (escaped_text u)),
      (''e'', FormatUint (nat e))]"
| "members (EventBody n d u p) =
     [(''n'', quoted (escaped_text n)), (''d'', quoted (escaped_text d)), (''u'', quoted (escaped_text u)),
      (''p'', case p of None \<Rightarrow> ''null'' | Some text \<Rightarrow> text)]"

definition stringify :: "body \<Rightarrow> string" where
  "stringify b = object_text (members b)"

section \<open>What a run sends\<close>

text \<open>An engagement is worth a second to an hour, and the name of an event at most 64 units.\<close>

fun body_ok :: "body \<Rightarrow> bool" where
  "body_ok (PageviewBody d u r w) = True"
| "body_ok (EngagementBody d u e) = (1 \<le> e \<and> e \<le> 3600)"
| "body_ok (EventBody n d u p) = (length n \<le> 64)"

text \<open>A custom event with a name of its own, and an operation that does not name an event by anything but a string.\<close>

fun own_name :: "body \<Rightarrow> bool" where
  "own_name (EventBody n d u p) = (n \<noteq> [] \<and> n \<noteq> js ''pageview'' \<and> n \<noteq> js ''engagement'')"
| "own_name b = True"

fun named_by_string :: "script_op \<Rightarrow> bool" where
  "named_by_string (Reported (VString us) props pg nw) = True"
| "named_by_string (Reported v props pg nw) = False"
| "named_by_string op = True"

lemma post_sends: "snd (post nw b s) = [] \<or> snd (post nw b s) = [b]"
  by (simp add: post_def split: fetching.split)

lemma post_only: "x \<in> set (snd (post nw b s)) \<Longrightarrow> x = b"
  using post_sends [of nw b s] by auto

lemma post_disabled: "js_disabled s \<Longrightarrow> post nw b s = (s, [])"
  by (simp add: post_def)

lemma flush_ok: "\<forall>b \<in> set (snd (flush site pg nw s)). body_ok b \<and> own_name b \<and> b_d b = site"
  using post_sends [of nw "EngagementBody site (pg_href pg) (rounded_seconds (pg_now pg - js_enteredAt s))" "s\<lparr>js_enteredAt := 0\<rparr>"]
  by (auto simp: flush_def Let_def)

lemma prefix_names:
  "take 64 name = js ''pageview'' \<Longrightarrow> name = js ''pageview''" "take 64 name = js ''engagement'' \<Longrightarrow> name = js ''engagement''"
proof -
  have whole: "name = xs" if "take 64 name = xs" "length xs < 64" for xs :: js_string
  proof -
    have "length name \<le> 64" using that by (metis length_take min.absorb2 nat_le_linear not_less)
    with that(1) show ?thesis by simp
  qed
  show "take 64 name = js ''pageview'' \<Longrightarrow> name = js ''pageview''" by (rule whole) simp_all
  show "take 64 name = js ''engagement'' \<Longrightarrow> name = js ''engagement''" by (rule whole) simp_all
qed

lemma script_step_ok:
  "\<forall>b \<in> set (snd (script_step site op s)). body_ok b \<and> (named_by_string op \<longrightarrow> own_name b) \<and> b_d b = site"
proof (cases op)
  case (Navigated pg nws)
  obtain s1 before where f: "flush site pg (fst nws) s = (s1, before)" by force
  let ?b = "PageviewBody site (pg_href pg) (pg_referrer pg) (pg_innerWidth pg)"
  let ?s = "s1\<lparr>js_lastPath := Some (pg_pathname pg @ pg_search pg), js_enteredAt := pg_now pg\<rparr>"
  have "set (snd (pageview site pg nws s)) \<subseteq> set before \<union> set (snd (post (snd nws) ?b ?s))"
    by (auto simp: pageview_def Let_def f case_prod_unfold)
  moreover have "set (snd (post (snd nws) ?b ?s)) \<subseteq> {?b}" using post_sends [of "snd nws" ?b ?s] by auto
  ultimately have "b \<in> set before \<or> b = ?b" if "b \<in> set (snd (script_step site op s))" for b
    using that Navigated by auto
  moreover have "body_ok b \<and> own_name b \<and> b_d b = site" if "b \<in> set before" for b
    using flush_ok [of site pg "fst nws" s] f that by simp
  moreover have "body_ok ?b \<and> own_name ?b \<and> b_d ?b = site" by simp
  ultimately show ?thesis by blast
next
  case (Reported name props pg nw)
  show ?thesis
  proof (intro ballI)
    fix b assume b: "b \<in> set (snd (script_step site op s))"
    then obtain us where us: "js_String name = Some us" and name: "truthy name" "name \<noteq> VString (js ''pageview'')" "name \<noteq> VString (js ''engagement'')"
      and sent: "b = EventBody (take 64 us) site (pg_href pg) props"
      by (auto simp: Reported custom_event_def dest!: post_only split: option.splits if_splits)
    have "own_name b" if "named_by_string op"
      using that name us prefix_names [of us] by (cases name; cases us) (auto simp: Reported sent)
    then show "body_ok b \<and> (named_by_string op \<longrightarrow> own_name b) \<and> b_d b = site" by (simp add: sent)
  qed
qed (simp_all add: flush_ok)

lemma disabled_step: "js_disabled s \<Longrightarrow> js_disabled (fst (script_step site op s)) \<and> snd (script_step site op s) = []"
  by (cases op)
    (auto simp: pageview_def flush_def custom_event_def Let_def post_disabled onSuccess_def onFailure_def case_prod_unfold
      split: option.splits)

lemma disabled_run: "js_disabled s \<Longrightarrow> js_disabled (fst (script_run site ops s)) \<and> snd (script_run site ops s) = []"
  by (induction ops arbitrary: s) (use disabled_step in \<open>force simp: Let_def case_prod_unfold\<close>)+

lemma script_run_append:
  "script_run site (xs @ ys) s =
     (fst (script_run site ys (fst (script_run site xs s))), snd (script_run site xs s) @ snd (script_run site ys (fst (script_run site xs s))))"
  by (induction xs arbitrary: s) (simp_all add: Let_def case_prod_unfold)

lemma slashes_dropped: "endpoint (host @ js ''/'') = endpoint host"
  by (simp add: endpoint_def)

text \<open>The loopback name is left out, the loopback address is not.\<close>

lemma loopback_is_not_local:
  "isLocal (js ''localhost'') (js ''http:'')" "\<not> isLocal (js ''127.0.0.1'') (js ''http:'')"
  by (code_simp, code_simp)

lemma post_failures:
  "FAILURE_LIMIT \<le> js_failures s \<longrightarrow> js_disabled s \<Longrightarrow>
   FAILURE_LIMIT \<le> js_failures (fst (post nw b s)) \<longrightarrow> js_disabled (fst (post nw b s))"
  by (auto simp: post_def onSuccess_def onFailure_def Let_def FAILURE_LIMIT_def split: fetching.split)

lemma flush_failures:
  "FAILURE_LIMIT \<le> js_failures s \<longrightarrow> js_disabled s \<Longrightarrow>
   FAILURE_LIMIT \<le> js_failures (fst (flush site pg nw s)) \<longrightarrow> js_disabled (fst (flush site pg nw s))"
  using post_failures [of "s\<lparr>js_enteredAt := 0\<rparr>"] by (simp add: flush_def Let_def)

lemma step_failures:
  "FAILURE_LIMIT \<le> js_failures s \<longrightarrow> js_disabled s \<Longrightarrow>
   FAILURE_LIMIT \<le> js_failures (fst (script_step site op s)) \<longrightarrow> js_disabled (fst (script_step site op s))"
proof (cases op)
  case (Navigated pg nws)
  assume "FAILURE_LIMIT \<le> js_failures s \<longrightarrow> js_disabled s"
  moreover obtain s1 before where "flush site pg (fst nws) s = (s1, before)" by force
  ultimately show ?thesis
    using flush_failures [of s site pg "fst nws"]
      post_failures [of "s1\<lparr>js_lastPath := Some (pg_pathname pg @ pg_search pg), js_enteredAt := pg_now pg\<rparr>" "snd nws"
        "PageviewBody site (pg_href pg) (pg_referrer pg) (pg_innerWidth pg)"]
    by (simp add: Navigated pageview_def Let_def case_prod_unfold)
qed (auto simp: flush_failures custom_event_def post_failures onSuccess_def onFailure_def Let_def split: option.splits)

lemma run_failures:
  "FAILURE_LIMIT \<le> js_failures s \<longrightarrow> js_disabled s \<Longrightarrow>
   FAILURE_LIMIT \<le> js_failures (fst (script_run site ops s)) \<longrightarrow> js_disabled (fst (script_run site ops s))"
  using step_failures by (induction ops arbitrary: s) (simp_all add: Let_def case_prod_unfold)

lemma run_ok:
  "\<forall>b \<in> set (snd (script_run site ops s)). body_ok b \<and> (list_all named_by_string ops \<longrightarrow> own_name b) \<and> b_d b = site"
proof (induction ops arbitrary: s)
  case (Cons op ops)
  from Cons [of "fst (script_step site op s)"] script_step_ok [of site op s] show ?case
    by (auto simp: Let_def case_prod_unfold)
qed simp

text \<open>
  C16: After any history of a page (navigations, hidings, events of the site under names of any kind, answers to
  earlier requests), everything the script has sent names its site and is well formed: an engagement is worth
  one second to one hour, the name of an event has at most 64 UTF-16 units. Where the page names its events
  by strings only, each name sent is also non-empty and not one of the reserved two; other values escape that
  check (\<open>array_names_escape\<close>). Once the third failure in a row is counted, nothing that happens later makes the
  script send again.
\<close>

theorem script_sends_valid:
  "(\<forall>b \<in> set (snd (script_run site ops loaded_script)). body_ok b \<and> b_d b = site) \<and>
   (list_all named_by_string ops \<longrightarrow> list_all own_name (snd (script_run site ops loaded_script))) \<and>
   (FAILURE_LIMIT \<le> js_failures (fst (script_run site ops loaded_script)) \<longrightarrow>
      snd (script_run site (ops @ later) loaded_script) = snd (script_run site ops loaded_script))"
proof -
  have "FAILURE_LIMIT \<le> js_failures (fst (script_run site ops loaded_script)) \<longrightarrow>
        js_disabled (fst (script_run site ops loaded_script))"
    by (rule run_failures) (simp add: loaded_script_def FAILURE_LIMIT_def)
  with disabled_run [of "fst (script_run site ops loaded_script)" site later]
  show ?thesis using run_ok [of site ops loaded_script] by (auto simp: list_all_iff script_run_append simp del: script_run.simps)
qed

text \<open>A page of a site and a network that answers nothing at once.\<close>

definition example_page :: "string \<Rightarrow> int \<Rightarrow> page" where
  "example_page path now =
     \<lparr>pg_pathname = js path, pg_search = [], pg_href = js (''https://a.com'' @ path), pg_referrer = [], pg_innerWidth = 800,
      pg_now = now\<rparr>"

definition example_network :: network where
  "example_network = \<lparr>nw_beacon = NoBeacon, nw_fetch = FetchStarts\<rparr>"

text \<open>An event of the site, three failures, another event.\<close>

definition example_report :: "string \<Rightarrow> script_op" where
  "example_report name = Reported (VString (js name)) None (example_page ''/'' 0) example_network"

theorem script_sends_valid_witness:
  "list_all own_name (snd (script_run (js ''a.com'') (example_report ''buy'' # replicate 3 (Answered False)) loaded_script)) \<and>
   snd (script_run (js ''a.com'') ((example_report ''buy'' # replicate 3 (Answered False)) @ [example_report ''sell'']) loaded_script) =
     [EventBody (js ''buy'') (js ''a.com'') (js ''https://a.com/'') None]"
proof -
  let ?ops = "example_report ''buy'' # replicate 3 (Answered False)"
  have run: "script_run (js ''a.com'') ?ops loaded_script =
      (\<lparr>js_lastPath = None, js_enteredAt = 0, js_failures = 3, js_disabled = True\<rparr>,
       [EventBody (js ''buy'') (js ''a.com'') (js ''https://a.com/'') None])"
    by (simp add: numeral_eq_Suc FAILURE_LIMIT_def loaded_script_def onFailure_def Let_def example_report_def custom_event_def
        post_def example_page_def example_network_def)
  moreover have "list_all named_by_string ?ops" by (simp add: example_report_def list_all_iff)
  ultimately show ?thesis
    using script_sends_valid [of "js ''a.com''" ?ops "[example_report ''sell'']"]
    by (simp add: FAILURE_LIMIT_def del: script_run.simps replicate.simps)
qed

text \<open>
  An array is no string, so the check lets it pass: one that holds a reserved name is sent under that name, an
  empty one (which counts as true) under the empty name.
\<close>

theorem array_names_escape:
  "snd (custom_event site (VArray [VString (js ''pageview'')]) props pg example_network loaded_script) =
     [EventBody (js ''pageview'') site (pg_href pg) props]"
  "snd (custom_event site (VArray []) props pg example_network loaded_script) = [EventBody [] site (pg_href pg) props]"
  by (simp_all add: custom_event_def post_def loaded_script_def example_network_def)

text \<open>
  On a page that lives on while its address changes, the time spent is reported with the new
  address: the change has happened before \<open>flush\<close> reads \<open>location.href\<close>. So after a pageview at one page, a
  navigation to another between one second and one hour later sends an engagement that names the page
  just entered, then its pageview.
\<close>

theorem spa_engagement_names_the_new_page:
  assumes "pg_pathname old @ pg_search old \<noteq> []" "pg_now old \<noteq> 0"
    "pg_pathname new @ pg_search new \<noteq> pg_pathname old @ pg_search old"
    "1000 \<le> pg_now new - pg_now old" "pg_now new - pg_now old \<le> 3600000"
  shows "snd (script_run site [Navigated old (nw, nw), Navigated new (nw, nw)] loaded_script) =
           (if nw_beacon nw = BeaconQueues \<or> nw_fetch nw = FetchStarts then
              [PageviewBody site (pg_href old) (pg_referrer old) (pg_innerWidth old),
               EngagementBody site (pg_href new) (rounded_seconds (pg_now new - pg_now old)),
               PageviewBody site (pg_href new) (pg_referrer new) (pg_innerWidth new)]
            else [])"
proof -
  have "1 \<le> rounded_seconds (pg_now new - pg_now old)" "rounded_seconds (pg_now new - pg_now old) \<le> 3600"
    using assms(4,5) by (auto simp: rounded_seconds_def)
  moreover have "Some (pg_pathname old @ pg_search old) \<noteq> Some []" using assms(1) by simp
  ultimately show ?thesis
    using assms(1-3)
    by (cases "nw_fetch nw")
      (auto simp: loaded_script_def pageview_def flush_def post_def onFailure_def onSuccess_def FAILURE_LIMIT_def Let_def)
qed

theorem spa_engagement_names_the_new_page_witness:
  "snd (script_run (js ''a.com'')
       [Navigated (example_page ''/one'' 5000) (example_network, example_network),
        Navigated (example_page ''/two'' 17000) (example_network, example_network)] loaded_script) =
     [PageviewBody (js ''a.com'') (js ''https://a.com/one'') [] 800, EngagementBody (js ''a.com'') (js ''https://a.com/two'') 12,
      PageviewBody (js ''a.com'') (js ''https://a.com/two'') [] 800]"
proof -
  let ?old = "example_page ''/one'' 5000" and ?new = "example_page ''/two'' 17000"
  have "snd (script_run (js ''a.com'') [Navigated ?old (example_network, example_network), Navigated ?new (example_network, example_network)]
      loaded_script) =
    [PageviewBody (js ''a.com'') (pg_href ?old) (pg_referrer ?old) (pg_innerWidth ?old),
     EngagementBody (js ''a.com'') (pg_href ?new) (rounded_seconds (pg_now ?new - pg_now ?old)),
     PageviewBody (js ''a.com'') (pg_href ?new) (pg_referrer ?new) (pg_innerWidth ?new)]"
    by (subst spa_engagement_names_the_new_page) (simp_all add: example_page_def example_network_def del: script_run.simps)
  then show ?thesis by (simp add: example_page_def rounded_seconds_def del: script_run.simps)
qed

end
