(* ===== verification/Wire.thy ===== *)
theory Wire
  imports Script Handler
begin

text \<open>
  The two ends of the wire: what \<open>web/counter.js\<close> prints, \<open>internal/ingest/handler.go\<close> reads.

  \<^item> \<open>payload_of\<close>: the payload a body of the script stands for.
  \<^item> \<open>sent_body_is_read_back\<close>: decoding the text of a body gives that payload.
  \<^item> The names of events on both sides, and \<open>signature_iff\<close>: which signatures the handler accepts.
\<close>

section \<open>Strings\<close>

text \<open>Code points, with no high surrogate before a low one.\<close>

definition code_point :: "int \<Rightarrow> bool" where
  "code_point r \<longleftrightarrow> 0 \<le> r \<and> r \<le> 0x10FFFF"

abbreviation unpaired :: "int list \<Rightarrow> bool" where
  "unpaired \<equiv> successively (\<lambda>a b. \<not> (high a \<and> low b))"

lemma code_points_ok: "units us \<Longrightarrow> unpaired (code_points us) \<and> list_all code_point (code_points us)"
proof (induction us rule: code_points.induct)
  case (2 u)
  then show ?case by (auto simp: units_def code_point_def)
next
  case (3 u v us)
  then have uv: "0 \<le> u" "u < 0x10000" "0 \<le> v" "v < 0x10000" by (auto simp: units_def)
  show ?case
  proof (cases "high u \<and> low v")
    case True
    let ?r = "0x10000 + (u - 0xD800) * 0x400 + (v - 0xDC00)"
    have r: "0x10000 \<le> ?r" "?r \<le> 0x10FFFF" using True by (auto simp: high_def low_def)
    then have "\<not> high ?r" by (simp add: high_def)
    moreover have "unpaired (code_points us) \<and> list_all code_point (code_points us)" using 3 True by (auto simp: units_def)
    moreover have "code_point ?r" using r by (simp add: code_point_def)
    ultimately show ?thesis using True by (simp add: successively_Cons)
  next
    case False
    then have IH: "unpaired (code_points (v # us))" "list_all code_point (code_points (v # us))"
      using 3 by (auto simp: units_def)
    have "\<not> (high u \<and> low (hd (code_points (v # us))))"
      using False by (cases us) (auto simp: high_def low_def)
    moreover have "code_point u" using uv by (simp add: code_point_def)
    ultimately show ?thesis using IH False by (auto simp: successively_Cons)
  qed
qed (simp add: units_def)

lemma hex4:
  "a < 16 \<Longrightarrow> b < 16 \<Longrightarrow> c < 16 \<Longrightarrow> d < 16 \<Longrightarrow>
   u4 (digit_char a # digit_char b # digit_char c # digit_char d # t) = ((int a * 16 + int b) * 16 + int c) * 16 + int d"
  by (simp add: u4_def hexadecimal_def hex_digit_char)

text \<open>The four digits of an escape are read back.\<close>

lemma four_digits:
  assumes "0 \<le> r" "r < 0x10000"
  obtains a b c d where "unicode_escape r = [CHR 0x5C, CHR ''u'', digit_char a, digit_char b, digit_char c, digit_char d]"
    "a < 16" "b < 16" "c < 16" "d < 16" "r = ((int a * 16 + int b) * 16 + int c) * 16 + int d"
proof -
  let ?n = "\<lambda>k. nat (r div 16 ^ k mod 16)"
  have split: "r div (k * 16) * 16 + r div k mod 16 = r div k" if "0 < k" for k
    using div_mult_mod_eq [of "r div k" 16] zdiv_zmult2_eq [of 16 r k] by simp
  have "r div 4096 < 16" "0 \<le> r div 4096" using assms by simp_all
  then have "r div 4096 mod 16 = r div 4096" by simp
  moreover have "r div 4096 * 16 + r div 256 mod 16 = r div 256" "r div 256 * 16 + r div 16 mod 16 = r div 16"
    "r div 16 * 16 + r mod 16 = r"
    using split [of 256] split [of 16] split [of 1] by simp_all
  ultimately have r: "((r div 4096 mod 16 * 16 + r div 256 mod 16) * 16 + r div 16 mod 16) * 16 + r mod 16 = r"
    by (simp only:)
  have e: "16 ^ 3 = (4096 :: int)" "16 ^ 2 = (256 :: int)" "16 ^ 1 = (16 :: int)" "16 ^ 0 = (1 :: int)" by simp_all
  have n: "int (?n k) = r div 16 ^ k mod 16" "?n k < 16" for k by (simp_all add: nat_less_iff del: nat_mod_distrib)
  have "((int (?n 3) * 16 + int (?n 2)) * 16 + int (?n 1)) * 16 + int (?n 0) = r"
    unfolding n(1) unfolding e div_by_1 by (rule r)
  then show thesis
    using that [of "?n 3" "?n 2" "?n 1" "?n 0", OF _ n(2) n(2) n(2) n(2)] by (simp only: unicode_escape_def list.map)
qed

lemma hex_char_ascii: "is_hex c \<Longrightarrow> byte c < 0x80"
  by (auto simp: is_hex_def is_digit_def)

lemma encode_rune_high:
  assumes "code_point r" "0x80 \<le> r" "c \<in> set (encode_rune r)"
  shows "0x80 \<le> byte c"
proof -
  define r' where "r' = (if scalar r then r else rune_error)"
  have r': "scalar r'" "encode_rune r = encode_rune r'" "0x80 \<le> r'"
    using assms(2) by (auto simp: r'_def scalar_def encode_rune_def)
  have b: "0x80 \<le> byte (char_of (k + a) :: char)" if "0x80 \<le> k" "0 \<le> a" "k + a < 0x100" for k a :: int
    using that byte_char_of [of "k + a"] by simp
  have m: "128 + x mod 64 < 0x100" for x :: int using pos_mod_bound [of 64 x] by linarith
  from r'(1) show ?thesis
  proof (cases rule: scalar_cases)
    case two
    then have "192 + r' div 64 < 0x100" "0 \<le> r' div 64" by simp_all
    with two assms(3) r' m show ?thesis by (auto simp: encode_rune_def simp del: of_char_of intro!: b)
  next
    case three
    then have "224 + r' div 4096 < 0x100" "0 \<le> r' div 4096" by simp_all
    with three assms(3) r' m show ?thesis by (auto simp: encode_rune_def simp del: of_char_of intro!: b)
  next
    case four
    then have "240 + r' div 262144 < 0x100" "0 \<le> r' div 262144" by simp_all
    with four assms(3) r' m show ?thesis by (auto simp: encode_rune_def simp del: of_char_of intro!: b)
  qed (use r'(3) in simp)
qed

lemma encode_rune_bytes:
  assumes "code_point r" "c \<in> set (encode_rune r)" "0x20 \<le> r" "r \<noteq> 0x22" "r \<noteq> 0x5C"
  shows "c \<noteq> CHR 0x22" "c \<noteq> CHR 0x5C" "32 \<le> byte c"
proof -
  have "c \<noteq> CHR 0x22 \<and> c \<noteq> CHR 0x5C \<and> 32 \<le> byte c"
  proof (cases "r < 0x80")
    case True
    with assms have c: "c = char_of r" by (simp add: encode_rune_def code_point_def)
    have b: "byte c = r" using True assms(1) by (simp add: c code_point_def byte_char_of)
    with assms show ?thesis by auto
  next
    case False
    with encode_rune_high [OF assms(1) _ assms(2)] have "0x80 \<le> byte c" by simp
    then show ?thesis by auto
  qed
  then show "c \<noteq> CHR 0x22" "c \<noteq> CHR 0x5C" "32 \<le> byte c" by blast+
qed

section \<open>The decoder on the text of a string\<close>

lemma string_body_plain:
  "\<forall>c \<in> set s. c \<noteq> CHR 0x22 \<and> c \<noteq> CHR 0x5C \<and> 32 \<le> byte c \<Longrightarrow>
   string_body (s @ t) = map_option (\<lambda>(b, r). (s @ b, r)) (string_body t)"
  by (induction s) (auto simp: option.map_comp comp_def case_prod_unfold option.map_id0 map_option_case split: option.split)

text \<open>The escapes of one code point.\<close>

lemma json_escape_cases [consumes 1, case_names short unicode plain]:
  assumes "code_point r"
  obtains e where "json_escape r = [CHR 0x5C, e]" "escaped e = char_of r" "0 \<le> r" "r < 0x80"
      "e \<in> {CHR ''b'', CHR ''f'', CHR ''n'', CHR ''r'', CHR ''t'', CHR 0x5C, CHR 0x22}"
    | "json_escape r = unicode_escape r" "0 \<le> r" "r < 0x10000"
    | "json_escape r = encode_rune r" "scalar r" "0x20 \<le> r" "r \<noteq> 0x22" "r \<noteq> 0x5C"
proof -
  consider "r = 0x22 \<or> r = 0x5C \<or> r = 8 \<or> r = 12 \<or> r = 10 \<or> r = 13 \<or> r = 9"
    | "\<not> (r = 0x22 \<or> r = 0x5C \<or> r = 8 \<or> r = 12 \<or> r = 10 \<or> r = 13 \<or> r = 9)" "r < 0x20 \<or> high r \<or> low r"
    | "\<not> (r = 0x22 \<or> r = 0x5C)" "0x20 \<le> r" "\<not> high r" "\<not> low r"
    by linarith
  then show thesis
  proof cases
    case 1
    then show thesis 
      by (elim disjE) (rule that(1), (auto simp: json_escape_def escaped_def char_of_def)[5])+
  next
    case 2
    with assms show thesis by (intro that(2)) (auto simp: json_escape_def code_point_def high_def low_def)
  next
    case 3
    with assms show thesis by (intro that(3)) (auto simp: json_escape_def code_point_def high_def low_def scalar_def)
  qed
qed

lemma escape_read:
  assumes "code_point r"
  shows "string_body (json_escape r @ t) = map_option (\<lambda>(b, r'). (json_escape r @ b, r')) (string_body t)"
  using assms
proof (cases rule: json_escape_cases)
  case (short e)
  then show ?thesis by (auto simp: option.map_comp comp_def case_prod_unfold)
next
  case unicode
  then obtain a b c d where d: "unicode_escape r = [CHR 0x5C, CHR ''u'', digit_char a, digit_char b, digit_char c, digit_char d]"
    "a < 16" "b < 16" "c < 16" "d < 16" "r = ((int a * 16 + int b) * 16 + int c) * 16 + int d"
    by (rule_tac four_digits)
  show ?thesis by (simp add: unicode(1) d(1-5) hex_digit_char option.map_comp comp_def case_prod_unfold)
next
  case plain
  then show ?thesis using encode_rune_bytes [OF assms _ plain(3-5)] by (intro string_body_plain) (auto simp: plain(1))
qed

lemma escaped_read:
  "list_all code_point rs \<Longrightarrow>
   string_body (concat (map json_escape rs) @ CHR 0x22 # t) = Some (concat (map json_escape rs), t)"
  by (induction rs) (simp_all add: escape_read)

text \<open>What follows a high surrogate does not complete it.\<close>

lemma no_low_follows:
  assumes "unpaired (r # rs)" "list_all code_point rs" "high r"
  shows "\<not> (HasPrefix (concat (map json_escape rs)) [CHR 0x5C, CHR ''u''] \<and>
           0xDC00 \<le> u4 (drop 2 (concat (map json_escape rs))) \<and> u4 (drop 2 (concat (map json_escape rs))) < 0xE000)"
proof (cases rs)
  case (Cons x xs)
  with assms have x: "\<not> low x" "code_point x" by auto
  from x(2) show ?thesis
  proof (cases rule: json_escape_cases)
    case (short e)
    then show ?thesis by (auto simp: Cons)
  next
    case unicode
    then obtain a b c d where d: "unicode_escape x = [CHR 0x5C, CHR ''u'', digit_char a, digit_char b, digit_char c, digit_char d]"
      "a < 16" "b < 16" "c < 16" "d < 16" "x = ((int a * 16 + int b) * 16 + int c) * 16 + int d"
      by (rule_tac four_digits)
    have "u4 (drop 2 (concat (map json_escape rs))) = x" 
      using hex4 [OF d(2-5)] unfolding d(6) [symmetric] by (simp add: Cons unicode(1) d(1))
    with x(1) show ?thesis by (simp add: low_def)
  next
    case plain
    obtain c cs where c: "encode_rune x = c # cs" using encode_rune_nonempty [of x] by (cases "encode_rune x") auto
    with encode_rune_bytes [OF x(2) _ plain(3-5), of c] show ?thesis by (auto simp: Cons plain(1))
  qed
qed simp

lemma escaped_value:
  "unpaired rs \<Longrightarrow> list_all code_point rs \<Longrightarrow> json_string (concat (map json_escape rs)) = concat (map encode_rune rs)"
proof (induction rs)
  case (Cons r rs)
  let ?t = "concat (map json_escape rs)"
  have IH: "unquote 0 (chunks ?t) = concat (map encode_rune rs)"
    using Cons by (auto simp: json_string_def successively_Cons)
  from Cons.prems have "code_point r" by simp
  then show ?case
  proof (cases rule: json_escape_cases)
    case (short e)
    then have "byte e < 0x80" by auto
    with short have "unquote 0 (chunks ([CHR 0x5C, e] @ ?t)) = escaped e # unquote 0 (chunks ?t)"
      by (auto simp: chunks_ascii concat_chunks eval_nat_numeral)
    moreover have "encode_rune r = [char_of r]" using short(3,4) by (simp add: encode_rune_def)
    ultimately show ?thesis using IH short(1,2) by (simp add: json_string_def)
  next
    case unicode
    then obtain a b c d where d: "unicode_escape r = [CHR 0x5C, CHR ''u'', digit_char a, digit_char b, digit_char c, digit_char d]"
      "a < 16" "b < 16" "c < 16" "d < 16" "r = ((int a * 16 + int b) * 16 + int c) * 16 + int d"
      by (rule_tac four_digits)
    have asc: "byte (digit_char k) < 0x80" if "k < 16" for k using hex_char_ascii hex_digit_char [OF that] by blast
    have u: "u4 (digit_char a # digit_char b # digit_char c # digit_char d # ?t) = r" using hex4 [OF d(2-5)] d(6) by simp
    have "\<not> (0xD800 \<le> r \<and> r < 0xDC00 \<and> HasPrefix ?t [CHR 0x5C, CHR ''u''] \<and> 0xDC00 \<le> u4 (drop 2 ?t) \<and> u4 (drop 2 ?t) < 0xE000)"
      using no_low_follows [OF Cons.prems(1)] Cons.prems(2) by (auto simp: high_def)
    then have "unquote 0 (chunks (unicode_escape r @ ?t)) = encode_rune r @ unquote 0 (chunks ?t)"
      using u by (auto simp: d(1) chunks_ascii asc [OF d(2)] asc [OF d(3)] asc [OF d(4)] asc [OF d(5)] concat_chunks numeral_eq_Suc)
    with IH unicode(1) show ?thesis by (simp add: json_string_def)
  next
    case plain
    obtain c cs where c: "encode_rune r = c # cs" using encode_rune_nonempty [of r] by (cases "encode_rune r") auto
    with encode_rune_bytes [OF \<open>code_point r\<close> _ plain(3-5), of c] have "encode_rune r \<noteq> [CHR 0x5C]" by auto
    with IH plain show ?thesis by (simp add: json_string_def chunks_encode)
  qed
qed (simp add: json_string_def)

text \<open>A string the script prints is read back as its UTF-8.\<close>

lemma text_read: "units us \<Longrightarrow> string_body (escaped_text us @ CHR 0x22 # t) = Some (escaped_text us, t)"
  unfolding escaped_text_def using code_points_ok by (intro escaped_read) blast

lemma text_value: "units us \<Longrightarrow> json_string (escaped_text us) = utf8 us"
  unfolding escaped_text_def utf8_def using code_points_ok by (intro escaped_value) blast+

section \<open>The decoder on the text of a body\<close>

text \<open>
  The text of a value, before a comma or a closing brace: with fuel enough and in an object that is not
  nested itself, the decoder reads it whole.
\<close>

definition reads :: "string \<Rightarrow> json \<Rightarrow> bool" where
  "reads tx v \<longleftrightarrow>
     (\<exists>f. \<forall>k c t. c \<in> {CHR '','', CHR ''}''} \<longrightarrow> json_value (f + k) 1 (tx @ c # t) = Some (v, c # t))"

lemma skip_space_solid: "\<not> json_space c \<Longrightarrow> skip_space (c # s) = c # s"
  by (simp add: skip_space_def)

lemma solid: "\<not> json_space (CHR ''{'')" "\<not> json_space (CHR ''}'')" "\<not> json_space (CHR '','')" "\<not> json_space (CHR '':'')"
  "\<not> json_space (CHR 0x22)" "\<not> json_space (CHR ''n'')" "is_digit d \<Longrightarrow> \<not> json_space d"
  by (auto simp: json_space_def is_digit_def)

lemma reads_quoted: "(\<And>t. string_body (raw @ CHR 0x22 # t) = Some (raw, t)) \<Longrightarrow> reads (quoted raw) (JStr raw)"
  unfolding reads_def by (intro exI [of _ 1]) (simp add: json_value.simps(2) quoted_def skip_space_solid solid)

lemma reads_null: "reads ''null'' JNull"
  unfolding reads_def by (intro exI [of _ 1]) (simp add: json_value.simps(2) skip_space_solid solid)

lemma FormatUint_hd: "0 < n \<Longrightarrow> hd (FormatUint n) \<noteq> CHR ''0''"
proof (induction n rule: less_induct)
  case (less n)
  show ?case
  proof (cases "n < 10")
    case True
    with less.prems digit_char_digit(2) [of n] show ?thesis by (auto simp: FormatUint_rec [of n] digit_val_def)
  next
    case False
    with less.IH [of "n div 10"] FormatUint_shape [of "n div 10"] show ?thesis by (simp add: FormatUint_rec [of n])
  qed
qed

lemma takeWhile_digits: "list_all is_digit s \<Longrightarrow> \<not> is_digit c \<Longrightarrow> takeWhile is_digit (s @ c # t) = s"
  by (induction s) simp_all

lemma number_read:
  assumes "c \<in> {CHR '','', CHR ''}''}"
  shows "number_literal (FormatUint n @ c # t) = Some (FormatUint n, c # t)"
proof -
  note shape = FormatUint_shape [of n]
  obtain d ds where d: "FormatUint n = d # ds" "is_digit d" using shape by (cases "FormatUint n") auto
  have c: "\<not> is_digit c" "c \<noteq> CHR ''.''" "c \<noteq> CHR ''e''" "c \<noteq> CHR ''E''" using assms by (auto simp: is_digit_def)
  have "whole_part (FormatUint n @ c # t) = (FormatUint n, c # t)"
  proof (cases "n = 0")
    case True
    moreover have "FormatUint 0 = ''0''" unfolding FormatUint_rec [of 0] by code_simp
    ultimately show ?thesis by (simp add: whole_part_def)
  next
    case False
    with FormatUint_hd [of n] have "d \<noteq> CHR ''0''" by (simp add: d(1))
    then have "\<not> HasPrefix (FormatUint n @ c # t) ''0''" by (simp add: d(1))
    with takeWhile_digits [of "FormatUint n" c t] shape c(1) show ?thesis by (simp add: whole_part_def Let_def)
  qed
  moreover have "d \<noteq> CHR ''-''" using d(2) by (auto simp: is_digit_def)
  then have "\<not> HasPrefix (FormatUint n @ c # t) ''-''" by (simp add: d(1))
  ultimately show ?thesis using shape c by (simp add: number_literal_def fraction_def exponent_def)
qed

lemma reads_number: "reads (FormatUint n) (JNum (FormatUint n))"
  unfolding reads_def
proof (intro exI [of _ 1] allI impI)
  fix k c t
  assume c: "c \<in> {CHR '','', CHR ''}''}"
  obtain d ds where d: "FormatUint n = d # ds" "is_digit d" using FormatUint_shape [of n] by (cases "FormatUint n") auto
  then have "d \<noteq> CHR ''{''" "d \<noteq> CHR ''[''" "d \<noteq> CHR 0x22" "d \<noteq> CHR ''t''" "d \<noteq> CHR ''f''" "d \<noteq> CHR ''n''"
    by (auto simp: is_digit_def)
  then show "json_value (1 + k) 1 (FormatUint n @ c # t) = Some (JNum (FormatUint n), c # t)"
    using number_read [OF c, of n t] by (simp add: json_value.simps(2) d skip_space_solid solid)
qed

text \<open>The keys are letters.\<close>

lemma member_read:
  assumes "\<forall>c \<in> set k. c \<noteq> CHR 0x22 \<and> c \<noteq> CHR 0x5C \<and> 32 \<le> byte c"
  shows "json_members (Suc f) 1 (member (k, tx) @ t) =
    (case json_value f 1 (tx @ t) of
       None \<Rightarrow> None
     | Some (v, r) \<Rightarrow>
         (case skip_space r of
            [] \<Rightarrow> None
          | c # r' \<Rightarrow>
              if c = CHR ''}'' then Some ([(k, v)], r')
              else if c = CHR '','' then map_option (\<lambda>(ms, r). ((k, v) # ms, r)) (json_members f 1 r')
              else None))"
  using string_body_plain [OF assms, of "CHR 0x22 # CHR '':'' # tx @ t"]
  by (simp add: json_members.simps(2) member_def quoted_def skip_space_solid solid del: One_nat_def)

lemma members_read:
  assumes "list_all2 (\<lambda>(k, tx) (k', v). k' = k \<and> reads tx v) ms vs" "ms \<noteq> []"
    "\<forall>kv \<in> set ms. \<forall>c \<in> set (fst kv). c \<noteq> CHR 0x22 \<and> c \<noteq> CHR 0x5C \<and> 32 \<le> byte c"
  shows "\<exists>f. \<forall>j. json_members (f + j) 1 (Join (map member ms) '','' @ CHR ''}'' # t) = Some (vs, t)"
  using assms
proof (induction ms arbitrary: vs)
  case (Cons m ms)
  obtain k tx where m: "m = (k, tx)" by force
  with Cons.prems(1) obtain v vs' where vs: "vs = (k, v) # vs'" "reads tx v"
    "list_all2 (\<lambda>(k, tx) (k', v). k' = k \<and> reads tx v) ms vs'"
    by (cases vs) auto
  from vs(2) obtain f where f: "c \<in> {CHR '','', CHR ''}''} \<Longrightarrow> json_value (f + j) 1 (tx @ c # r) = Some (v, c # r)" for j c r
    unfolding reads_def by blast
  have key: "\<forall>c \<in> set k. c \<noteq> CHR 0x22 \<and> c \<noteq> CHR 0x5C \<and> 32 \<le> byte c" using Cons.prems(3) by (simp add: m)
  show ?case
  proof (cases "ms = []")
    case True
    with vs(3) have "vs' = []" by simp
    with True show ?thesis
      by (intro exI [of _ "Suc f"]) (simp add: m vs(1) member_read [OF key] f skip_space_solid solid del: One_nat_def)
  next
    case False
    with Cons vs(3) obtain g where
      g: "json_members (g + j) 1 (Join (map member ms) '','' @ CHR ''}'' # t) = Some (vs', t)" for j
      by fastforce
    obtain m' ms' where "ms = m' # ms'" using False by (cases ms) auto
    then have "Join (map member (m # ms)) '','' @ CHR ''}'' # t = member m @ CHR '','' # Join (map member ms) '','' @ CHR ''}'' # t"
      by simp
    moreover have "json_value (f + g + j) 1 (tx @ CHR '','' # r) = Some (v, CHR '','' # r)" for j r
      using f [of "CHR '',''" "g + j" r] by (simp add: add.assoc)
    moreover have "json_members (f + g + j) 1 (Join (map member ms) '','' @ CHR ''}'' # t) = Some (vs', t)" for j
      using g [of "f + j"] by (simp add: ac_simps)
    ultimately show ?thesis
      by (intro exI [of _ "Suc (f + g)"]) (simp add: m vs(1) member_read [OF key] skip_space_solid solid del: One_nat_def)
  qed
qed simp

lemma object_read:
  assumes "list_all2 (\<lambda>(k, tx) (k', v). k' = k \<and> reads tx v) ms vs" "ms \<noteq> []"
    "\<forall>kv \<in> set ms. \<forall>c \<in> set (fst kv). c \<noteq> CHR 0x22 \<and> c \<noteq> CHR 0x5C \<and> 32 \<le> byte c"
  shows "json_decode (object_text ms) = Some (JObj vs)"
proof -
  obtain f where f: "json_members (f + j) 1 (Join (map member ms) '','' @ CHR ''}'' # []) = Some (vs, [])" for j
    using members_read [OF assms, of "[]"] by blast
  obtain m ms' where m: "ms = m # ms'" using assms(2) by (cases ms) auto
  have first: "\<exists>r. Join (map member ms) '','' = CHR 0x22 # r"
    by (cases ms') (simp_all add: m member_def quoted_def)
  have "json_value (Suc (f + j)) 0 (object_text ms) = Some (JObj vs, [])" for j
    using f [of j] first
    by (auto simp: json_value.simps(2) object_text_def skip_space_solid solid max_depth_def)
  from this [of "2 * length (object_text ms)"] show ?thesis
    using json_decode_fuel [of "object_text ms" f] by (simp add: add.commute)
qed

section \<open>The round trip\<close>

fun payload_of :: "body \<Rightarrow> payload" where
  "payload_of (PageviewBody d u r w) =
     zero_payload\<lparr>p_Name := ''pageview'', p_Domain := utf8 d, p_URL := utf8 u, p_Referrer := utf8 r, p_Width := int w\<rparr>"
| "payload_of (EngagementBody d u e) =
     zero_payload\<lparr>p_Name := ''engagement'', p_Domain := utf8 d, p_URL := utf8 u, p_Engaged := of_int e\<rparr>"
| "payload_of (EventBody n d u p) = zero_payload\<lparr>p_Name := utf8 n, p_Domain := utf8 d, p_URL := utf8 u\<rparr>"

text \<open>Strings are UTF-16, a width is a 64-bit number, the properties are the text of a JSON value.\<close>

definition props_ok :: "string option \<Rightarrow> bool" where
  "props_ok p \<longleftrightarrow> (\<forall>tx. p = Some tx \<longrightarrow> (\<exists>v. reads tx v))"

fun sendable :: "body \<Rightarrow> bool" where
  "sendable (PageviewBody d u r w) = (units d \<and> units u \<and> units r \<and> w < 2 ^ 63)"
| "sendable (EngagementBody d u e) = (units d \<and> units u \<and> 1 \<le> e \<and> e \<le> 3600)"
| "sendable (EventBody n d u p) = (units n \<and> units d \<and> units u \<and> props_ok p)"

lemma unquote_plain: "list_all (\<lambda>c. byte c < 0x80 \<and> c \<noteq> CHR 0x5C) s \<Longrightarrow> json_string s = s"
proof (induction s)
  case (Cons c s)
  moreover have "\<not> byte c < 0" by (simp only: not_less byte_range)
  then have "encode_rune (byte c) = [c]" if "byte c < 0x80" using that by (simp add: encode_rune_def)
  ultimately show ?case by (simp add: json_string_def chunks_ascii)
qed (simp add: json_string_def)

lemma keys [simp]:
  "json_string ''n'' = ''n''" "json_string ''d'' = ''d''" "json_string ''u'' = ''u''" "json_string ''r'' = ''r''"
  "json_string ''w'' = ''w''" "json_string ''e'' = ''e''" "json_string ''p'' = ''p''"
  "json_string ''pageview'' = ''pageview''" "json_string ''engagement'' = ''engagement''"
  by (rule unquote_plain, simp)+

lemma reads_word: "list_all (\<lambda>c. c \<noteq> CHR 0x22 \<and> c \<noteq> CHR 0x5C \<and> 32 \<le> byte c) s \<Longrightarrow> reads (quoted s) (JStr s)"
  by (intro reads_quoted) (simp add: string_body_plain list_all_iff)

lemma reads_text: "units us \<Longrightarrow> reads (quoted (escaped_text us)) (JStr (escaped_text us))"
  by (intro reads_quoted) (rule text_read)

lemma ParseInt_FormatUint: "n < 2 ^ 63 \<Longrightarrow> ParseInt (FormatUint n) = Some (int n)"
  using Atoi_FormatUint [of n] by (simp add: Atoi_def)

lemma literal_value_FormatUint: "literal_value (FormatUint n) = of_nat n"
proof -
  note shape = FormatUint_shape [of n]
  have d: "\<forall>c \<in> set (FormatUint n). c \<noteq> CHR ''e'' \<and> c \<noteq> CHR ''E'' \<and> c \<noteq> CHR ''.'' \<and> c \<noteq> CHR ''-''"
    using shape by (auto simp: list_all_iff is_digit_def)
  then have h: "\<not> HasPrefix (FormatUint n) ''-''" using shape by (cases "FormatUint n") auto
  have t: "takeWhile (\<lambda>c. c \<noteq> CHR ''e'' \<and> c \<noteq> CHR ''E'') (FormatUint n) = FormatUint n"
    "takeWhile (\<lambda>c. c \<noteq> CHR ''.'') (FormatUint n) = FormatUint n"
    using d by (auto simp: takeWhile_eq_all_conv)
  have "decimal (FormatUint n) = int n" "decimal [] = 0" using shape by (simp_all add: decimal_def)
  then show ?thesis by (simp add: literal_value_def Cut_def Let_def t h)
qed

lemma ParseFloat_FormatUint: "n \<le> 2 ^ 53 \<Longrightarrow> ParseFloat (FormatUint n) = Some (of_nat n)"
proof -
  assume n: "n \<le> 2 ^ 53"
  then have "int n \<le> 2 ^ 53" by (metis of_nat_le_iff of_nat_numeral of_nat_power)
  then have "fl (of_nat n) = of_nat n" using fl_of_int [of "int n"] by simp
  moreover have "(of_nat n :: rat) < 2 ^ 1024"
  proof -
    have "(of_nat n :: rat) \<le> of_nat (2 ^ 53)" using n by (simp only: of_nat_le_iff)
    also have "\<dots> < 2 ^ 1024" by (simp add: power_strict_increasing)
    finally show ?thesis .
  qed
  ultimately show ?thesis by (simp add: ParseFloat_def literal_value_FormatUint Let_def)
qed

text \<open>The bodies, member by member.\<close>

lemma body_read_back:
  assumes "sendable b"
  shows "decode_payload (stringify b) = Some (payload_of b)"
proof -
  have plain: "\<forall>kv \<in> set (members b). \<forall>c \<in> set (fst kv). c \<noteq> CHR 0x22 \<and> c \<noteq> CHR 0x5C \<and> 32 \<le> byte c" "members b \<noteq> []"
    by (cases b; simp)+
  note read = object_read [OF _ plain(2,1)]
  show ?thesis
  proof (cases b)
    case (PageviewBody d u r w)
    with assms have u: "units d" "units u" "units r" "w < 2 ^ 63" by simp_all
    have "json_decode (stringify b) = Some (JObj [(''n'', JStr ''pageview''), (''d'', JStr (escaped_text d)),
        (''u'', JStr (escaped_text u)), (''r'', JStr (escaped_text r)), (''w'', JNum (FormatUint w))])"
      unfolding stringify_def using u by (intro read) (simp add: PageviewBody reads_word reads_text reads_number)
    with u show ?thesis
      by (simp add: PageviewBody decode_payload_def decode_member_def text_value ParseInt_FormatUint)
  next
    case (EngagementBody d u e)
    with assms have u: "units d" "units u" "1 \<le> e" "e \<le> 3600" by simp_all
    have "json_decode (stringify b) = Some (JObj [(''n'', JStr ''engagement''), (''d'', JStr (escaped_text d)),
        (''u'', JStr (escaped_text u)), (''e'', JNum (FormatUint (nat e)))])"
      unfolding stringify_def using u by (intro read) (simp add: EngagementBody reads_word reads_text reads_number)
    moreover have "ParseFloat (FormatUint (nat e)) = Some (of_int e)" using ParseFloat_FormatUint [of "nat e"] u by simp
    ultimately show ?thesis using u by (simp add: EngagementBody decode_payload_def decode_member_def text_value)
  next
    case (EventBody n d u p)
    with assms have u: "units n" "units d" "units u" "props_ok p" by simp_all
    obtain v where v: "reads (case p of None \<Rightarrow> ''null'' | Some text \<Rightarrow> text) v"
      using u(4) reads_null by (cases p) (auto simp: props_ok_def)
    have "json_decode (stringify b) = Some (JObj [(''n'', JStr (escaped_text n)), (''d'', JStr (escaped_text d)),
        (''u'', JStr (escaped_text u)), (''p'', v)])"
      unfolding stringify_def using u v by (intro read) (simp add: EventBody reads_text)
    with u show ?thesis by (simp add: EventBody decode_payload_def decode_member_def text_value)
  qed
qed

section \<open>A run, end to end\<close>

definition page_ok :: "page \<Rightarrow> bool" where
  "page_ok pg \<longleftrightarrow> units (pg_href pg) \<and> units (pg_referrer pg) \<and> pg_innerWidth pg < 2 ^ 63"

fun op_ok :: "script_op \<Rightarrow> bool" where
  "op_ok (Navigated pg nws) = page_ok pg"
| "op_ok (Hidden pg nw) = page_ok pg"
| "op_ok (Reported name props pg nw) = ((case js_String name of None \<Rightarrow> True | Some us \<Rightarrow> units us) \<and> props_ok props \<and> page_ok pg)"
| "op_ok (Answered ok) = True"

lemma flush_sendable: "units site \<Longrightarrow> page_ok pg \<Longrightarrow> \<forall>b \<in> set (snd (flush site pg nw s)). sendable b"
  by (auto simp: flush_def Let_def page_ok_def dest!: post_only split: if_splits)

lemma step_sendable: "units site \<Longrightarrow> op_ok op \<Longrightarrow> \<forall>b \<in> set (snd (script_step site op s)). sendable b"
proof (cases op)
  case (Navigated pg nws)
  assume "units site" "op_ok op"
  then have "page_ok pg" "sendable (PageviewBody site (pg_href pg) (pg_referrer pg) (pg_innerWidth pg))"
    by (simp_all add: Navigated page_ok_def)
  with flush_sendable [OF \<open>units site\<close>, of pg "fst nws" s] show ?thesis
    by (auto simp: Navigated pageview_def Let_def case_prod_unfold dest!: post_only)
next
  case (Reported name props pg nw)
  assume "units site" "op_ok op"
  then have "sendable (EventBody (take 64 us) site (pg_href pg) props)" if "js_String name = Some us" for us
    using set_take_subset [of 64 us] that by (auto simp: Reported page_ok_def units_def)
  then show ?thesis by (auto simp: Reported custom_event_def dest!: post_only split: option.splits if_splits)
qed (simp_all add: flush_sendable)

lemma run_sendable:
  "units site \<Longrightarrow> list_all op_ok ops \<Longrightarrow> \<forall>b \<in> set (snd (script_run site ops s)). sendable b"
proof (induction ops arbitrary: s)
  case (Cons op ops)
  then show ?case
    using step_sendable [of site op s] Cons.IH [of "fst (script_step site op s)"]
    by (auto simp: Let_def case_prod_unfold)
qed simp

lemma reserved_names: "ToLower lower (TrimSpace ''pageview'') = ''pageview''" "ToLower lower (TrimSpace ''engagement'') = ''engagement''"
  by (code_simp, code_simp)

text \<open>The validation of a pageview or an engagement depends on its address only.\<close>

lemma body_valid:
  assumes "sendable b" "\<not> is_EventBody b" "utf8 (b_u b) \<noteq> []" "length (utf8 (b_u b)) \<le> 2048"
  shows "\<exists>p. validate lower (payload_of b) = Some p \<and> p_Name p = p_Name (payload_of b) \<and> p_URL p = utf8 (b_u b) \<and>
           p_Engaged p = p_Engaged (payload_of b)"
proof (cases b)
  case (PageviewBody d u r w)
  with assms show ?thesis by (simp add: validate_def reserved_names zero_payload_def Let_def)
next
  case (EngagementBody d u e)
  with assms have "(0 :: rat) \<le> of_int e" "of_int e \<le> (3600 :: rat)" by simp_all
  with assms EngagementBody show ?thesis by (simp add: validate_def reserved_names zero_payload_def Let_def not_less)
next
  case (EventBody n d u p)
  with assms show ?thesis by simp
qed

text \<open>
  C9: Every body the script sends in any history of a page, printed with \<open>JSON.stringify\<close> and decoded by the
  ingest handler, gives back the payload it stands for: the strings as UTF-8 with lone surrogates
  replaced, the width and the seconds as numbers, no field refused as unknown. A pageview or an
  engagement whose address is between 1 and 2048 bytes also passes the handler's validation, with its name, its address
  and its seconds unchanged.
\<close>

theorem sent_body_is_read_back:
  assumes "units site" "list_all op_ok ops" "b \<in> set (snd (script_run site ops loaded_script))"
  shows "decode_payload (stringify b) = Some (payload_of b) \<and>
    (\<not> is_EventBody b \<and> utf8 (b_u b) \<noteq> [] \<and> length (utf8 (b_u b)) \<le> 2048 \<longrightarrow>
       (\<exists>p. validate lower (payload_of b) = Some p \<and> p_Name p = p_Name (payload_of b) \<and> p_URL p = utf8 (b_u b) \<and>
            p_Engaged p = p_Engaged (payload_of b)))"
proof -
  have "sendable b" using run_sendable [OF assms(1,2)] assms(3) by blast
  then show ?thesis using body_read_back body_valid by blast
qed

theorem sent_body_is_read_back_witness:
  "decode_payload (stringify (PageviewBody (js ''a.com'') (js ''https://a.com/one'') [] 800)) =
     Some \<lparr>p_Name = ''pageview'', p_Domain = ''a.com'', p_URL = ''https://a.com/one'', p_Referrer = [], p_Width = 800, p_Engaged = 0\<rparr> \<and>
   (\<exists>p. validate (\<lambda>r. r) (payload_of (PageviewBody (js ''a.com'') (js ''https://a.com/one'') [] 800)) = Some p \<and>
        p_Name p = ''pageview'')"
proof -
  let ?b = "PageviewBody (js ''a.com'') (js ''https://a.com/one'') [] 800"
  have a: "units (js ''a.com'')" "list_all op_ok [Navigated (example_page ''/one'' 5000) (example_network, example_network)]"
    by (simp_all add: units_def page_ok_def example_page_def)
  have m: "?b \<in> set (snd (script_run (js ''a.com'') [Navigated (example_page ''/one'' 5000) (example_network, example_network)]
      loaded_script))"
    by (simp add: pageview_def flush_def post_def loaded_script_def example_page_def example_network_def)
  from sent_body_is_read_back [OF a m, of "\<lambda>r. r"]
  have "decode_payload (stringify ?b) = Some (payload_of ?b)"
    "utf8 (b_u ?b) \<noteq> [] \<and> length (utf8 (b_u ?b)) \<le> 2048 \<longrightarrow>
       (\<exists>p. validate (\<lambda>r. r) (payload_of ?b) = Some p \<and> p_Name p = p_Name (payload_of ?b))"
    by (blast, auto)
  moreover have u: "utf8 (js ''a.com'') = ''a.com''" "utf8 (js ''https://a.com/one'') = ''https://a.com/one''" "utf8 [] = []"
    by (code_simp, code_simp, code_simp)
  ultimately show ?thesis unfolding body.sel payload_of.simps u by (simp add: zero_payload_def)
qed

section \<open>Names of events\<close>

text \<open>
  The script keeps the two reserved names from an event by comparing them as written, the handler trims and
  lowers a name before it reads it: an event named with a capital is counted as a pageview.
\<close>

theorem capital_event_is_a_pageview:
  "\<exists>b. snd (custom_event (js ''a.com'') (VString (js ''Pageview'')) None (example_page ''/'' 0) example_network loaded_script) = [b] \<and>
       map_option p_Name (validate lower (payload_of b)) = Some ''pageview''"
proof -
  have t: "ToLower lower (TrimSpace (utf8 (js ''Pageview''))) = ''pageview''" "utf8 (js ''https://a.com/'') = ''https://a.com/''"
    by (code_simp, code_simp)
  show ?thesis
    by (rule exI [of _ "EventBody (js ''Pageview'') (js ''a.com'') (js ''https://a.com/'') None"])
      (simp add: custom_event_def post_def loaded_script_def example_page_def example_network_def validate_def zero_payload_def
        t [simplified] Let_def)
qed

text \<open>The script cuts a name to 64 units, the handler refuses one of more than 64 bytes.\<close>

lemma code_points_replicate: "\<not> high u \<Longrightarrow> code_points (replicate n u) = replicate n u"
proof (induction n)
  case (Suc n)
  then show ?case by (cases n) simp_all
qed simp

theorem cut_name_is_refused:
  assumes "lower 0xE9 = 0xE9"
  shows "validate lower (payload_of (EventBody (take 64 (replicate 64 0xE9)) d u p)) = None"
proof -
  let ?rs = "replicate 64 0xE9 :: int list"
  have u: "utf8 ?rs = concat (map encode_rune ?rs)" 
    unfolding utf8_def by (subst code_points_replicate) (simp_all add: high_def del: map_replicate)
  have cs: "chunks (concat (map encode_rune ?rs)) = map (\<lambda>r. (r, encode_rune r)) ?rs"
    using chunks_encoded [of ?rs "[]"] by (simp add: scalar_def del: map_replicate)
  have keep: "dropWhile (is_space \<circ> fst) (replicate 64 x) = replicate 64 x" if "\<not> is_space (fst x)" for x :: "int \<times> string"
    using that by (intro dropWhile_eq_self_iff [THEN iffD2]) simp
  have "TrimSpace (concat (map encode_rune ?rs)) = concat (map encode_rune ?rs)"
    unfolding TrimSpace_def cs by (simp add: keep is_space_def)
  moreover have "\<not> is_ascii (concat (map encode_rune ?rs))"
    by (auto simp: is_ascii_def encode_rune_def)
  then have "ToLower lower (concat (map encode_rune ?rs)) = concat (map encode_rune ?rs)"
    unfolding ToLower_def cs using assms by (simp add: lower_rune_def)
  moreover have "length (concat (map encode_rune ?rs)) = 128"
    by (simp add: length_concat sum_list_replicate encode_rune_def)
  ultimately have "64 < length (ToLower lower (TrimSpace (utf8 ?rs)))" unfolding u by simp
  then show ?thesis by (simp add: validate_def Let_def)
qed

section \<open>Signatures\<close>

text \<open>The text a client sends of its signature: two lower-case digits for each byte.\<close>

definition hex_byte :: "char \<Rightarrow> string" where
  "hex_byte c = [digit_char (nat (byte c div 16)), digit_char (nat (byte c mod 16))]"

definition hex_encode :: "string \<Rightarrow> string" where
  "hex_encode s = concat (map hex_byte s)"

lemma byte_digit: "d < 16 \<Longrightarrow> byte (digit_char d) = (if d < 10 then 48 + int d else 87 + int d)"
proof (cases "d < 10")
  case False
  assume "d < 16"
  have "(of_char (char_of (87 + d) :: char) :: nat) = (87 + d) mod 256" by (rule of_char_of)
  then have "(of_char (digit_char d) :: nat) = 87 + d" using \<open>d < 16\<close> False by (simp add: digit_char_def)
  then have "byte (digit_char d) = 87 + int d" by (metis of_nat_add of_nat_numeral of_nat_of_char)
  with False show ?thesis by simp
qed (simp add: digit_char_byte)

lemma hex_lower:
  assumes "is_hex a"
  shows "0 \<le> hex_val a" "hex_val a < 16" "lower_byte a = digit_char (nat (hex_val a))"
proof -
  show v: "0 \<le> hex_val a" "hex_val a < 16" using assms by (auto simp: is_hex_def is_digit_def hex_val_def)
  then have "byte (digit_char (nat (hex_val a))) = (if hex_val a < 10 then 48 + hex_val a else 87 + hex_val a)"
    by (subst byte_digit) auto
  also have "\<dots> = byte (lower_byte a)"
    using assms by (auto simp: is_hex_def is_digit_def hex_val_def lower_byte_range)
  finally show "lower_byte a = digit_char (nat (hex_val a))" by simp
qed

lemma hex_of_digit:
  assumes "d < 16" "lower_byte a = digit_char d"
  shows "is_hex a" "hex_val a = int d"
proof -
  have "byte (lower_byte a) = (if d < 10 then 48 + int d else 87 + int d)" using byte_digit [OF assms(1)] assms(2) by simp
  then show "is_hex a" "hex_val a = int d"
    using assms(1) by (auto simp: is_hex_def is_digit_def hex_val_def lower_byte_range split: if_splits)
qed

lemma hex_byte_iff:
  "map lower_byte [a, b] = hex_byte c \<longleftrightarrow> is_hex a \<and> is_hex b \<and> c = char_of (16 * hex_val a + hex_val b)"
proof -
  have "byte c \<le> 255" using byte_range(2) [of c] by linarith
  then have c: "0 \<le> byte c div 16" "byte c div 16 < 16" "0 \<le> byte c mod 16" "byte c mod 16 < 16"
    using zdiv_mono1 [of "byte c" 255 16] by (simp_all add: pos_imp_zdiv_nonneg_iff)
  show ?thesis
  proof
    assume "map lower_byte [a, b] = hex_byte c"
    then have "is_hex a \<and> hex_val a = byte c div 16" "is_hex b \<and> hex_val b = byte c mod 16"
      using hex_of_digit [of "nat (byte c div 16)" a] hex_of_digit [of "nat (byte c mod 16)" b] c by (auto simp: hex_byte_def)
    then show "is_hex a \<and> is_hex b \<and> c = char_of (16 * hex_val a + hex_val b)" by simp
  next
    assume h: "is_hex a \<and> is_hex b \<and> c = char_of (16 * hex_val a + hex_val b)"
    then have v: "0 \<le> hex_val a" "hex_val a < 16" "0 \<le> hex_val b" "hex_val b < 16" using hex_lower by blast+
    then have "byte c = 16 * hex_val a + hex_val b" using h byte_char_of [of "16 * hex_val a + hex_val b"] by simp
    then have "byte c div 16 = hex_val a" "byte c mod 16 = hex_val b" using v by simp_all
    with h hex_lower show "map lower_byte [a, b] = hex_byte c" by (simp add: hex_byte_def)
  qed
qed

lemma hex_decode_iff: "hex_decode s = Some bs \<longleftrightarrow> map lower_byte s = hex_encode bs"
proof (induction s arbitrary: bs rule: hex_decode.induct)
  case 1
  then show ?case by (cases bs) (simp_all add: hex_encode_def hex_byte_def)
next
  case (2 a)
  then show ?case by (cases bs) (simp_all add: hex_encode_def hex_byte_def)
next
  case (3 a b s)
  show ?case
  proof (cases bs)
    case Nil
    then show ?thesis by (simp add: hex_encode_def)
  next
    case (Cons c cs)
    have "map lower_byte (a # b # s) = hex_encode bs \<longleftrightarrow> map lower_byte [a, b] = hex_byte c \<and> map lower_byte s = hex_encode cs"
      by (auto simp: Cons hex_encode_def hex_byte_def)
    with 3 [of cs] hex_byte_iff [of a b c] show ?thesis by (auto simp: Cons)
  qed
qed

text \<open>
  C11: The signature check accepts exactly the HMAC. A signature is valid for a body under a key when, and only
  when, it is the hexadecimal text of HMAC-SHA256 of the body under that key, its letters in either case: no
  other length, no prefix and no malformed text passes, and a client that signs this way is never refused.
\<close>

theorem signature_iff: "validSignature key body sig \<longleftrightarrow> map lower_byte sig = hex_encode (hmac_sha256 key body)"
  by (auto simp: validSignature_def hex_decode_iff [symmetric] split: option.split)

end
