(* ===== verification/Ports.thy ===== *)
theory Ports
  imports Daemon_Runs Metrics
begin

text \<open>
  The two listeners \<open>run\<close> opens in \<open>cmd/ridiculytics/main.go\<close>: events come in at one port, metrics go out
  at the other.

  \<^item> \<open>listener\<close>: an \<open>http.Server\<close>, its address and its timeouts; \<open>ingest_port\<close>, \<open>metrics_port\<close>: what each answers
    to a request for a path. The mux of the standard library finds a handler by the whole path.
  \<^item> \<open>front\<close>: the part of the daemon the answers at the ingest port depend on;
    \<open>ingest_port_reveals_nothing\<close>: nothing else can be told from them.
\<close>

section \<open>The listeners\<close>

text \<open>A timeout of zero is none.\<close>

record listener =
  ls_Addr :: string
  ls_ReadHeaderTimeout :: duration
  ls_ReadTimeout :: duration
  ls_WriteTimeout :: duration
  ls_IdleTimeout :: duration

definition ingest_listener :: "'re config \<Rightarrow> listener" where
  "ingest_listener cfg =
     \<lparr>ls_Addr = IngestAddr (Server cfg), ls_ReadHeaderTimeout = 5 * second_ns, ls_ReadTimeout = 10 * second_ns,
      ls_WriteTimeout = 10 * second_ns, ls_IdleTimeout = 60 * second_ns\<rparr>"

definition metrics_listener :: "'re config \<Rightarrow> listener" where
  "metrics_listener cfg =
     \<lparr>ls_Addr = MetricsAddr (Server cfg), ls_ReadHeaderTimeout = 5 * second_ns, ls_ReadTimeout = 0, ls_WriteTimeout = 0,
      ls_IdleTimeout = 0\<rparr>"

text \<open>
  \<open>main\<close> and \<open>run\<close> with the two flags, up to where \<open>run\<close> waits: an exit status, or the two listeners and the daemon
  behind them.
\<close>

definition launch ::
  "('s, 're, 'db) outside \<Rightarrow> stat \<Rightarrow> surroundings \<Rightarrow> 'db files \<times> time \<Rightarrow> string option \<Rightarrow> time \<Rightarrow> bool \<Rightarrow> string \<Rightarrow>
     (nat + listener \<times> listener \<times> ('s, 're, 'db) daemon) option" where
  "launch os stat sr w rand clock showVersion path =
     (if showVersion then Some (Inl 0)
      else
        (case start os stat sr w rand clock path of
           None \<Rightarrow> None
         | Some (Inl _) \<Rightarrow> Some (Inl 1)
         | Some (Inr d) \<Rightarrow>
             map_option (\<lambda>cfg. Inr (ingest_listener cfg, metrics_listener cfg, d)) (store_Get (dm_store d))))"

text \<open>The exit status tells a failed start from a version request; a started daemon has both listeners.\<close>

lemma launch_exit: "launch os stat sr w rand clock v path = Some (Inl code) \<Longrightarrow> code = (if v then 0 else 1)"
  by (auto simp: launch_def split: if_splits option.splits sum.splits)

lemma launch_serves:
  assumes "start os stat sr w rand clock path = Some (Inr d)"
  shows "\<exists>cfg. store_Get (dm_store d) = Some cfg \<and>
    launch os stat sr w rand clock False path = Some (Inr (ingest_listener cfg, metrics_listener cfg, d))"
proof -
  from assms have "daemon_ok os d" by (cases rule: start_cases) simp_all
  then show ?thesis using assms by (auto simp: launch_def daemon_ok_def config_ok_def)
qed

section \<open>The answers\<close>

datatype metrics_endpoint = ScrapeEndpoint | AliveEndpoint

definition metrics_routes :: "(string, metrics_endpoint) gomap" where
  "metrics_routes = [(''/metrics'', ScrapeEndpoint), (''/healthz'', AliveEndpoint)]"

text \<open>A scrape is what the vectors were told, what the handler counted and what the collector emits.\<close>

datatype answer =
    NotFound
  | Reply response
  | ScriptFile "(string, string) gomap" string
  | Scrape "metric_call list" "ingest_call list" "const_metric list"

definition metrics_port ::
  "'s scrape \<Rightarrow> string \<Rightarrow> ('s, 're, 'db) daemon \<Rightarrow> answer option" where
  "metrics_port sc path d =
     (case map_of metrics_routes path of
        None \<Rightarrow> Some NotFound
      | Some ScrapeEndpoint \<Rightarrow>
          map_option (Scrape (rg_calls (dm_reg d)) (dm_calls d))
            (Collect sc (Some (provider_DBAge (sc_now sc) (dm_geo d))) (dm_reg d))
      | Some AliveEndpoint \<Rightarrow> Some (Reply \<lparr>rs_code = 200, rs_header = [], rs_body = []\<rparr>))"

text \<open>A question at the ingest port: the path, the request, when it comes and how long it takes.\<close>

type_synonym question = "string \<times> request \<times> time \<times> duration"

text \<open>The routes are those of the start: a reload does not change whether the script is served.\<close>

definition ingest_port ::
  "('s, 're, 'db) outside \<Rightarrow> string \<Rightarrow> bool \<Rightarrow> question \<Rightarrow> ('s, 're, 'db) daemon \<Rightarrow>
     (('s, 're, 'db) daemon \<times> answer) option" where
  "ingest_port os counterJS serveJS q d =
     (let (path, rq, now, elapsed) = q in
      case map_of (Routes counterJS serveJS) path of
        None \<Rightarrow> Some (d, NotFound)
      | Some EventEndpoint \<Rightarrow> do {
          cfg \<leftarrow> store_Get (dm_store d);
          (srv, calls, rs) \<leftarrow> handleEvent (os_ingest os) cfg rq now elapsed (dm_srv d);
          Some (d\<lparr>dm_srv := srv, dm_calls := dm_calls d @ calls\<rparr>, Reply rs)
        }
      | Some HealthEndpoint \<Rightarrow> Some (d, Reply handle_health)
      | Some ScriptEndpoint \<Rightarrow> Some (d, ScriptFile script_headers counterJS))"

section \<open>What the answers depend on\<close>

definition front :: "('s, 're, 'db) daemon \<Rightarrow> 're store \<times> limiter \<times> bool" where
  "front d = (dm_store d, sv_limiter (dm_srv d), pl_closed (dm_queue d))"

text \<open>The outcome of the queue is not visible: an event that finds no room is answered like one that does.\<close>

lemma handle_post_front:
  assumes "sv_limiter s = sv_limiter s'" "pl_closed (sv_queue s) = pl_closed (sv_queue s')"
  shows "map_option (\<lambda>(s, calls, rs). (sv_limiter s, pl_closed (sv_queue s), rs)) (handle_post ie cfg r now s) =
         map_option (\<lambda>(s, calls, rs). (sv_limiter s, pl_closed (sv_queue s), rs)) (handle_post ie cfg r now s')"
  using assms
  by (auto simp: handle_post_def Let_def reject_def enqueue_def try_send_def case_prod_unfold split: sum.split)

lemma handleEvent_front:
  assumes "sv_limiter s = sv_limiter s'" "pl_closed (sv_queue s) = pl_closed (sv_queue s')"
  shows "map_option (\<lambda>(s, calls, rs). (sv_limiter s, pl_closed (sv_queue s), rs)) (handleEvent ie cfg r now elapsed s) =
         map_option (\<lambda>(s, calls, rs). (sv_limiter s, pl_closed (sv_queue s), rs)) (handleEvent ie cfg r now elapsed s')"
  using assms handle_post_front [OF assms, of ie cfg r now]
  by (simp add: handleEvent_def option.map_comp comp_def case_prod_unfold)

lemma ingest_port_front:
  assumes "front d = front d'"
  shows "map_option (map_prod front id) (ingest_port os js sj q d) = map_option (map_prod front id) (ingest_port os js sj q d')"
proof -
  obtain path rq now elapsed where q: "q = (path, rq, now, elapsed)" by (cases q)
  have f: "dm_store d = dm_store d'" "sv_limiter (dm_srv d) = sv_limiter (dm_srv d')" "pl_closed (dm_queue d) = pl_closed (dm_queue d')"
    using assms by (simp_all add: front_def)
  show ?thesis
  proof (cases "map_of (Routes js sj) path = Some EventEndpoint")
    case False
    then show ?thesis by (auto simp: ingest_port_def q assms split: option.split endpoint.split)
  next
    case True
    show ?thesis
    proof (cases "store_Get (dm_store d')")
      case None
      then show ?thesis by (simp add: ingest_port_def q True f(1))
    next
      case (Some cfg)
      let ?h = "\<lambda>d. handleEvent (os_ingest os) cfg rq now elapsed (dm_srv d)"
      have "map_option (map_prod front id) (ingest_port os js sj q e) =
          map_option (\<lambda>(l, c, rs). ((dm_store e, l, c), Reply rs))
            (map_option (\<lambda>(s, calls, rs). (sv_limiter s, pl_closed (sv_queue s), rs)) (?h e))"
        if "store_Get (dm_store e) = Some cfg" for e
        using that by (cases "?h e") (auto simp: ingest_port_def q True front_def)
      from this [of d] this [of d'] handleEvent_front [OF f(2,3), of "os_ingest os" cfg rq now elapsed] Some f(1) show ?thesis
        by simp
    qed
  qed
qed

text \<open>The steps that go unnoticed: the workers' and the last two parts of a signal among them.\<close>

definition hidden :: "('s, 're, 'db) outside \<Rightarrow> ('s, 're, 'db) daemon \<Rightarrow> ('s, 're, 'db) daemon \<Rightarrow> bool" where
  "hidden os d d' \<longleftrightarrow> daemon_step os d d' \<and> front d' = front d"

lemma hidden_receive:
  "pl_buf (dm_queue d) = e # rest \<Longrightarrow> length (pl_busy (dm_queue d)) < pl_workers (dm_queue d) \<Longrightarrow>
   hidden os d (d\<lparr>dm_srv := (dm_srv d)\<lparr>sv_queue := (dm_queue d)\<lparr>pl_buf := rest, pl_busy := pl_busy (dm_queue d) @ [e]\<rparr>\<rparr>\<rparr>)"
  unfolding hidden_def by (intro conjI daemon_step.receive) (simp_all add: front_def)

lemma hidden_finish:
  assumes "pl_busy (dm_queue d) = pre @ e # post"
    and "worker (os_env os) (os_ingest os) (dm_salt d) (Some (provider_Lookup (os_mmdb os) (dm_geo d, dm_heap d))) clock e
      (dm_reg d, dm_calls d) = Some (reg, calls)"
  shows "hidden os d (d\<lparr>dm_reg := reg, dm_calls := calls, dm_srv := (dm_srv d)\<lparr>sv_queue :=
      (dm_queue d)\<lparr>pl_busy := pre @ post, pl_recorded := pl_recorded (dm_queue d) @ [e]\<rparr>\<rparr>\<rparr>)"
  unfolding hidden_def using daemon_step.finish [OF assms] by (simp add: front_def)

lemma hidden_configure: "dm_phase d = ToConfigure \<Longrightarrow> signal_configure os d = Some d' \<Longrightarrow> hidden os d d'"
  unfolding hidden_def by (auto intro: daemon_step.configure simp: front_def signal_configure_def)

lemma hidden_reopen: "dm_phase d = ToReopen \<Longrightarrow> hidden os d (signal_reopen w d)"
  unfolding hidden_def by (intro conjI daemon_step.reopen) (simp_all add: front_def signal_reopen_def case_prod_unfold Let_def)

text \<open>A conversation at the ingest port, while the daemon goes on with the rest of its work.\<close>

inductive conversation ::
  "('s, 're, 'db) outside \<Rightarrow> string \<Rightarrow> bool \<Rightarrow> ('s, 're, 'db) daemon \<Rightarrow> question list \<Rightarrow> answer list \<Rightarrow> bool" for os js sj where
  silent: "conversation os js sj d [] []"
| meanwhile: "hidden os d d' \<Longrightarrow> conversation os js sj d' qs as \<Longrightarrow> conversation os js sj d qs as"
| asked: "ingest_port os js sj q d = Some (d', a) \<Longrightarrow> conversation os js sj d' qs as \<Longrightarrow>
    conversation os js sj d (q # qs) (a # as)"

inductive_cases conversation_silentE: "conversation os js sj d [] as"

lemma conversation_silent: "conversation os js sj d qs as \<Longrightarrow> qs = [] \<Longrightarrow> as = []"
  by (induction rule: conversation.induct) simp_all

lemma conversation_asked:
  "conversation os js sj d qs as \<Longrightarrow> qs = q # qs' \<Longrightarrow>
   \<exists>d1 d2 a as'. front d1 = front d \<and> ingest_port os js sj q d1 = Some (d2, a) \<and> conversation os js sj d2 qs' as' \<and> as = a # as'"
proof (induction rule: conversation.induct)
  case (meanwhile d d' qs as)
  then show ?case by (auto simp: hidden_def)
next
  case (asked q' d d' a qs as)
  then show ?case by blast
qed simp

text \<open>
  C12: Nothing on the ingest port can read aggregates back out. Two daemons that serve the same configuration
  and have the same rate limiter, whatever else they hold (the counts, the sessions, the events that wait,
  the salt, the databases), give the same answers to the same questions, however their workers and
  reloads interleave: a client learns nothing of what was counted, nor whether the queue had room.
\<close>

theorem ingest_port_reveals_nothing:
  assumes "conversation os js sj d qs as" and "conversation os js sj d' qs as'" and "front d = front d'"
  shows "as = as'"
  using assms
proof (induction arbitrary: d' as' rule: conversation.induct)
  case (silent d)
  then show ?case using conversation_silent by blast
next
  case (meanwhile d d1 qs as)
  then show ?case by (simp add: hidden_def)
next
  case (asked q d d1 a qs as)
  from conversation_asked [OF asked.prems(1)] obtain e1 e2 b bs where
    e: "front e1 = front d'" "ingest_port os js sj q e1 = Some (e2, b)" "conversation os js sj e2 qs bs" "as' = b # bs"
    by blast
  have "map_option (map_prod front id) (ingest_port os js sj q d) = map_option (map_prod front id) (ingest_port os js sj q e1)"
    using asked.prems(2) e(1) by (intro ingest_port_front) simp
  with asked.hyps(1) e(2) have "front d1 = front e2" "a = b" by simp_all
  with asked.IH [OF e(3)] e(4) show ?case by simp
qed

text \<open>The posted pageview of the example, asked of the started daemon and of one whose books are empty of sites.\<close>

definition example_forgetful :: "(u64 set, string, string) daemon" where
  "example_forgetful = example_daemon\<lparr>dm_reg := (dm_reg example_daemon)\<lparr>rg_sites := []\<rparr>, dm_calls := [GeoLookup ''hit'']\<rparr>"

theorem ingest_port_reveals_nothing_witness:
  "\<exists>srv calls rs. handleEvent (os_ingest example_outside) example_running example_request 7 3 (dm_srv example_daemon) = Some (srv, calls, rs) \<and>
     (\<forall>as. conversation example_outside [] True example_forgetful [(''/api/event'', example_request, 7, 3)] as \<longrightarrow> as = [Reply rs])"
proof -
  obtain srv calls rs where h: "handleEvent (os_ingest example_outside) example_running example_request 7 3 (dm_srv example_daemon) = Some (srv, calls, rs)"
    using example_queued by blast
  have "store_Get (dm_store example_daemon) = Some example_running" by (simp add: example_daemon_def store_Get_def)
  then have "ingest_port example_outside [] True (''/api/event'', example_request, 7, 3) example_daemon =
      Some (example_daemon\<lparr>dm_srv := srv, dm_calls := dm_calls example_daemon @ calls\<rparr>, Reply rs)"
    by (simp add: ingest_port_def Routes_def h)
  from conversation.asked [OF this conversation.silent]
  have c: "conversation example_outside [] True example_daemon [(''/api/event'', example_request, 7, 3)] [Reply rs]" .
  have "front example_forgetful = front example_daemon" by (simp add: front_def example_forgetful_def)
  from ingest_port_reveals_nothing [OF _ c this] have
    "\<forall>as. conversation example_outside [] True example_forgetful [(''/api/event'', example_request, 7, 3)] as \<longrightarrow> as = [Reply rs]" by blast
  with h show ?thesis by blast
qed

section \<open>The metrics port\<close>

text \<open>The paths of the ports are apart, and a scrape finds what the daemon holds.\<close>

lemma ports_apart:
  "path \<in> dom (map_of metrics_routes) \<Longrightarrow> ingest_port os js sj (path, rq, now, elapsed) d = Some (d, NotFound)"
  by (auto simp: metrics_routes_def ingest_port_def Routes_def split: if_splits)

end
