(* ===== verification/Service.thy ===== *)
theory Service
  imports Daemon_Runs
begin

text \<open>
  What the daemon promises, without its parts: a service that takes events of the sites it knows, keeps
  them waiting and counts each pageview once.

  \<^item> \<open>service\<close>, \<open>service_step\<close>: the specification. Events are lost in one place only, between the halves of
    a reload, when a new site is served but not known yet.
  \<^item> \<open>simulation\<close>: a step relation that follows another through an abstraction, as a locale.
  \<^item> \<open>view\<close>: the service a daemon implements; \<open>daemon_refines_service\<close>.
\<close>

section \<open>The specification\<close>

text \<open>An event that waits: its site, and whether it is a pageview.\<close>

record service =
  sp_waits :: "(string \<times> bool) multiset"
  sp_counted :: "string \<Rightarrow> nat"
  sp_lost :: "string \<Rightarrow> nat"
  sp_sites :: "string set"
  sp_loading :: bool
  sp_closed :: bool

definition initial_service :: "string set \<Rightarrow> service" where
  "initial_service ks =
     \<lparr>sp_waits = {#}, sp_counted = (\<lambda>_. 0), sp_lost = (\<lambda>_. 0), sp_sites = ks, sp_loading = False, sp_closed = False\<rparr>"

abbreviation bump :: "string \<times> bool \<Rightarrow> (string \<Rightarrow> nat) \<Rightarrow> string \<Rightarrow> nat" where
  "bump ev f \<equiv> (\<lambda>k. f k + (if ev = (k, True) then 1 else 0))"

inductive service_step :: "service \<Rightarrow> service \<Rightarrow> bool" where
  accept: "\<not> sp_closed s \<Longrightarrow> fst ev \<in> sp_sites s \<or> sp_loading s \<Longrightarrow>
    service_step s (s\<lparr>sp_waits := add_mset ev (sp_waits s)\<rparr>)"
| count: "sp_waits s = add_mset ev rest \<Longrightarrow> fst ev \<in> sp_sites s \<Longrightarrow>
    service_step s (s\<lparr>sp_waits := rest, sp_counted := bump ev (sp_counted s)\<rparr>)"
| lose: "sp_waits s = add_mset ev rest \<Longrightarrow> fst ev \<notin> sp_sites s \<Longrightarrow> sp_loading s \<Longrightarrow>
    service_step s (s\<lparr>sp_waits := rest, sp_lost := bump ev (sp_lost s)\<rparr>)"
| load: "\<not> sp_loading s \<Longrightarrow> service_step s (s\<lparr>sp_loading := True\<rparr>)"
| learn: "sp_loading s \<Longrightarrow> fst ` set_mset (sp_waits s) \<subseteq> sp_sites s \<union> ks \<Longrightarrow>
    service_step s (s\<lparr>sp_sites := sp_sites s \<union> ks, sp_loading := False\<rparr>)"
| close: "service_step s (s\<lparr>sp_closed := True\<rparr>)"

abbreviation service_steps :: "service \<Rightarrow> service \<Rightarrow> bool" where
  "service_steps \<equiv> service_step\<^sup>*\<^sup>*"

text \<open>Between reloads the service knows the site of every event that waits.\<close>

definition service_ok :: "service \<Rightarrow> bool" where
  "service_ok s \<longleftrightarrow> sp_loading s \<or> fst ` set_mset (sp_waits s) \<subseteq> sp_sites s"

lemma service_step_ok: "service_step s s' \<Longrightarrow> service_ok s \<Longrightarrow> service_ok s'"
  by (induction rule: service_step.induct) (auto simp: service_ok_def)

section \<open>Simulation\<close>

locale simulation =
  fixes step :: "'c \<Rightarrow> 'c \<Rightarrow> bool" and spec :: "'a \<Rightarrow> 'a \<Rightarrow> bool" and abs :: "'c \<Rightarrow> 'a" and ok :: "'c \<Rightarrow> bool"
  assumes keeps: "step c c' \<Longrightarrow> ok c \<Longrightarrow> ok c'"
    and follows: "step c c' \<Longrightarrow> ok c \<Longrightarrow> abs c' = abs c \<or> spec (abs c) (abs c')"
begin

lemma run_keeps: "step\<^sup>*\<^sup>* c c' \<Longrightarrow> ok c \<Longrightarrow> ok c'"
  by (induction rule: rtranclp_induct) (auto intro: keeps)

lemma run_follows: "step\<^sup>*\<^sup>* c c' \<Longrightarrow> ok c \<Longrightarrow> spec\<^sup>*\<^sup>* (abs c) (abs c')"
proof (induction rule: rtranclp_induct)
  case (step c1 c2)
  then have "abs c2 = abs c1 \<or> spec (abs c1) (abs c2)" using follows [of c1 c2] run_keeps [of c c1] by blast
  with step show ?case by (auto intro: rtranclp.rtrancl_into_rtrancl)
qed simp

text \<open>An invariant of the specification holds of what implements it.\<close>

lemma transfers:
  assumes "step\<^sup>*\<^sup>* c c'" "ok c" "P (abs c)" "\<And>a a'. spec a a' \<Longrightarrow> P a \<Longrightarrow> P a'"
  shows "P (abs c')"
proof -
  from run_follows [OF assms(1,2)] assms(3) show ?thesis by (induction rule: rtranclp_induct) (auto intro: assms(4))
qed

end

section \<open>The daemon\<close>

abbreviation event_of :: "'re raw \<Rightarrow> string \<times> bool" where
  "event_of e \<equiv> (Domain (ev_site e), p_Name (ev_p e) = ''pageview'')"

definition view :: "('s, 're, 'db) daemon \<Rightarrow> service" where
  "view d =
     \<lparr>sp_waits = image_mset event_of (mset (waiting d)),
      sp_counted = (\<lambda>k. tally FPageviews k (rg_calls (dm_reg d))),
      sp_lost = (\<lambda>k. pageviews_of k (pl_recorded (dm_queue d)) - tally FPageviews k (rg_calls (dm_reg d))),
      sp_sites = known_sites (dm_reg d), sp_loading = (dm_phase d = ToConfigure), sp_closed = pl_closed (dm_queue d)\<rparr>"

text \<open>What a request does to the queue: nothing, or one event more.\<close>

lemma handled_cases:
  assumes "handleEvent ie cfg rq now elapsed s = Some (s', calls, rs)"
  obtains "sv_queue s' = sv_queue s"
  | e where "\<not> pl_closed (sv_queue s)" "pl_closed (sv_queue s') = pl_closed (sv_queue s)"
      "pl_accepted (sv_queue s') = pl_accepted (sv_queue s) @ [e]" "pl_recorded (sv_queue s') = pl_recorded (sv_queue s)"
      "mset (pl_buf (sv_queue s') @ pl_busy (sv_queue s')) = add_mset e (mset (pl_buf (sv_queue s) @ pl_busy (sv_queue s)))"
proof (cases "rq_Method rq = ''POST''")
  case False
  with assms that(1) show thesis by (auto simp: handleEvent_def split: if_splits)
next
  case True
  from handleEvent_POST [OF this assms] obtain calls' where "handle_post ie cfg rq now s = Some (s', calls', rs)" .
  then show thesis
  proof (cases rule: handle_post_cases)
    case (sent site p l ok q)
    with that show thesis by (auto simp: try_send_def split: if_splits)
  qed (use that(1) in simp_all)
qed

lemma request_follows:
  assumes d: "daemon_ok os d" and g: "store_Get (dm_store d) = Some cfg"
    and h: "handleEvent (os_ingest os) cfg rq now elapsed (dm_srv d) = Some (srv, calls, rs)"
  shows "view (d\<lparr>dm_srv := srv, dm_calls := calls'\<rparr>) = view d \<or> service_step (view d) (view (d\<lparr>dm_srv := srv, dm_calls := calls'\<rparr>))"
  using h
proof (cases rule: handled_cases)
  case 1
  then show ?thesis by (simp add: view_def)
next
  case (2 e)
  obtain c0 where c: "finalize (ie_platform (os_ingest os)) c0 = Inr cfg"
      "dm_phase d \<noteq> ToConfigure \<longrightarrow> Domain ` set (Sites cfg) \<subseteq> known_sites (dm_reg d)"
    using d g by (auto simp: daemon_ok_def config_ok_def os_ingest_def)
  have "Domain (ev_site e) \<in> Domain ` set (Sites cfg)" using handleEvent_accepts [OF h c(1)] 2(3) by auto
  with c(2) have "fst (event_of e) \<in> sp_sites (view d) \<or> sp_loading (view d)" by (auto simp: view_def)
  moreover have "view (d\<lparr>dm_srv := srv, dm_calls := calls'\<rparr>) = (view d)\<lparr>sp_waits := add_mset (event_of e) (sp_waits (view d))\<rparr>"
    using 2 by (simp add: view_def)
  moreover have "\<not> sp_closed (view d)" using 2(1) by (simp add: view_def)
  ultimately show ?thesis using service_step.accept [of "view d" "event_of e"] by simp
qed

lemma finish_follows:
  assumes d: "daemon_ok os d" and b: "pl_busy (dm_queue d) = pre @ e # post"
    and w: "worker (os_env os) (os_ingest os) salt lookup clock e (dm_reg d, calls0) = Some (reg, calls)"
  shows "service_step (view d) (view (d\<lparr>dm_reg := reg, dm_calls := calls, dm_srv := (dm_srv d)\<lparr>sv_queue :=
      (dm_queue d)\<lparr>pl_busy := pre @ post, pl_recorded := pl_recorded (dm_queue d) @ [e]\<rparr>\<rparr>\<rparr>))"
    (is "service_step (view d) (view ?d)")
proof -
  have ok: "pool_ok (dm_queue d)" "books (dm_reg d)" "events_ok d" "counts_ok d"
    using d by (simp_all only: daemon_ok_def)
  have "e \<in># mset (pl_accepted (dm_queue d))" using ok(1) b by (auto simp: pool_ok_def)
  then have t: "timely (ev_at e)" using ok(3) by (auto simp: events_ok_def)
  have books: "known_sites reg = known_sites (dm_reg d)"
    "tally FPageviews k (rg_calls reg) = tally FPageviews k (rg_calls (dm_reg d)) +
      (if Domain (ev_site e) \<in> known_sites (dm_reg d) then pageviews_of k [e] else 0)" for k
    using worker_books [OF w ok(2) t] by blast+
  have one: "pageviews_of k [e] = (if event_of e = (k, True) then 1 else 0)" for k by (simp add: pageviews_of_def)
  have le: "tally FPageviews k (rg_calls (dm_reg d)) \<le> pageviews_of k (pl_recorded (dm_queue d))" for k
    using ok(4) by (simp add: counts_ok_def)
  let ?rest = "image_mset event_of (mset (pl_buf (dm_queue d) @ pre @ post))"
  have waits: "sp_waits (view d) = add_mset (event_of e) ?rest" by (simp add: view_def b)
  show ?thesis
  proof (cases "Domain (ev_site e) \<in> known_sites (dm_reg d)")
    case True
    then have "view ?d = (view d)\<lparr>sp_waits := ?rest, sp_counted := bump (event_of e) (sp_counted (view d))\<rparr>"
      unfolding view_def by (simp add: books one)
    with True service_step.count [OF waits] show ?thesis by (simp add: view_def)
  next
    case False
    have "e \<in> set (waiting d)" using b by simp
    with False waiting_known [OF d] have "dm_phase d = ToConfigure" by blast
    moreover have "view ?d = (view d)\<lparr>sp_waits := ?rest, sp_lost := bump (event_of e) (sp_lost (view d))\<rparr>"
      using False le unfolding view_def by (simp add: books one Suc_diff_le)
    ultimately show ?thesis using False service_step.lose [OF waits] by (simp add: view_def)
  qed
qed

lemma tick_follows: "maintain_tick os now rand clock d = Some d' \<Longrightarrow> daemon_ok os d \<Longrightarrow> view d' = view d"
proof -
  assume m: "maintain_tick os now rand clock d = Some d'" and d: "daemon_ok os d"
  obtain reg salt where reg: "Maintain (os_env os) now (dm_reg d) = Some reg"
      "d' = d\<lparr>dm_reg := reg, dm_srv := server_Sweep now (dm_srv d), dm_salt := salt\<rparr>"
    using m by (auto simp: maintain_tick_def Let_def split: bind_splits prod.splits)
  have "books (dm_reg d)" using d by (simp add: daemon_ok_def)
  from books_Maintain [OF this reg(1)] show ?thesis by (simp add: view_def reg(2) server_Sweep_def)
qed

lemma configure_follows:
  assumes d: "daemon_ok os d" and "dm_phase d = ToConfigure" and c: "signal_configure os d = Some d'"
  shows "service_step (view d) (view d')"
proof -
  obtain cfg where cfg: "store_Get (dm_store d) = Some cfg"
      "d' = d\<lparr>dm_reg := Configure (os_env os) cfg (dm_reg d), dm_phase := ToReopen\<rparr>"
    using c by (auto simp: signal_configure_def)
  have "daemon_ok os d'" by (rule signal_configure_ok [OF assms])
  from waiting_known [OF this] have known: "Domain (ev_site e) \<in> known_sites (dm_reg d) \<union> Domain ` set (Sites cfg)"
    if "e \<in> set (waiting d)" for e
    using that by (simp add: cfg(2) Configure_known)
  have "fst ` set_mset (sp_waits (view d)) \<subseteq> sp_sites (view d) \<union> Domain ` set (Sites cfg)"
  proof (rule image_subsetI)
    fix ev
    assume "ev \<in># sp_waits (view d)"
    then obtain e where "e \<in> set (waiting d)" "ev = event_of e" by (auto simp: view_def)
    with known [of e] show "fst ev \<in> sp_sites (view d) \<union> Domain ` set (Sites cfg)" by (simp add: view_def)
  qed
  from service_step.learn [OF _ this] assms(2) show ?thesis by (simp add: view_def cfg(2) Configure_known)
qed

lemma daemon_step_follows:
  "daemon_step os d d' \<Longrightarrow> daemon_ok os d \<Longrightarrow> view d' = view d \<or> service_step (view d) (view d')"
proof (induction rule: daemon_step.induct)
  case (request d cfg now rq elapsed srv calls rs)
  then show ?case by (intro request_follows)
next
  case (receive d e rest)
  then show ?case by (simp add: view_def)
next
  case (finish d pre e post clock reg calls)
  then show ?case by (intro disjI2 finish_follows)
next
  case (tick now rand clock d d')
  then show ?case by (simp add: tick_follows)
next
  case (load d sr)
  then have "\<not> sp_loading (view d)" by (simp add: view_def)
  from service_step.load [OF this] load show ?case
    by (cases rule: Reload_cases [of "os_loader os" sr "dm_store d"]) (simp_all add: signal_load_def view_def)
next
  case (configure d d')
  then show ?case by (intro disjI2 configure_follows)
next
  case (reopen d w)
  then show ?case by (simp add: signal_reopen_def case_prod_unfold Let_def view_def)
next
  case (closing d)
  then show ?case using service_step.close [of "view d"] by (simp add: view_def close_pool_def)
qed

interpretation dm: simulation "daemon_step os" service_step view "daemon_ok os" for os
  by unfold_locales (rule daemon_step_ok, assumption+, rule daemon_step_follows)

text \<open>A daemon that has just started is a service with nothing to do.\<close>

lemma start_fresh:
  assumes "start os stat sr w rand clock path = Some (Inr d0)"
  shows "view d0 = initial_service (known_sites (dm_reg d0)) \<and> daemon_ok os d0"
proof -
  from assms have d: "daemon_ok os d0" "pl_accepted (dm_queue d0) = []" "rg_calls (dm_reg d0) = []"
    by (cases rule: start_cases; simp)+
  then have w: "waiting d0 = []" "pl_recorded (dm_queue d0) = []" by (auto simp: daemon_ok_def pool_ok_def)
  have "\<not> pl_closed (sv_queue srv)" if "NewServer cfg = Some srv" for cfg :: "'b config" and srv
    using that by (auto simp: NewServer_def new_pool_def split: option.splits if_splits)
  then have "dm_phase d0 = Waiting \<and> \<not> pl_closed (dm_queue d0)"
    using assms by (auto simp: start_def Let_def split: bind_splits sum.splits option.splits prod.splits)
  with d w show ?thesis by (simp add: view_def initial_service_def tally_def)
qed

text \<open>
  C5: The daemon implements the service. Every run of the daemon from a successful start, with its requests,
  workers, ticks, the three parts of each signal and the close of the queue in any interleaving, is seen from
  outside a run of the specification from a service that knows the configured sites: an event is taken only
  for a site that is known or about to be, each waiting event leaves once, its pageview counted for its site,
  and only an event whose site a reload has not announced yet is lost. Outside a reload the site of every event that
  waits is known.
\<close>

theorem daemon_refines_service:
  assumes "start os stat sr w rand clock path = Some (Inr d0)" and "daemon_steps os d0 d"
  shows "service_steps (initial_service (known_sites (dm_reg d0))) (view d) \<and> service_ok (view d)"
proof -
  from assms(1) have d0: "view d0 = initial_service (known_sites (dm_reg d0))" "daemon_ok os d0"
    using start_fresh by blast+
  have "service_ok (view d0)" by (simp add: d0(1) initial_service_def service_ok_def)
  from dm.transfers [OF assms(2) d0(2), of service_ok, OF this] dm.run_follows [OF assms(2) d0(2)] show ?thesis
    unfolding d0(1) using service_step_ok by blast
qed

theorem daemon_refines_service_witness:
  "\<exists>d. daemon_steps example_outside example_daemon d \<and>
     service_steps (initial_service (known_sites (dm_reg example_daemon))) (view d) \<and> sp_waits (view d) = {#} \<and>
     sp_counted (view d) ''example.org'' + sp_lost (view d) ''example.org'' = 1"
proof -
  obtain d where d: "daemon_steps example_outside example_daemon d" "pl_buf (dm_queue d) = []" "pl_busy (dm_queue d) = []"
      "pageviews_of ''example.org'' (pl_accepted (dm_queue d)) = 1"
    using example_run_steps by blast
  have ok: "daemon_ok example_outside d"
    using start_fresh [OF example_started [unfolded example_start_def]] daemon_steps_ok [OF d(1)] by blast
  have "mset (pl_accepted (dm_queue d)) = mset (pl_recorded (dm_queue d))" using ok d by (simp add: daemon_ok_def pool_ok_def)
  from pageviews_of_mset [OF this, of "''example.org''"] d(4) have "pageviews_of ''example.org'' (pl_recorded (dm_queue d)) = 1" by simp
  moreover have "tally FPageviews ''example.org'' (rg_calls (dm_reg d)) \<le> pageviews_of ''example.org'' (pl_recorded (dm_queue d))"
    using ok by (simp add: daemon_ok_def counts_ok_def)
  ultimately show ?thesis
    using daemon_refines_service [OF example_started [unfolded example_start_def] d(1)] d(1-3)
    by (intro exI [of _ d]) (simp add: view_def)
qed

section \<open>What the specification gives\<close>

text \<open>A service that is not told of new sites counts every pageview it has taken.\<close>

lemma lost_only_while_loading: "service_step s s' \<Longrightarrow> sp_lost s' k \<noteq> sp_lost s k \<Longrightarrow> sp_loading s \<and> k \<notin> sp_sites s"
  by (induction rule: service_step.induct) (auto split: if_splits)

lemma counts_grow: "service_step s s' \<Longrightarrow> sp_counted s k \<le> sp_counted s' k \<and> sp_sites s \<subseteq> sp_sites s'"
  by (induction rule: service_step.induct) auto

text \<open>
  No pageview of a site the daemon knows is ever lost. Whatever runs beside it, reloads of any
  configuration included: once a site is known to the registry it stays known, its count never falls and the number of its
  pageviews that were taken but not counted does not grow any more.
\<close>

theorem known_site_loses_nothing:
  assumes "daemon_ok os d" and "daemon_steps os d d'" and "k \<in> known_sites (dm_reg d)"
  shows "k \<in> known_sites (dm_reg d') \<and> sp_lost (view d') k = sp_lost (view d) k \<and>
    tally FPageviews k (rg_calls (dm_reg d)) \<le> tally FPageviews k (rg_calls (dm_reg d'))"
proof -
  define P where "P s \<longleftrightarrow> k \<in> sp_sites s \<and> sp_lost s k = sp_lost (view d) k \<and> sp_counted (view d) k \<le> sp_counted s k" for s :: service
  have "P s'" if "service_step s s'" "P s" for s s'
    using lost_only_while_loading [OF that(1), of k] counts_grow [OF that(1), of k] that(2) by (auto simp: P_def)
  moreover have "P (view d)" using assms(3) by (simp add: P_def view_def)
  ultimately have "P (view d')" using dm.transfers [OF assms(2,1), of P] by blast
  then show ?thesis by (simp add: P_def view_def)
qed

end
