(* ===== verification/Journey.thy ===== *)
theory Journey
  imports Wire Service
begin

text \<open>
  From the page to the counter: what the script \<open>web/counter.js\<close> sends, the handler takes, a worker records
  and the registry counts. The links are \<open>sent_body_is_read_back\<close>'s decoding (\<open>Wire\<close>), the gates (\<open>Handler\<close>) and the
  service the daemon implements (\<open>Service\<close>); \<open>sent_pageview_is_counted\<close> is the chain.
\<close>

section \<open>At the handler\<close>

text \<open>A request that carries a body of the script, for a site of the configuration, and meets no obstacle.\<close>

definition delivers ::
  "'re ingest_env \<Rightarrow> 're config \<Rightarrow> request \<Rightarrow> time \<Rightarrow> 're ingest_server \<Rightarrow> body \<Rightarrow> 're site \<Rightarrow> bool" where
  "delivers ie cfg r now s b st \<longleftrightarrow>
     rq_Method r = ''POST'' \<and> rq_Body r = Some (stringify b) \<and> int (length (stringify b)) \<le> MaxBodyD (Server cfg) \<and>
     config_Site (ie_platform ie) cfg (ToLower (ie_lower ie) (TrimSpace (utf8 (b_d b)))) = Some st \<and>
     AllowsOrigin (ie_platform ie) st (rq_Header r ''Origin'') \<and>
     (HMACKey st = [] \<or> validSignature (HMACKey st) (stringify b) (rq_Header r ''X-Signature'')) \<and>
     \<not> ua_Bot (ParseUA (ie_lower ie) (rq_Header r ''User-Agent'')) \<and>
     fst (Allow (rateKey (ClientIP r (TrustProxy (Server cfg)))) now (sv_limiter s)) \<and>
     \<not> pl_closed (sv_queue s) \<and> has_room (sv_queue s)"

lemma validate_domain: "validate lower (p\<lparr>p_Domain := k\<rparr>) = map_option (p_Domain_update (\<lambda>_. k)) (validate lower p)"
  by (simp add: validate_def Let_def)

lemma payload_domain: "p_Domain (payload_of b) = utf8 (b_d b)"
  by (cases b) (simp_all add: zero_payload_def)

lemma delivered_passes:
  assumes "delivers ie cfg r now s b st" "sendable b" "\<not> is_EventBody b" "utf8 (b_u b) \<noteq> []" "length (utf8 (b_u b)) \<le> 2048"
  obtains p where "event_gates ie cfg r = Inr (st, p)" "p_Name p = p_Name (payload_of b)"
proof -
  obtain p where p: "validate (ie_lower ie) (payload_of b) = Some p" "p_Name p = p_Name (payload_of b)"
    using body_valid [OF assms(2-5), of "ie_lower ie"] by blast
  let ?k = "ToLower (ie_lower ie) (TrimSpace (utf8 (b_d b)))"
  have "passes_gates ie cfg r st (p\<lparr>p_Domain := ?k\<rparr>)"
    unfolding passes_gates_def
    using assms(1) body_read_back [OF assms(2)] p(1)
    by (intro exI [of _ "stringify b"] exI [of _ "payload_of b"])
      (simp add: delivers_def read_body_def validate_domain payload_domain)
  then have "event_gates ie cfg r = Inr (st, p\<lparr>p_Domain := ?k\<rparr>)" unfolding event_gates_Inr .
  then show thesis using that p(2) by simp
qed

lemma delivered_is_queued:
  assumes "delivers ie cfg r now s b st" "event_gates ie cfg r = Inr (st, p)"
  obtains s' calls rs e where "handleEvent ie cfg r now elapsed s = Some (s', calls, rs)" "rs_code rs = 202"
    "Domain (ev_site e) = Domain st" "ev_p e = p"
    "mset (pl_buf (sv_queue s') @ pl_busy (sv_queue s')) = add_mset e (mset (pl_buf (sv_queue s) @ pl_busy (sv_queue s)))"
    "pl_recorded (sv_queue s') = pl_recorded (sv_queue s)"
proof -
  let ?ip = "ClientIP r (TrustProxy (Server cfg))"
  let ?e = "\<lparr>ev_site = st, ev_p = p, ev_ip = ?ip, ev_ua = rq_Header r ''User-Agent'', ev_at = now\<rparr>"
  obtain l where l: "Allow (rateKey ?ip) now (sv_limiter s) = (True, l)"
    using assms(1) by (cases "Allow (rateKey ?ip) now (sv_limiter s)") (simp add: delivers_def)
  obtain q where q: "try_send ?e (sv_queue s) = Some (True, q)"
    "mset (pl_buf q @ pl_busy q) = add_mset ?e (mset (pl_buf (sv_queue s) @ pl_busy (sv_queue s)))" "pl_recorded q = pl_recorded (sv_queue s)"
    using assms(1) by (auto simp: delivers_def try_send_def has_room_def)
  show thesis
    by (rule that [of "s\<lparr>sv_limiter := l, sv_queue := q\<rparr>" _ "\<lparr>rs_code = 202, rs_header = writeCORS (rq_Header r ''Origin'') [], rs_body = []\<rparr>" ?e])
      (use assms l q in \<open>simp_all add: delivers_def handleEvent_def handle_post_def enqueue_def Let_def\<close>)
qed

section \<open>In the service\<close>

text \<open>Every pageview of a site the service ever took: counted, lost or waiting.\<close>

definition taken :: "service \<Rightarrow> string \<Rightarrow> nat" where
  "taken s k = sp_counted s k + sp_lost s k + Multiset.count (sp_waits s) (k, True)"

lemma taken_grows: "service_step s s' \<Longrightarrow> taken s k \<le> taken s' k"
  by (induction rule: service_step.induct) (auto simp: taken_def)

lemma taken_run: "daemon_steps os d d' \<Longrightarrow> daemon_ok os d \<Longrightarrow> taken (view d) k \<le> taken (view d') k"
  using dm.transfers [of os d d' "\<lambda>s. taken (view d) k \<le> taken s k"] taken_grows le_trans by blast

text \<open>A pageview that waits for a known site is counted by the time nothing waits.\<close>

lemma waiting_is_counted:
  assumes "daemon_ok os d" "daemon_steps os d d'" "waiting d' = []" "k \<in> known_sites (dm_reg d)" "(k, True) \<in># sp_waits (view d)"
  shows "tally FPageviews k (rg_calls (dm_reg d)) < tally FPageviews k (rg_calls (dm_reg d'))"
proof -
  have "sp_lost (view d') k = sp_lost (view d) k" using known_site_loses_nothing [OF assms(1,2,4)] by blast
  moreover have "taken (view d) k \<le> taken (view d') k" by (rule taken_run [OF assms(2,1)])
  moreover have "0 < Multiset.count (sp_waits (view d)) (k, True)" using assms(5) by simp
  moreover have "Multiset.count (sp_waits (view d')) (k, True) = 0" using assms(3) by (simp add: view_def)
  ultimately have "sp_counted (view d) k < sp_counted (view d') k" unfolding taken_def by linarith
  then show ?thesis by (simp add: view_def)
qed

section \<open>The chain\<close>

text \<open>
  C6: A pageview the script sends is counted. Take any history of a page of a site, one of the pageviews the script sends
  in it with an address of 1 to 2048 bytes, and any reachable daemon with no reload between its halves. When the
  request delivers the body to a configured site (within the body limit, from an allowed origin, signed if
  the site has a key, not from a bot, within the rate limit, with room in the queue), the answer is 202, and whatever the
  daemon does from there on, reloads included, by the time no event waits the site's pageview counter has grown.
\<close>

theorem sent_pageview_is_counted:
  assumes "units site" "list_all op_ok ops" "b \<in> set (snd (script_run site ops loaded_script))" "is_PageviewBody b"
    and "utf8 (b_u b) \<noteq> []" "length (utf8 (b_u b)) \<le> 2048"
    and "start os stat sr w rand clock path = Some (Inr d0)" "daemon_steps os d0 d" "dm_phase d \<noteq> ToConfigure"
    and "store_Get (dm_store d) = Some cfg" "delivers (os_ingest os) cfg r now (dm_srv d) b st" "timely now"
  shows "\<exists>srv calls rs. handleEvent (os_ingest os) cfg r now elapsed (dm_srv d) = Some (srv, calls, rs) \<and> rs_code rs = 202 \<and>
    (\<forall>d'. daemon_steps os (d\<lparr>dm_srv := srv, dm_calls := dm_calls d @ calls\<rparr>) d' \<and> waiting d' = [] \<longrightarrow>
       tally FPageviews (Domain st) (rg_calls (dm_reg d)) < tally FPageviews (Domain st) (rg_calls (dm_reg d')))"
proof -
  have b: "sendable b" using run_sendable [OF assms(1,2)] assms(3) by blast
  have "\<not> is_EventBody b" "p_Name (payload_of b) = ''pageview''" using assms(4) by (cases b; simp)+
  then obtain p where p: "event_gates (os_ingest os) cfg r = Inr (st, p)" "p_Name p = ''pageview''"
    using delivered_passes [OF assms(11) b _ assms(5,6)] by metis
  obtain srv calls rs e where h: "handleEvent (os_ingest os) cfg r now elapsed (dm_srv d) = Some (srv, calls, rs)" "rs_code rs = 202"
    and e: "Domain (ev_site e) = Domain st" "ev_p e = p"
      "mset (pl_buf (sv_queue srv) @ pl_busy (sv_queue srv)) = add_mset e (mset (waiting d))"
    using delivered_is_queued [OF assms(11) p(1)] by metis
  let ?d = "d\<lparr>dm_srv := srv, dm_calls := dm_calls d @ calls\<rparr>"
  have ok: "daemon_ok os d" using start_fresh [OF assms(7)] daemon_steps_ok [OF assms(8)] by blast
  then obtain c0 where c: "finalize (ie_platform (os_ingest os)) c0 = Inr cfg" "Domain ` set (Sites cfg) \<subseteq> known_sites (dm_reg d)"
    using assms(9,10) by (auto simp: daemon_ok_def config_ok_def os_ingest_def)
  have "config_Site (ie_platform (os_ingest os)) cfg (ToLower (ie_lower (os_ingest os)) (TrimSpace (utf8 (b_d b)))) = Some st"
    using assms(11) by (simp add: delivers_def)
  from finalized_domain [OF c(1) this] c(2) have known: "Domain st \<in> known_sites (dm_reg ?d)" by auto
  have wait: "(Domain st, True) \<in># sp_waits (view ?d)" using e p(2) by (simp add: view_def)
  have "tally FPageviews (Domain st) (rg_calls (dm_reg d)) < tally FPageviews (Domain st) (rg_calls (dm_reg d'))"
    if "daemon_steps os ?d d'" "waiting d' = []" for d'
    using waiting_is_counted [OF request_ok [OF ok assms(10,12) h(1)] that known wait] by simp
  with h show ?thesis by blast
qed

text \<open>A visit to a page of the example site, sent to the daemon of the example.\<close>

abbreviation example_visit :: script_op where
  "example_visit \<equiv> Navigated (example_page ''/about'' 5000) (example_network, example_network)"

abbreviation example_body :: body where
  "example_body \<equiv> PageviewBody (js ''example.org'') (js ''https://a.com/about'') [] 800"

definition example_delivery :: request where
  "example_delivery = example_request\<lparr>rq_Body := Some (stringify example_body)\<rparr>"

lemma example_delivers:
  "delivers (os_ingest example_outside) example_running example_delivery 7 (dm_srv example_daemon) example_body example_built"
proof -
  have ie: "os_ingest example_outside = Handler.example_env"
    by (simp add: os_ingest_def example_outside_def toy_loader_def Handler.example_env_def)
  have "ToLower (ie_lower Handler.example_env) (TrimSpace (utf8 (js ''example.org''))) = ''example.org''"
    "ToLower (pf_lower (ie_platform Handler.example_env))
       (ToLower (ie_lower Handler.example_env) (TrimSpace (utf8 (js ''example.org'')))) = ''example.org''"
    "domain_key plain_platform example_site = ''example.org''"
    by (code_simp, code_simp, code_simp)
  then have "config_Site (ie_platform Handler.example_env) example_running
      (ToLower (ie_lower Handler.example_env) (TrimSpace (utf8 (js ''example.org'')))) = Some example_built"
    by (simp add: config_Site_def)
  moreover have "AllowsOrigin (ie_platform Handler.example_env) example_built ''https://example.org''" by code_simp
  moreover have "\<not> ua_Bot (ParseUA (ie_lower Handler.example_env) ''Firefox/128'')" by code_simp
  moreover have "length (stringify example_body) = 75" by code_simp
  moreover have "HMACKey example_built = []" by code_simp
  ultimately show ?thesis
    unfolding delivers_def ie
    by (simp add: example_delivery_def example_request_def example_daemon_def Allow_def NewLimiter_def has_room_def
      example_config_def newConfig_def)
qed

theorem sent_pageview_is_counted_witness:
  "\<exists>srv calls rs.
     handleEvent (os_ingest example_outside) example_running example_delivery 7 3 (dm_srv example_daemon) = Some (srv, calls, rs) \<and>
     rs_code rs = 202 \<and>
     (\<forall>d'. daemon_steps example_outside (example_daemon\<lparr>dm_srv := srv, dm_calls := dm_calls example_daemon @ calls\<rparr>) d' \<and> waiting d' = [] \<longrightarrow>
        0 < tally FPageviews (Domain example_built) (rg_calls (dm_reg d')))"
proof -
  have ops: "units (js ''example.org'')" "list_all op_ok [example_visit]"
    by (simp_all add: units_def page_ok_def example_page_def)
  have sent: "example_body \<in> set (snd (script_run (js ''example.org'') [example_visit] loaded_script))"
    by (simp add: pageview_def flush_def post_def loaded_script_def example_page_def example_network_def)
  have u: "utf8 (js ''https://a.com/about'') = ''https://a.com/about''" by code_simp
  have url: "utf8 (b_u example_body) \<noteq> []" "length (utf8 (b_u example_body)) \<le> 2048" unfolding body.sel u by simp_all
  have d: "dm_phase example_daemon \<noteq> ToConfigure" "store_Get (dm_store example_daemon) = Some example_running"
    by (simp_all add: example_daemon_def store_Get_def)
  have now: "timely 7" by (simp add: timely_def)
  have pv: "is_PageviewBody example_body" by simp
  from sent_pageview_is_counted [OF ops sent pv url example_started [unfolded example_start_def] rtranclp.rtrancl_refl d
      example_delivers now, of 3]
  show ?thesis by (fastforce intro: gr_zeroI)
qed

end
