(* ===== verification/Spec2Isabelle.thy ===== *)
theory Spec2Isabelle
  imports Guard Sessions Rolling Config Registry Registry_Counts UA Limiter Identity Path Store Geo Handler Labels Ingest Collector Visitors Metrics Startup Daemon Daemon_Runs Script Wire Ports Service Journey
begin

text \<open>
  A verification development for ridiculytics, a self-hosted web analytics daemon that folds
  pageviews into bounded Prometheus metrics.

  The program. \<open>cmd/ridiculytics/main.go\<close> loads the configuration (\<open>internal/config\<close>), opens the
  geolocation databases (\<open>internal/geo\<close>), makes the metric registry (\<open>internal/aggregate\<close>), the visitor
  salt and the ingest server (\<open>internal/ingest\<close>). A browser posts an event; the handler checks it against
  the gates and queues it; a worker enriches it (\<open>internal/enrich\<close>) and passes the observation to
  \<open>Registry.Record\<close>. The registry asks one cardinality guard per dimension which label the value may have,
  counts the visitor in rolling windows and follows the visit in the session tracker
  (\<open>internal/sketch\<close>), and increments the metric families. Every minute the daemon ends idle sessions,
  deletes the series of labels that went quiet, forgets idle rate limits and rotates the salt; a signal
  reloads configuration and databases; a scrape reads the gauges.

  The theories, from the parts to the whole. Each opens with what it holds.

  \<^item> \<open>Prelude\<close>: machine integers, Go's saturating time arithmetic, Go maps as association lists with
    distinct keys, loops that may panic (\<open>loop_opt\<close>). \<open>GoStrings\<close>, \<open>GoStrconv\<close>, \<open>Float64\<close>, \<open>Netip\<close>, \<open>Sha256\<close>,
    \<open>GoUrl\<close>, \<open>GoJson\<close>: what the code uses of Go's standard library (strings and UTF-8, number parsing, IEEE
    doubles, addresses and prefixes, HMAC-SHA256, URLs, JSON). \<open>Aging\<close>: the interface of a store whose entries
    age out.
  \<^item> \<open>aggregate/guard.go\<close>. \<open>Counter\<close>: the Count-Min sketch; never below the true frequency, and what the loop
    computes is the conservative update. \<open>Guard\<close>: admission under a cap, sequentially and as interleaved
    critical sections; a frequent value is admitted, the cap always holds.
  \<^item> \<open>sketch/hll.go\<close>. \<open>Rolling\<close>: the ring of sketches and the calendar day, over an abstract HyperLogLog sketch.
  \<^item> \<open>sketch/session.go\<close>. \<open>Sessions\<close>: a live session is the fold of its own visitor's history; starts, ends and
    live sessions balance; the interleaved program can lose a session.
  \<^item> \<open>config/config.go\<close>, \<open>config/env.go\<close>. \<open>Config\<close>: which configurations \<open>finalize\<close> accepts and what it makes of
    them. \<open>Env\<close>: the environment overlay, whose errors are all reported. \<open>Store\<close>: \<open>Load\<close> and the live store.
  \<^item> \<open>enrich/path.go\<close>, \<open>enrich/ua.go\<close>. \<open>Path\<close>: the shape of a normalised path, which identifiers it collapses, and
    that no query or fragment reaches a path or a referrer label. \<open>UA\<close>: browser, system and device from the rule tables.
  \<^item> \<open>ingest/ratelimit.go\<close>, \<open>ingest/identity.go\<close>. \<open>Limiter\<close>: the token bucket on doubles and its bound. \<open>Identity\<close>:
    the client address, the rate key and the visitor hash with its salt.
  \<^item> \<open>ingest/handler.go\<close>. \<open>Pool\<close>: the queue and its workers as steps. \<open>Handler\<close>: the gates, the answers, the
    enrichment. \<open>Ingest\<close>: the worker on the registry.
  \<^item> \<open>geo/geo.go\<close>. \<open>Geo\<close>: both providers, their handles, and lookups beside a reload as critical sections.
  \<^item> \<open>aggregate/registry.go\<close>. \<open>Registry\<close>: functions from state and metric calls to state and metric calls.
    \<open>Registry_Bounds\<close>: the invariant, that every series carries labels its guards admit. \<open>Registry_Counts\<close>: the
    properties of whole runs. \<open>Labels\<close>: what the metrics client demands of a label, and that UTF-8 texts meet it.
    \<open>Metrics\<close>: the registrations of \<open>New\<close>.
  \<^item> \<open>aggregate/collector.go\<close>. \<open>Collector\<close>: a scrape, well formed and true to the books. \<open>Visitors\<close>: the visitor
    gauges are the estimates of exactly the visitors of their windows.
  \<^item> \<open>cmd/ridiculytics/main.go\<close>. \<open>Startup\<close>: finding and opening the databases. \<open>Daemon\<close>: the start with its error
    paths, housekeeping, reload, and the whole program as the step relation \<open>daemon_step\<close> with its
    invariant; around it the stages of \<open>run\<close> (\<open>program_step\<close>), which waits, shuts down and returns while the
    goroutines it does not join keep stepping. \<open>Daemon_Runs\<close>: what holds along every run; a signal that is under
    way when \<open>run\<close> returns opens the databases again. \<open>Ports\<close>: the flags, the two listeners and their routes;
    the ingest port reveals nothing of what was counted. \<open>Service\<close>: the specification of the daemon as a service that
    takes events, counts each once and learns sites, and the simulation that the daemon implements it.
  \<^item> \<open>web/counter.js\<close>. \<open>Script\<close>: the tracking script, its state, its operations and the text it sends. \<open>Wire\<close>: the
    script and the handler together, what one prints the other reads; event names; signatures.
    \<open>Journey\<close>: a pageview the script sends, through handler, queue and worker, is counted.

  Interfaces. A \<open>locale\<close> states each contract and is interpreted on the code's model: \<open>admission\<close> for guards,
  \<open>session_sink\<close> for the callbacks of the session tracker (the registry provides it), \<open>aging_store\<close> for guard,
  sessions and rate limiter, \<open>provider\<close> for the geo providers (the null one, the MMDB one, and the interface
  value that dispatches to them), \<open>simulation\<close> for a step relation that implements a specification (the daemon).

  Modelling. A Go struct is a record with the code's fields. A method is a function that takes the
  receiver last and returns it updated. A panic is \<open>None\<close>. A \<open>uint32\<close> or \<open>uint64\<close> is a word and
  wraps around; \<open>int\<close> values are unbounded integers where the code only compares and
  stores them. A \<open>float64\<close> is a rational with the rounding \<open>fl\<close> after each operation. A \<open>time.Time\<close> is its
  nanoseconds since the epoch, an integer; \<open>time.Duration\<close> saturates in \<open>Sub\<close> as in Go. A string is its bytes.
  The mutexes are modelled where their scope matters, by step relations whose steps are the critical
  sections (\<open>guard_step\<close>, \<open>touch_step\<close>, \<open>geo_step\<close>, the steps of the queue); elsewhere a method is one step. The
  order of a Go map is the order of the association list: the theorems hold for every order. So the properties
  of registry runs (\<open>reg_step\<close> in sequence) and of scrapes are about operations that run one after another: where they
  interleave, a session can be lost (\<open>concurrent_touch_loses_a_session\<close>). In
  \<open>daemon_step\<close> a request, the receive and the record of a worker and a tick are one step each, and a signal
  is three: an event may be handled between the store and the registry learning of a new site.

  Bounds. The JSON decoder recurses on a fuel of twice the length of the text and one more; each of its calls consumes
  a byte or ends a value, and \<open>json_decode_fuel\<close> shows that more fuel changes nothing. Every other loop is
  structural or has a measure. Instants are bounded by \<open>max_duration\<close> (292 years from the epoch) where the
  code's arithmetic on nanoseconds needs it (\<open>timely\<close>).

  Outside the model, as parameters: xxhash (a function from strings to words), the HyperLogLog
  package (record \<open>hll\<close>, sound in the sense of \<open>hll_sound\<close>), the Prometheus client (it receives a list of calls;
  \<open>ev_accepts\<close> and \<open>sc_takes\<close> say which it takes) with the descriptors of its runtime collectors, the regular
  expression engine, the time zone database and the Unicode tables (records \<open>platform\<close>, \<open>unicode\<close>), the YAML
  decoder (\<open>ld_yaml\<close>), the MaxMind reader (record \<open>mmdb_lib\<close>), the \<open>urlstrictcolons\<close> setting of the URL parser,
  the random source, the clock, the environment and the file system. Hypotheses about them are named in
  each theorem.

  The script runs on strings of UTF-16 units; the properties a site passes with an event are the text of some JSON
  value (\<open>props_ok\<close>). What a page, the network and the clock give it are arguments of its operations.

  Not modelled, and why. Sockets, the standard library's HTTP server with its timeouts, signal
  delivery, logging and \<open>http.ServeContent\<close>: pure I/O around the modelled functions; the mux is asked for paths
  that are already clean. The wording of errors and help texts, and the \<open>Connection\<close>
  header that \<open>MaxBytesReader\<close> adds to a 413. That a scrape, one
  \<open>Record\<close> and a sweep of the registry are not atomic with respect to each other: the code takes the locks
  of their parts one after the other, and reads some fields without a lock.
\<close>

end
